(* ===== verification/Prelude.thy ===== *)
theory Prelude
  imports Main "HOL-Library.Finite_Map" "HOL-Library.Word"
begin

section \<open>Prelude: results, a small calculus for panics, lists, quorums\<close>

text \<open>
  What every component of the development shares.

  \<^item> A Rust function that may panic, or return \<^verbatim>\<open>Err\<close>, has a result of a sum type:
    \<open>Inl\<close> is the panic or the error, \<open>Inr\<close> the value. \<open>bind_r\<close> is the \<^verbatim>\<open>?\<close> operator (and the
    propagation of a panic through its callers).
  \<^item> \<open>wp E m Q\<close> says that \<open>m\<close> either fails with an error of \<open>E\<close> or delivers a value that satisfies
    \<open>Q\<close>: with \<open>E = {}\<close> it is total correctness (no panic), with \<open>E = UNIV\<close> partial correctness. The rules
    for it are collected in \<open>wp_rules\<close>.
  \<^item> \<open>list_get\<close> is the bounds-checked \<^verbatim>\<open>slice::get\<close>.
  \<^item> \<open>quorum_system\<close> is the interface of a quorum system; strict majorities of a finite set, the
    sizes that \<^verbatim>\<open>RaftNode::majority\<close> computes, are one.
\<close>

named_theorems wp_rules \<open>weakest-precondition rules for fallible steps\<close>

subsection \<open>Types shared by all components\<close>

text \<open>
  Identifiers, terms and log indexes are \<^verbatim>\<open>u64\<close> in the source. They start small and only ever grow by
  one per election or per appended entry, so they are modelled as \<open>nat\<close>; the two places where a
  client or a seed supplies arbitrary 64-bit values (dedup sequence numbers, the random generator)
  keep their width as \<open>64 word\<close>.
\<close>

type_synonym node_id = nat
type_synonym term_no = nat
type_synonym log_index = nat
type_synonym u64 = "64 word"

text \<open>Instants and durations, in microseconds.\<close>

type_synonym instant = nat
type_synonym duration = nat

subsection \<open>Fallible computations\<close>

fun bind_r :: "'e + 'a \<Rightarrow> ('a \<Rightarrow> 'e + 'b) \<Rightarrow> 'e + 'b" where
  "bind_r (Inl e) f = Inl e"
| "bind_r (Inr a) f = f a"

definition map_err :: "('e \<Rightarrow> 'p) \<Rightarrow> 'e + 'a \<Rightarrow> 'p + 'a" where
  "map_err g m = (case m of Inl e \<Rightarrow> Inl (g e) | Inr a \<Rightarrow> Inr a)"

definition wp :: "'e set \<Rightarrow> 'e + 'a \<Rightarrow> ('a \<Rightarrow> bool) \<Rightarrow> bool" where
  "wp E m Q = (case m of Inl e \<Rightarrow> e \<in> E | Inr a \<Rightarrow> Q a)"

definition list_get :: "'a list \<Rightarrow> nat \<Rightarrow> 'a option" where
  "list_get xs i = (if i < length xs then Some (xs ! i) else None)"

fun seq_r :: "('a \<Rightarrow> 's \<Rightarrow> 'e + 's) \<Rightarrow> 'a list \<Rightarrow> 's \<Rightarrow> 'e + 's" where
  "seq_r f [] s = Inr s"
| "seq_r f (x # xs) s = bind_r (f x s) (seq_r f xs)"

lemma wp_Inl [wp_rules]: "wp E (Inl e) Q \<longleftrightarrow> e \<in> E"
  by (simp add: wp_def)

lemma wp_Inr [wp_rules]: "wp E (Inr a) Q \<longleftrightarrow> Q a"
  by (simp add: wp_def)

lemma wp_bind [wp_rules]: "wp E (bind_r m f) Q \<longleftrightarrow> wp E m (\<lambda>a. wp E (f a) Q)"
  by (cases m) (simp_all add: wp_def)

lemma wp_if [wp_rules]:
  "wp E (if b then m else m') Q \<longleftrightarrow> (b \<longrightarrow> wp E m Q) \<and> (\<not> b \<longrightarrow> wp E m' Q)"
  by simp

lemma wp_case_option [wp_rules]:
  "wp E (case x of None \<Rightarrow> m | Some y \<Rightarrow> f y) Q \<longleftrightarrow>
     (x = None \<longrightarrow> wp E m Q) \<and> (\<forall>y. x = Some y \<longrightarrow> wp E (f y) Q)"
  by (cases x) simp_all

lemma wp_map_err [wp_rules]: "wp E (map_err g m) Q \<longleftrightarrow> wp {e. g e \<in> E} m Q"
  by (cases m) (simp_all add: wp_def map_err_def)

lemma wp_mono: "wp E m Q \<Longrightarrow> (\<And>a. m = Inr a \<Longrightarrow> Q a \<Longrightarrow> R a) \<Longrightarrow> wp E m R"
  by (cases m) (simp_all add: wp_def)

lemma wp_mono_err: "wp E m Q \<Longrightarrow> E \<subseteq> F \<Longrightarrow> wp F m Q"
  by (cases m) (auto simp: wp_def)

lemma wp_conj: "wp E m (\<lambda>a. Q a \<and> R a) \<longleftrightarrow> wp E m Q \<and> wp E m R"
  by (cases m) (auto simp: wp_def)

lemma wp_InrD: "wp E m Q \<Longrightarrow> m = Inr a \<Longrightarrow> Q a"
  by (simp add: wp_def)

lemma wp_InlD: "wp E m Q \<Longrightarrow> m = Inl e \<Longrightarrow> e \<in> E"
  by (simp add: wp_def)

lemma wp_empty_iff: "wp {} m Q \<longleftrightarrow> (\<exists>a. m = Inr a \<and> Q a)"
  by (cases m) (auto simp: wp_def)

lemma wp_UNIV_iff: "wp UNIV m Q \<longleftrightarrow> (\<forall>a. m = Inr a \<longrightarrow> Q a)"
  by (cases m) (auto simp: wp_def)

lemma bind_r_Inr_iff: "bind_r m f = Inr b \<longleftrightarrow> (\<exists>a. m = Inr a \<and> f a = Inr b)"
  by (cases m) auto

lemma bind_r_Inl_iff: "bind_r m f = Inl e \<longleftrightarrow> m = Inl e \<or> (\<exists>a. m = Inr a \<and> f a = Inl e)"
  by (cases m) auto

lemma map_err_Inr_iff [simp]: "map_err g m = Inr a \<longleftrightarrow> m = Inr a"
  by (cases m) (auto simp: map_err_def)

lemma map_err_simps [simp]: "map_err g (Inl e) = Inl (g e)" "map_err g (Inr a) = Inr a"
  by (simp_all add: map_err_def)

text \<open>An invariant of the body of a loop is an invariant of the loop.\<close>

lemma wp_seq_r:
  assumes "\<And>x s. x \<in> set xs \<Longrightarrow> I s \<Longrightarrow> wp E (f x s) I"
  shows "I s \<Longrightarrow> wp E (seq_r f xs s) I"
  using assms
proof (induction xs arbitrary: s)
  case Nil
  then show ?case by (simp add: wp_rules)
next
  case (Cons x xs)
  from Cons.prems have "wp E (f x s) I" by simp
  then show ?case
    by (simp add: wp_rules) (rule wp_mono, assumption, rule Cons.IH, auto intro: Cons.prems)
qed

subsection \<open>Lists\<close>

lemma list_get_Some_iff: "list_get xs i = Some x \<longleftrightarrow> i < length xs \<and> xs ! i = x"
  by (auto simp: list_get_def)

lemma list_get_None_iff [simp]: "list_get xs i = None \<longleftrightarrow> length xs \<le> i"
  by (auto simp: list_get_def)

lemma list_get_append:
  "list_get (xs @ ys) i = (if i < length xs then list_get xs i else list_get ys (i - length xs))"
  by (auto simp: list_get_def nth_append)

lemma list_get_take: "list_get (take n xs) i = (if i < n then list_get xs i else None)"
  by (auto simp: list_get_def)

lemma list_get_drop: "list_get (drop n xs) i = list_get xs (n + i)"
  by (auto simp: list_get_def)

subsection \<open>64-bit words\<close>

lemma unat_u64: "unat (w :: u64) < 2 ^ 64"
  using unsigned_less [of w] by simp

lemma u64_le_iff: "(a :: u64) \<le> b \<longleftrightarrow> unat a \<le> unat b"
  by (rule word_le_nat_alt)

lemma u64_less_iff: "(a :: u64) < b \<longleftrightarrow> unat a < unat b"
  by (rule word_less_nat_alt)

subsection \<open>Majorities and quorum systems\<close>

text \<open>A quorum system over the members \<open>M\<close>: any two quorums share a member.\<close>

locale quorum_system =
  fixes quorum :: "'a set \<Rightarrow> 'a set \<Rightarrow> bool"
  assumes quorum_subset: "quorum M Q \<Longrightarrow> Q \<subseteq> M"
    and quorum_meet: "finite M \<Longrightarrow> quorum M Q \<Longrightarrow> quorum M R \<Longrightarrow> Q \<inter> R \<noteq> {}"
begin

lemma quorum_nonempty: "finite M \<Longrightarrow> quorum M Q \<Longrightarrow> Q \<noteq> {}"
  using quorum_meet [of M Q Q] by simp

text \<open>Two functional choices made by quorums agree wherever each member chooses once.\<close>

lemma quorum_agree:
  assumes "finite M" and "quorum M Q" and "quorum M R"
    and "\<And>v. v \<in> Q \<Longrightarrow> P v a" and "\<And>v. v \<in> R \<Longrightarrow> P v b"
    and "\<And>v x y. P v x \<Longrightarrow> P v y \<Longrightarrow> x = y"
  shows "a = b"
proof -
  obtain v where "v \<in> Q" "v \<in> R"
    using quorum_meet [OF assms(1-3)] by blast
  then show ?thesis using assms(4-6) by blast
qed

end

definition is_majority :: "'a set \<Rightarrow> 'a set \<Rightarrow> bool" where
  "is_majority M Q \<longleftrightarrow> Q \<subseteq> M \<and> card M div 2 + 1 \<le> card Q"

lemma card_overlap:
  assumes "finite M" and "Q \<subseteq> M" and "R \<subseteq> M" and "card M < card Q + card R"
  shows "Q \<inter> R \<noteq> {}"
proof
  assume "Q \<inter> R = {}"
  with assms have "card Q + card R = card (Q \<union> R)"
    by (metis card_Un_disjoint finite_subset)
  also have "\<dots> \<le> card M"
    using assms by (intro card_mono) auto
  finally show False using assms(4) by simp
qed

interpretation majority: quorum_system is_majority
proof unfold_locales
  fix M Q :: "'a set"
  assume "is_majority M Q"
  then show "Q \<subseteq> M" by (simp add: is_majority_def)
next
  fix M Q R :: "'a set"
  assume "finite M" "is_majority M Q" "is_majority M R"
  then show "Q \<inter> R \<noteq> {}"
    by (intro card_overlap [of M]) (auto simp: is_majority_def)
qed

end
