(* ===== verification/Rng.thy ===== *)
theory Rng
  imports Prelude
begin

unbundle bit_operations_syntax

section \<open>SplitMix64: the seeded generator\<close>

text \<open>
  \<^verbatim>\<open>src/rng.rs\<close> at its width: additions and multiplications wrap modulo \<open>2 ^ 64\<close>, as the
  \<^verbatim>\<open>wrapping_add\<close> and \<^verbatim>\<open>wrapping_mul\<close> of the source do. \<open>next_range\<close> is \<open>None\<close> where the source
  asserts.
\<close>

record splitmix64 =
  rng_state :: u64

definition rng_new :: "u64 \<Rightarrow> splitmix64" where
  "rng_new seed = \<lparr>rng_state = seed\<rparr>"

definition next_u64 :: "splitmix64 \<Rightarrow> u64 \<times> splitmix64" where
  "next_u64 r =
     (let s = rng_state r + 0x9E3779B97F4A7C15;
          z = s;
          z = (z XOR drop_bit 30 z) * 0xBF58476D1CE4E5B9;
          z = (z XOR drop_bit 27 z) * 0x94D049BB133111EB
      in (z XOR drop_bit 31 z, r\<lparr>rng_state := s\<rparr>))"

definition next_range :: "u64 \<Rightarrow> u64 \<Rightarrow> splitmix64 \<Rightarrow> (u64 \<times> splitmix64) option" where
  "next_range lo hi r =
     (if \<not> lo \<le> hi then None
      else
        let span = hi - lo + 1
        in if span = 0 then Some (next_u64 r)
           else let (x, r') = next_u64 r in Some (lo + x mod span, r'))"

lemma next_u64_state: "rng_state (snd (next_u64 r)) = rng_state r + 0x9E3779B97F4A7C15"
  by (simp add: next_u64_def Let_def)

lemma next_range_state: "next_range lo hi r = Some (x, r') \<Longrightarrow> r' = snd (next_u64 r)"
  by (cases "next_u64 r") (auto simp: next_range_def Let_def split: if_splits)

lemma next_range_total: "lo \<le> hi \<Longrightarrow> \<exists>x r'. next_range lo hi r = Some (x, r')"
  by (cases "next_u64 r") (simp add: next_range_def Let_def)

lemma next_range_in_bounds:
  assumes "next_range lo hi r = Some (x, r')"
  shows "lo \<le> x \<and> x \<le> hi"
proof -
  from assms have le: "lo \<le> hi" by (auto simp: next_range_def split: if_splits)
  show ?thesis
  proof (cases "hi - lo + 1 = 0")
    case True
    then have "hi - lo = -1" by (simp add: eq_neg_iff_add_eq_0)
    then have "unat (hi - lo) = 2 ^ 64 - 1" by (simp only:) (simp add: unsigned_minus_1_eq_mask mask_eq_exp_minus_1)
    then have "unat hi - unat lo = 2 ^ 64 - 1" using le by (simp add: unat_sub)
    moreover have "unat hi < 2 ^ 64" by (rule unat_u64)
    ultimately have "unat lo = 0" "unat hi = 2 ^ 64 - 1" by simp_all
    moreover have "unat x < 2 ^ 64" by (rule unat_u64)
    ultimately show ?thesis by (simp add: word_le_nat_alt)
  next
    case False
    define span where "span = hi - lo + 1"
    obtain y where x: "x = lo + y mod span"
      using assms le False
      by (auto simp: next_range_def Let_def span_def split: prod.splits)
    have span: "unat span = unat hi - unat lo + 1"
      using False le by (simp add: span_def unatSuc add.commute unat_sub)
    have "unat (y mod span) < unat span"
      using span by (simp add: unat_mod)
    then have small: "unat (y mod span) \<le> unat hi - unat lo" using span by simp
    have hi: "unat hi < 2 ^ 64" by (rule unat_u64)
    from small le hi have "unat lo + unat (y mod span) < 2 ^ 64"
      by (simp add: word_le_nat_alt)
    then have "unat x = unat lo + unat (y mod span)"
      by (simp add: x unat_word_ariths)
    with small le show ?thesis by (simp add: word_le_nat_alt)
  qed
qed

end
