(* ===== verification/Raft_Types.thy ===== *)
theory Raft_Types
  imports Prelude
begin

section \<open>Data of the Raft core: log entries, snapshots, RPCs\<close>

text \<open>
  The types of \<^verbatim>\<open>src/raft/types.rs\<close> and \<^verbatim>\<open>src/raft/rpc.rs\<close>. The JSON values of
  \<^verbatim>\<open>serde_json\<close> are opaque to the program (it stores, copies and compares them), so they are the type
  parameter \<open>'v\<close>. A \<^verbatim>\<open>BTreeMap\<close>, which is iterated in key order and counted, is a finite map
  \<open>fmap\<close>; \<open>bt_keys\<close> is its ordered key iteration.
\<close>

record session =
  client :: u64
  seq :: u64

record member_addr =
  raft :: string
  client_url :: string

type_synonym membership = "(node_id, member_addr) fmap"

datatype 'v command =
  Put string 'v "session option"
| Delete string "session option"
| Noop
| ConfigChange membership

record 'v log_entry =
  entry_term :: term_no
  index :: log_index
  command :: "'v command"

record 'v snapshot =
  last_included_index :: log_index
  last_included_term :: term_no
  membership :: "membership option"
  state :: 'v

record hard_state =
  hs_current_term :: term_no
  voted_for :: "node_id option"

definition default_hard_state :: hard_state where
  "default_hard_state = \<lparr>hs_current_term = 0, voted_for = None\<rparr>"

subsection \<open>The RPCs\<close>

record request_vote_args =
  rv_term :: term_no
  candidate_id :: node_id
  last_log_index :: log_index
  last_log_term :: term_no

record request_vote_reply =
  rvr_term :: term_no
  vote_granted :: bool

record 'v append_entries_args =
  ae_term :: term_no
  ae_leader_id :: node_id
  prev_log_index :: log_index
  prev_log_term :: term_no
  entries :: "'v log_entry list"
  leader_commit :: log_index

record append_entries_reply =
  aer_term :: term_no
  success :: bool

record 'v install_snapshot_args =
  is_term :: term_no
  is_leader_id :: node_id
  is_snapshot :: "'v snapshot"

record install_snapshot_reply =
  isr_term :: term_no

datatype 'v rpc_request =
  RequestVote request_vote_args
| AppendEntries "'v append_entries_args"
| PreVote request_vote_args
| InstallSnapshot "'v install_snapshot_args"

datatype rpc_response =
  RequestVoteR request_vote_reply
| AppendEntriesR append_entries_reply
| PreVoteR request_vote_reply
| InstallSnapshotR install_snapshot_reply

text \<open>Errors of the transport (\<^verbatim>\<open>src/raft/transport/mod.rs\<close>).\<close>

datatype transport_error = Unreachable node_id | Timeout

subsection \<open>Ordered maps\<close>

text \<open>Key iteration of a \<^verbatim>\<open>BTreeMap\<close>: ascending, each key once.\<close>

definition bt_keys :: "('k::linorder, 'a) fmap \<Rightarrow> 'k list" where
  "bt_keys m = sorted_list_of_fset (fmdom m)"

definition bt_len :: "('k, 'a) fmap \<Rightarrow> nat" where
  "bt_len m = fcard (fmdom m)"

definition bt_contains :: "('k, 'a) fmap \<Rightarrow> 'k \<Rightarrow> bool" where
  "bt_contains m k = (fmlookup m k \<noteq> None)"

text \<open>Consecutive entries: the first has index \<open>i\<close>, each next one the index after.\<close>

fun contiguous_from :: "log_index \<Rightarrow> 'v log_entry list \<Rightarrow> bool" where
  "contiguous_from i [] = True"
| "contiguous_from i (e # es) = (index e = i \<and> contiguous_from (i + 1) es)"

lemma set_bt_keys [simp]: "set (bt_keys m) = fset (fmdom m)"
  by (simp add: bt_keys_def sorted_list_of_fset.rep_eq)

lemma distinct_bt_keys [simp]: "distinct (bt_keys m)"
  by (simp add: bt_keys_def sorted_list_of_fset.rep_eq)

lemma sorted_bt_keys [simp]: "sorted (bt_keys m)"
  by (simp add: bt_keys_def sorted_list_of_fset.rep_eq)

lemma length_bt_keys [simp]: "length (bt_keys m) = bt_len m"
  by (simp add: bt_keys_def bt_len_def sorted_list_of_fset.rep_eq fcard.rep_eq)

lemma bt_len_card: "bt_len m = card (fset (fmdom m))"
  by (simp add: bt_len_def fcard.rep_eq)

lemma bt_contains_iff [simp]: "bt_contains m k \<longleftrightarrow> k \<in> fset (fmdom m)"
  by (auto simp: bt_contains_def fmlookup_dom_iff)

lemma contiguous_from_append:
  "contiguous_from i (xs @ ys) \<longleftrightarrow> contiguous_from i xs \<and> contiguous_from (i + length xs) ys"
  by (induction xs arbitrary: i) auto

lemma contiguous_from_iff:
  "contiguous_from i xs \<longleftrightarrow> (\<forall>k < length xs. index (xs ! k) = i + k)"
  by (induction xs arbitrary: i) (simp_all add: All_less_Suc2)

lemma contiguous_from_take: "contiguous_from i xs \<Longrightarrow> contiguous_from i (take n xs)"
  by (simp add: contiguous_from_iff)

lemma contiguous_from_drop: "contiguous_from i xs \<Longrightarrow> contiguous_from (i + n) (drop n xs)"
  by (auto simp: contiguous_from_iff algebra_simps)

lemma contiguous_from_nth: "contiguous_from i xs \<Longrightarrow> k < length xs \<Longrightarrow> index (xs ! k) = i + k"
  by (simp add: contiguous_from_iff)

end
