(* ===== verification/Storage.thy ===== *)
theory Storage
  imports Raft_Types
begin

section \<open>Storage: hard state, retained log and snapshot\<close>

text \<open>
  The in-memory state of \<^verbatim>\<open>Storage\<close> (\<^verbatim>\<open>src/raft/storage.rs\<close>) and its methods, as the Raft core
  sees them. The files behind it, their recovery and the crash windows are the subject of
  \<^verbatim>\<open>Storage_Disk\<close>. An I/O error is not a branch here: every caller answers it with a panic, which
  leaves the disk in one of the crash states treated there.

  The interface the Raft core relies on is the locale \<open>log_store\<close>: which terms and entries a
  store answers after each mutation. \<open>Storage\<close> is its interpretation.
\<close>

text \<open>\<^verbatim>\<open>StorageError\<close>; the formatted messages are kept as the values they interpolate.\<close>

datatype corruption =
  TruncateBelowBoundary log_index log_index
| CompactOutside log_index log_index log_index
| InstallBelowBoundary log_index log_index
| BadHardState
| BadSnapshot
| IndexGap log_index log_index
| BadLine nat
| LogStart log_index log_index

datatype storage_error = Io | Corrupt corruption | NonContiguous log_index log_index

record 'v storage =
  hard_state :: hard_state
  snapshot :: "'v snapshot option"
  log :: "'v log_entry list"

definition snapshot_index :: "'v storage \<Rightarrow> log_index" where
  "snapshot_index st = (case snapshot st of None \<Rightarrow> 0 | Some s \<Rightarrow> last_included_index s)"

definition snapshot_term :: "'v storage \<Rightarrow> term_no" where
  "snapshot_term st = (case snapshot st of None \<Rightarrow> 0 | Some s \<Rightarrow> last_included_term s)"

definition pos :: "'v storage \<Rightarrow> log_index \<Rightarrow> nat option" where
  "pos st i = (if i < snapshot_index st + 1 then None else Some (i - (snapshot_index st + 1)))"

definition last_index :: "'v storage \<Rightarrow> log_index" where
  "last_index st = snapshot_index st + length (log st)"

definition last_term :: "'v storage \<Rightarrow> term_no" where
  "last_term st = (if log st = [] then snapshot_term st else entry_term (last (log st)))"

definition entry :: "'v storage \<Rightarrow> log_index \<Rightarrow> 'v log_entry option" where
  "entry st i = Option.bind (pos st i) (list_get (log st))"

definition term_at :: "'v storage \<Rightarrow> log_index \<Rightarrow> term_no option" where
  "term_at st i =
     (if i = snapshot_index st then Some (snapshot_term st)
      else map_option entry_term (entry st i))"

definition entries_from :: "'v storage \<Rightarrow> log_index \<Rightarrow> 'v log_entry list" where
  "entries_from st from = drop (case pos st from of None \<Rightarrow> 0 | Some p \<Rightarrow> p) (log st)"

subsection \<open>Mutations\<close>

definition save_hard_state :: "'v storage \<Rightarrow> hard_state \<Rightarrow> storage_error + 'v storage" where
  "save_hard_state st hs = Inr (st\<lparr>hard_state := hs\<rparr>)"

text \<open>The validation loop of \<^verbatim>\<open>append\<close>: the first entry that is not where it is expected.\<close>

fun first_gap :: "log_index \<Rightarrow> 'v log_entry list \<Rightarrow> (log_index \<times> log_index) option" where
  "first_gap expected [] = None"
| "first_gap expected (e # es) =
     (if index e \<noteq> expected then Some (expected, index e) else first_gap (expected + 1) es)"

definition append :: "'v storage \<Rightarrow> 'v log_entry list \<Rightarrow> storage_error + 'v storage" where
  "append st es =
     (if es = [] then Inr st
      else case first_gap (last_index st + 1) es of
        Some (expected, got) \<Rightarrow> Inl (NonContiguous expected got)
      | None \<Rightarrow> Inr (st\<lparr>log := log st @ es\<rparr>))"

definition rewrite_log :: "'v storage \<Rightarrow> 'v log_entry list \<Rightarrow> storage_error + 'v storage" where
  "rewrite_log st es = Inr (st\<lparr>log := es\<rparr>)"

definition write_snapshot :: "'v storage \<Rightarrow> 'v snapshot \<Rightarrow> storage_error + 'v storage" where
  "write_snapshot st s = Inr (st\<lparr>snapshot := Some s\<rparr>)"

definition truncate_from :: "'v storage \<Rightarrow> log_index \<Rightarrow> storage_error + 'v storage" where
  "truncate_from st from =
     (case pos st from of
        None \<Rightarrow> Inl (Corrupt (TruncateBelowBoundary from (snapshot_index st)))
      | Some keep \<Rightarrow>
          if from > last_index st then Inr st else rewrite_log st (take keep (log st)))"

definition compact_to ::
    "'v storage \<Rightarrow> log_index \<Rightarrow> 'v \<Rightarrow> membership option \<Rightarrow> storage_error + 'v storage" where
  "compact_to st b v m =
     (case map_option entry_term (entry st b) of
        None \<Rightarrow> Inl (Corrupt (CompactOutside b (snapshot_index st) (last_index st)))
      | Some t \<Rightarrow>
          let s = \<lparr>last_included_index = b, last_included_term = t, membership = m, state = v\<rparr>;
              retained = entries_from st (b + 1)
          in bind_r (write_snapshot st s) (\<lambda>st. rewrite_log st retained))"

text \<open>What \<^verbatim>\<open>install_snapshot\<close> keeps of the log.\<close>

definition retained_suffix :: "'v storage \<Rightarrow> 'v snapshot \<Rightarrow> 'v log_entry list" where
  "retained_suffix st s =
     (if term_at st (last_included_index s) = Some (last_included_term s)
      then entries_from st (last_included_index s + 1) else [])"

definition install_snapshot :: "'v storage \<Rightarrow> 'v snapshot \<Rightarrow> storage_error + 'v storage" where
  "install_snapshot st s =
     (if last_included_index s \<le> snapshot_index st
      then Inl (Corrupt (InstallBelowBoundary (last_included_index s) (snapshot_index st)))
      else
        let retained = retained_suffix st s
        in bind_r (write_snapshot st s) (\<lambda>st. rewrite_log st retained))"

text \<open>The state an installation leaves when it stops after the snapshot, before the log is rewritten: the entries above
  the new boundary are those of the old log.\<close>

definition unrewritten :: "'v storage \<Rightarrow> 'v snapshot \<Rightarrow> 'v storage" where
  "unrewritten st s =
     st\<lparr>snapshot := Some s, log := drop (last_included_index s - snapshot_index st) (log st)\<rparr>"

text \<open>The storage of a fresh data directory.\<close>

definition empty_storage :: "'v storage" where
  "empty_storage = \<lparr>hard_state = default_hard_state, snapshot = None, log = []\<rparr>"

text \<open>
  The well-formedness that every mutation keeps: the retained log continues the snapshot
  boundary without a gap.
\<close>

definition storage_ok :: "'v storage \<Rightarrow> bool" where
  "storage_ok st = contiguous_from (snapshot_index st + 1) (log st)"

subsection \<open>Lookups\<close>

lemma entry_eq:
  "entry st i =
     (if snapshot_index st < i then list_get (log st) (i - snapshot_index st - 1) else None)"
  by (simp add: entry_def pos_def)

lemma entry_Some_iff:
  "entry st i = Some e \<longleftrightarrow>
     snapshot_index st < i \<and> i \<le> last_index st \<and> log st ! (i - snapshot_index st - 1) = e"
  by (auto simp: entry_eq list_get_Some_iff last_index_def)

lemma entry_None_iff: "entry st i = None \<longleftrightarrow> i \<le> snapshot_index st \<or> last_index st < i"
  by (auto simp: entry_eq last_index_def)

lemma term_at_None_iff: "term_at st i = None \<longleftrightarrow> i < snapshot_index st \<or> last_index st < i"
  by (auto simp: term_at_def entry_None_iff last_index_def)

lemma term_at_above: "snapshot_index st < i \<Longrightarrow> term_at st i = map_option entry_term (entry st i)"
  by (simp add: term_at_def)

lemma term_at_boundary [simp]: "term_at st (snapshot_index st) = Some (snapshot_term st)"
  by (simp add: term_at_def)

lemma snapshot_index_le_last [simp]: "snapshot_index st \<le> last_index st"
  by (simp add: last_index_def)

lemma last_term_eq: "term_at st (last_index st) = Some (last_term st)"
  by (cases "log st" rule: rev_cases)
    (simp_all add: term_at_def last_term_def last_index_def entry_eq list_get_def)

lemma entry_index:
  assumes "storage_ok st" and "entry st i = Some e"
  shows "index e = i"
proof -
  from assms(2) have b: "snapshot_index st < i" "i \<le> last_index st"
    and e: "log st ! (i - snapshot_index st - 1) = e"
    by (auto simp: entry_Some_iff)
  then have "i - snapshot_index st - 1 < length (log st)"
    by (simp add: last_index_def)
  with assms(1) have "index (log st ! (i - snapshot_index st - 1)) = snapshot_index st + 1 + (i - snapshot_index st - 1)"
    unfolding storage_ok_def by (rule contiguous_from_nth)
  with b e show ?thesis by simp
qed

lemma entry_in_log: "entry st i = Some e \<Longrightarrow> e \<in> set (log st)"
  by (auto simp: entry_Some_iff last_index_def)

lemma entries_from_eq: "entries_from st i = drop (i - snapshot_index st - 1) (log st)"
  by (simp add: entries_from_def pos_def)

lemma length_entries_from:
  "snapshot_index st < i \<Longrightarrow> length (entries_from st i) = last_index st + 1 - i"
  by (auto simp: entries_from_eq last_index_def)

lemma entries_from_contiguous:
  assumes "storage_ok st" and "snapshot_index st < i"
  shows "contiguous_from i (entries_from st i)"
  using contiguous_from_drop [OF assms(1) [unfolded storage_ok_def], of "i - snapshot_index st - 1"]
    assms(2) by (simp add: entries_from_eq)

lemma entries_from_nth:
  "snapshot_index st < i \<Longrightarrow> k < length (entries_from st i) \<Longrightarrow>
     entry st (i + k) = Some (entries_from st i ! k)"
  by (auto simp: entries_from_eq entry_Some_iff last_index_def)

subsection \<open>Each mutation on every branch\<close>

lemma first_gap_None_iff: "first_gap i es = None \<longleftrightarrow> contiguous_from i es"
  by (induction es arbitrary: i) auto

lemma append_Inr_iff:
  "append st es = Inr st' \<longleftrightarrow> contiguous_from (last_index st + 1) es \<and> st' = st\<lparr>log := log st @ es\<rparr>"
  by (cases "first_gap (last_index st + 1) es")
    (auto simp: append_def simp flip: first_gap_None_iff)

lemma append_ok:
  "contiguous_from (last_index st + 1) es \<Longrightarrow> append st es = Inr (st\<lparr>log := log st @ es\<rparr>)"
  by (simp add: append_Inr_iff)

lemma truncate_from_Inr_iff:
  "truncate_from st i = Inr st' \<longleftrightarrow>
     snapshot_index st < i \<and> st' = st\<lparr>log := take (i - snapshot_index st - 1) (log st)\<rparr>"
  by (auto simp: truncate_from_def pos_def rewrite_log_def last_index_def)

lemma truncate_from_ok:
  "snapshot_index st < i \<Longrightarrow>
     truncate_from st i = Inr (st\<lparr>log := take (i - snapshot_index st - 1) (log st)\<rparr>)"
  by (simp add: truncate_from_Inr_iff)

lemma compact_to_ok:
  assumes "entry st b = Some e"
  shows "compact_to st b v m = Inr (st\<lparr>snapshot := Some \<lparr>last_included_index = b,
    last_included_term = entry_term e, membership = m, state = v\<rparr>,
    log := drop (b - snapshot_index st) (log st)\<rparr>)"
  using assms by (simp add: compact_to_def write_snapshot_def rewrite_log_def entries_from_eq)

lemma compact_to_Inr_iff:
  "compact_to st b v m = Inr st' \<longleftrightarrow> (\<exists>e. entry st b = Some e \<and>
     st' = st\<lparr>snapshot := Some \<lparr>last_included_index = b, last_included_term = entry_term e,
       membership = m, state = v\<rparr>, log := drop (b - snapshot_index st) (log st)\<rparr>)"
proof (cases "entry st b")
  case None
  then show ?thesis by (simp add: compact_to_def)
next
  case (Some e)
  then show ?thesis by (auto simp: compact_to_ok)
qed

lemma install_snapshot_Inr_iff:
  "install_snapshot st s = Inr st' \<longleftrightarrow>
     snapshot_index st < last_included_index s \<and>
     st' = st\<lparr>snapshot := Some s, log := retained_suffix st s\<rparr>"
  by (auto simp: install_snapshot_def write_snapshot_def rewrite_log_def)

lemma snapshot_index_simps [simp]:
  "snapshot_index (st\<lparr>log := l\<rparr>) = snapshot_index st"
  "snapshot_index (st\<lparr>hard_state := h\<rparr>) = snapshot_index st"
  "snapshot_index (st\<lparr>snapshot := Some s\<rparr>) = last_included_index s"
  "snapshot_index (st\<lparr>snapshot := Some s, log := l\<rparr>) = last_included_index s"
  by (simp_all add: snapshot_index_def)

lemma snapshot_term_simps [simp]:
  "snapshot_term (st\<lparr>log := l\<rparr>) = snapshot_term st"
  "snapshot_term (st\<lparr>hard_state := h\<rparr>) = snapshot_term st"
  "snapshot_term (st\<lparr>snapshot := Some s\<rparr>) = last_included_term s"
  "snapshot_term (st\<lparr>snapshot := Some s, log := l\<rparr>) = last_included_term s"
  by (simp_all add: snapshot_term_def)

lemma lookup_hard_state [simp]:
  "last_index (st\<lparr>hard_state := h\<rparr>) = last_index st"
  "last_term (st\<lparr>hard_state := h\<rparr>) = last_term st"
  "entry (st\<lparr>hard_state := h\<rparr>) = entry st"
  "term_at (st\<lparr>hard_state := h\<rparr>) = term_at st"
  "entries_from (st\<lparr>hard_state := h\<rparr>) = entries_from st"
  "storage_ok (st\<lparr>hard_state := h\<rparr>) = storage_ok st"
  by (auto simp: fun_eq_iff last_index_def last_term_def entry_eq term_at_def entries_from_eq
      storage_ok_def)

text \<open>Where the mutations leave every index of the log.\<close>

lemma lookup_append:
  assumes "storage_ok st"
  shows "entry (st\<lparr>log := log st @ es\<rparr>) i =
    (if i \<le> last_index st then entry st i else list_get es (i - last_index st - 1))"
  by (auto simp: entry_eq last_index_def list_get_append)

lemma lookup_truncate:
  assumes "snapshot_index st < j"
  shows "entry (st\<lparr>log := take (j - snapshot_index st - 1) (log st)\<rparr>) i =
    (if i < j then entry st i else None)"
  using assms by (auto simp: entry_eq list_get_take)

lemma lookup_compact:
  assumes "snapshot_index st \<le> b" and "last_included_index s = b"
  shows "entry (st\<lparr>snapshot := Some s, log := drop (b - snapshot_index st) (log st)\<rparr>) i =
    (if b < i then entry st i else None)"
  using assms by (auto simp: entry_eq list_get_drop)

lemma storage_ok_append:
  "storage_ok st \<Longrightarrow> contiguous_from (last_index st + 1) es \<Longrightarrow> storage_ok (st\<lparr>log := log st @ es\<rparr>)"
  by (simp add: storage_ok_def contiguous_from_append last_index_def add.commute add.left_commute)

lemma storage_ok_take: "storage_ok st \<Longrightarrow> storage_ok (st\<lparr>log := take n (log st)\<rparr>)"
  by (simp add: storage_ok_def contiguous_from_take)

lemma storage_ok_snapshot:
  assumes "storage_ok st" and "snapshot_index st \<le> last_included_index s"
  shows "storage_ok (st\<lparr>snapshot := Some s,
    log := drop (last_included_index s - snapshot_index st) (log st)\<rparr>)"
  using contiguous_from_drop [OF assms(1) [unfolded storage_ok_def],
      of "last_included_index s - snapshot_index st"] assms(2)
  by (simp add: storage_ok_def)

lemma storage_ok_empty [simp]: "storage_ok empty_storage"
  by (simp add: storage_ok_def empty_storage_def)

lemma storage_ok_mutations:
  assumes "storage_ok st"
  shows "wp UNIV (save_hard_state st hs) storage_ok"
    and "wp UNIV (append st es) storage_ok"
    and "wp UNIV (truncate_from st i) storage_ok"
    and "wp UNIV (compact_to st b v m) storage_ok"
    and "wp UNIV (install_snapshot st s) storage_ok"
proof -
  show "wp UNIV (save_hard_state st hs) storage_ok"
    using assms by (simp add: save_hard_state_def wp_rules)
  show "wp UNIV (append st es) storage_ok"
    using assms by (auto simp: wp_UNIV_iff append_Inr_iff intro: storage_ok_append)
  show "wp UNIV (truncate_from st i) storage_ok"
    using assms by (auto simp: wp_UNIV_iff truncate_from_Inr_iff intro: storage_ok_take)
  show "wp UNIV (compact_to st b v m) storage_ok"
    using storage_ok_snapshot [OF assms, of "\<lparr>last_included_index = b, last_included_term = t,
      membership = m, state = v\<rparr>" for t]
    by (auto simp: wp_UNIV_iff compact_to_Inr_iff entry_Some_iff)
  show "wp UNIV (install_snapshot st s) storage_ok"
    using storage_ok_snapshot [OF assms, of s]
    by (auto simp: wp_UNIV_iff install_snapshot_Inr_iff retained_suffix_def entries_from_eq
        storage_ok_def)
qed

subsection \<open>The interface the Raft core relies on\<close>

text \<open>
  \<open>base\<close> is the snapshot boundary, \<open>top\<close> the last index, \<open>tm\<close> and \<open>ent\<close> answer the term and the entry at
  an index, \<open>app\<close> and \<open>cut\<close> are the two mutations log replication uses.
\<close>

locale log_store =
  fixes ok :: "'s \<Rightarrow> bool"
    and base :: "'s \<Rightarrow> log_index"
    and top :: "'s \<Rightarrow> log_index"
    and tm :: "'s \<Rightarrow> log_index \<Rightarrow> term_no option"
    and ent :: "'s \<Rightarrow> log_index \<Rightarrow> 'v log_entry option"
    and app :: "'s \<Rightarrow> 'v log_entry list \<Rightarrow> storage_error + 's"
    and cut :: "'s \<Rightarrow> log_index \<Rightarrow> storage_error + 's"
  assumes base_le_top: "ok s \<Longrightarrow> base s \<le> top s"
    and tm_None_iff: "ok s \<Longrightarrow> tm s i = None \<longleftrightarrow> i < base s \<or> top s < i"
    and tm_ent: "ok s \<Longrightarrow> base s < i \<Longrightarrow> tm s i = map_option entry_term (ent s i)"
    and app_ok: "ok s \<Longrightarrow> contiguous_from (top s + 1) es \<Longrightarrow>
      \<exists>s'. app s es = Inr s' \<and> ok s' \<and> base s' = base s \<and> top s' = top s + length es \<and>
        (\<forall>i \<le> top s. ent s' i = ent s i \<and> tm s' i = tm s i) \<and>
        (\<forall>k < length es. ent s' (top s + 1 + k) = Some (es ! k))"
    and cut_ok: "ok s \<Longrightarrow> base s < i \<Longrightarrow> i \<le> top s + 1 \<Longrightarrow>
      \<exists>s'. cut s i = Inr s' \<and> ok s' \<and> base s' = base s \<and> top s' = i - 1 \<and>
        (\<forall>j < i. ent s' j = ent s j \<and> tm s' j = tm s j)"

lemma term_at_append:
  "storage_ok st \<Longrightarrow> i \<le> last_index st \<Longrightarrow> term_at (st\<lparr>log := log st @ es\<rparr>) i = term_at st i"
  by (simp add: term_at_def lookup_append)

lemma term_at_truncate:
  "snapshot_index st < j \<Longrightarrow> i < j \<Longrightarrow>
     term_at (st\<lparr>log := take (j - snapshot_index st - 1) (log st)\<rparr>) i = term_at st i"
  using lookup_truncate [of st j i] by (simp add: term_at_def)

interpretation st: log_store storage_ok snapshot_index last_index term_at entry append truncate_from
proof unfold_locales
  fix st :: "'v storage" and i :: log_index and es :: "'v log_entry list"
  assume ok: "storage_ok st"
  show "snapshot_index st \<le> last_index st" by simp
  show "(term_at st i = None) = (i < snapshot_index st \<or> last_index st < i)"
    by (rule term_at_None_iff)
  show "term_at st i = map_option entry_term (entry st i)" if "snapshot_index st < i"
    using that by (rule term_at_above)
  show "\<exists>st'. append st es = Inr st' \<and> storage_ok st' \<and> snapshot_index st' = snapshot_index st \<and>
      last_index st' = last_index st + length es \<and>
      (\<forall>i \<le> last_index st. entry st' i = entry st i \<and> term_at st' i = term_at st i) \<and>
      (\<forall>k < length es. entry st' (last_index st + 1 + k) = Some (es ! k))"
    if "contiguous_from (last_index st + 1) es"
    using that ok
    by (simp add: append_ok storage_ok_append lookup_append term_at_append list_get_Some_iff)
      (simp add: last_index_def)
  show "\<exists>st'. truncate_from st i = Inr st' \<and> storage_ok st' \<and>
      snapshot_index st' = snapshot_index st \<and> last_index st' = i - 1 \<and>
      (\<forall>j < i. entry st' j = entry st j \<and> term_at st' j = term_at st j)"
    if "snapshot_index st < i" and "i \<le> last_index st + 1"
    using that ok lookup_truncate [OF that(1)] term_at_truncate [OF that(1)]
    by (simp add: truncate_from_ok storage_ok_take) (auto simp: last_index_def)
qed

end
