(* ===== verification/Log_Merge.thy ===== *)
theory Log_Merge
  imports Storage
begin

section \<open>The entry walk of AppendEntries\<close>

text \<open>
  The loop of \<^verbatim>\<open>handle_append_entries\<close> over the received entries: skip what is compacted or
  already held, stop at the first entry that conflicts or is missing. Its lemmas are proved once
  for any \<open>log_store\<close>.
\<close>

datatype walk = AllHeld | Conflict log_index | Missing log_index

fun walk_entries :: "log_index \<Rightarrow> (log_index \<Rightarrow> term_no option) \<Rightarrow> 'v log_entry list \<Rightarrow> walk" where
  "walk_entries b tm [] = AllHeld"
| "walk_entries b tm (e # es) =
     (if index e \<le> b then walk_entries b tm es
      else case tm (index e) of
        Some existing \<Rightarrow>
          if existing = entry_term e then walk_entries b tm es else Conflict (index e)
      | None \<Rightarrow> Missing (index e))"

text \<open>An entry is held when it is compacted or the store has its term at its index.\<close>

definition held :: "log_index \<Rightarrow> (log_index \<Rightarrow> term_no option) \<Rightarrow> 'v log_entry \<Rightarrow> bool" where
  "held b tm e \<longleftrightarrow> index e \<le> b \<or> tm (index e) = Some (entry_term e)"

lemma walk_AllHeld: "walk_entries b tm es = AllHeld \<longleftrightarrow> (\<forall>e \<in> set es. held b tm e)"
  by (induction es) (auto simp: held_def split: option.splits)

lemma walk_stops:
  "walk_entries b tm es = Missing i \<Longrightarrow>
     \<exists>xs e ys. es = xs @ e # ys \<and> index e = i \<and> (\<forall>x \<in> set xs. held b tm x) \<and> b < i \<and> tm i = None"
  "walk_entries b tm es = Conflict i \<Longrightarrow>
     \<exists>xs e ys t. es = xs @ e # ys \<and> index e = i \<and> (\<forall>x \<in> set xs. held b tm x) \<and> b < i \<and>
       tm i = Some t \<and> t \<noteq> entry_term e"
proof (induction es)
  case Nil
  { case 1 then show ?case by simp next case 2 then show ?case by simp }
next
  case (Cons a es)
  { case 1
    show ?case
    proof (cases "held b tm a")
      case True
      with 1 have "walk_entries b tm es = Missing i"
        by (auto simp: held_def split: option.splits if_splits)
      from Cons.IH(1) [OF this] True show ?thesis by (metis append_Cons set_ConsD)
    next
      case False
      with 1 show ?thesis
        by (intro exI [of _ "[]"]) (auto simp: held_def split: option.splits if_splits)
    qed
  next
    case 2
    show ?case
    proof (cases "held b tm a")
      case True
      with 2 have "walk_entries b tm es = Conflict i"
        by (auto simp: held_def split: option.splits if_splits)
      from Cons.IH(2) [OF this] True show ?thesis by (metis append_Cons set_ConsD)
    next
      case False
      with 2 show ?thesis
        by (intro exI [of _ "[]"]) (auto simp: held_def split: option.splits if_splits)
    qed }
qed

context log_store
begin

abbreviation "walk_in s \<equiv> walk_entries (base s) (tm s)"

abbreviation "held_in s \<equiv> held (base s) (tm s)"

lemma held_below_top: "ok s \<Longrightarrow> held_in s e \<Longrightarrow> index e \<le> top s"
  using base_le_top [of s] tm_None_iff [of s "index e"] by (auto simp: held_def)

lemma contiguous_held_top:
  assumes "ok s" and "contiguous_from (p + 1) xs" and "p \<le> top s" and "\<forall>x \<in> set xs. held_in s x"
  shows "p + length xs \<le> top s"
proof (cases xs rule: rev_cases)
  case Nil
  with assms(3) show ?thesis by simp
next
  case (snoc ys y)
  with assms(2) have "index y = p + length xs" by (simp add: contiguous_from_append)
  with snoc assms(1,4) held_below_top [of s y] show ?thesis by simp
qed

lemma all_held_top:
  assumes "ok s" and "contiguous_from (p + 1) es" and "p \<le> top s" and "walk_in s es = AllHeld"
  shows "p + length es \<le> top s"
  using assms by (intro contiguous_held_top) (auto simp: walk_AllHeld)

text \<open>The first missing entry is the one right after the end of the store.\<close>

lemma missing_at_top:
  assumes "ok s" and "contiguous_from (p + 1) es" and "p \<le> top s" and "walk_in s es = Missing i"
  shows "i = top s + 1" and "p < i" and "i - p - 1 < length es"
    and "contiguous_from i (drop (i - p - 1) es)"
    and "\<forall>x \<in> set (take (i - p - 1) es). held_in s x"
proof -
  from walk_stops(1) [OF assms(4)] obtain xs e ys where
    es: "es = xs @ e # ys" and e: "index e = i" and xs: "\<forall>x \<in> set xs. held_in s x"
    and i: "base s < i" "tm s i = None" by blast
  have "contiguous_from (p + 1) xs" using assms(2) es by (simp add: contiguous_from_append)
  from contiguous_held_top [OF assms(1) this assms(3) xs] have top: "p + length xs \<le> top s" .
  have idx: "i = p + 1 + length xs" using assms(2) es e by (simp add: contiguous_from_append)
  from i assms(1) have "top s < i" using tm_None_iff [of s i] by auto
  with top idx show "i = top s + 1" by simp
  from idx show "p < i" by simp
  from idx es show "i - p - 1 < length es" by simp
  from idx es assms(2) show "contiguous_from i (drop (i - p - 1) es)"
    by (simp add: contiguous_from_append)
  from idx es xs show "\<forall>x \<in> set (take (i - p - 1) es). held_in s x" by simp
qed

lemma conflict_inside:
  assumes "ok s" and "contiguous_from (p + 1) es" and "walk_in s es = Conflict i"
  shows "base s < i" and "i \<le> top s" and "p < i" and "i - p - 1 < length es"
    and "contiguous_from i (drop (i - p - 1) es)"
    and "\<forall>x \<in> set (take (i - p - 1) es). held_in s x"
    and "tm s i \<noteq> Some (entry_term (es ! (i - p - 1)))"
proof -
  from walk_stops(2) [OF assms(3)] obtain xs e ys t where
    es: "es = xs @ e # ys" and e: "index e = i" and xs: "\<forall>x \<in> set xs. held_in s x"
    and i: "base s < i" "tm s i = Some t" and t: "t \<noteq> entry_term e" by blast
  show "base s < i" by (rule i)
  from i assms(1) show "i \<le> top s" using tm_None_iff [of s i] by auto
  have idx: "i = p + 1 + length xs" using assms(2) es e by (simp add: contiguous_from_append)
  then show "p < i" by simp
  from idx es show "i - p - 1 < length es" by simp
  from idx es assms(2) show "contiguous_from i (drop (i - p - 1) es)"
    by (simp add: contiguous_from_append)
  from idx es xs show "\<forall>x \<in> set (take (i - p - 1) es). held_in s x" by simp
  from idx es i t show "tm s i \<noteq> Some (entry_term (es ! (i - p - 1)))" by simp
qed

text \<open>Appending the rest of the batch right after the held part makes the whole batch held.\<close>

lemma append_rest_held:
  assumes "ok s" and "contiguous_from (p + 1) es" and "i = top s + 1" and "p < i"
    and "i - p - 1 \<le> length es" and "\<forall>x \<in> set (take (i - p - 1) es). held_in s x"
    and "app s (drop (i - p - 1) es) = Inr s'"
  shows "ok s'" and "base s' = base s" and "top s' = p + length es"
    and "\<forall>x \<in> set es. held_in s' x"
    and "\<forall>j \<le> top s. ent s' j = ent s j \<and> tm s' j = tm s j"
    and "\<forall>k < length es. i \<le> p + 1 + k \<longrightarrow> ent s' (p + 1 + k) = Some (es ! k)"
proof -
  let ?d = "i - p - 1"
  have "contiguous_from (top s + 1) (drop ?d es)"
    using contiguous_from_drop [OF assms(2), of ?d] assms(3,4) by simp
  from app_ok [OF assms(1) this] assms(7) have s': "ok s'" "base s' = base s"
    "top s' = top s + length (drop ?d es)"
    "\<forall>j \<le> top s. ent s' j = ent s j \<and> tm s' j = tm s j"
    "\<forall>k < length (drop ?d es). ent s' (top s + 1 + k) = Some (drop ?d es ! k)" by auto
  show "ok s'" "base s' = base s" "\<forall>j \<le> top s. ent s' j = ent s j \<and> tm s' j = tm s j"
    by (fact s')+
  show "top s' = p + length es" using s'(3) assms(3,4,5) by simp
  show new: "\<forall>k < length es. i \<le> p + 1 + k \<longrightarrow> ent s' (p + 1 + k) = Some (es ! k)"
  proof (intro allI impI)
    fix k assume k: "k < length es" "i \<le> p + 1 + k"
    then have "k - ?d < length (drop ?d es)" and "top s + 1 + (k - ?d) = p + 1 + k"
      and "?d + (k - ?d) = k" using assms(3,4) by auto
    with s'(5) k show "ent s' (p + 1 + k) = Some (es ! k)"
      by (metis assms(5) nth_drop)
  qed
  show "\<forall>x \<in> set es. held_in s' x"
  proof
    fix x assume "x \<in> set es"
    then obtain k where k: "k < length es" "x = es ! k" by (auto simp: in_set_conv_nth)
    have idx: "index x = p + 1 + k" using contiguous_from_nth [OF assms(2) k(1)] k(2) by simp
    show "held_in s' x"
    proof (cases "i \<le> p + 1 + k")
      case True
      have "base s < i" using assms(1,3) base_le_top [of s] by simp
      with True k idx new s'(1,2) show ?thesis by (simp add: held_def tm_ent)
    next
      case False
      then have "k < ?d" by simp
      then have "x \<in> set (take ?d es)"
        using k by (auto simp: in_set_conv_nth intro!: exI [of _ k])
      with assms(6) have x: "held_in s x" by blast
      with held_below_top [OF assms(1) x] s'(2,4) show ?thesis by (auto simp: held_def)
    qed
  qed
qed

end

end
