(* ===== verification/Node.thy ===== *)
theory Node
  imports Rng Log_Merge
begin

section \<open>The Raft node\<close>

text \<open>
  \<^verbatim>\<open>src/raft/node.rs\<close>: the state of one node and every handler of its event loop, in the order in
  which they call each other. A handler is a state transformer; \<open>Inl\<close> is a panic, which stops the node
  (the source is fail-stop). What a handler sends, on the network or on a client's channel, and what it
  makes durable (\<open>Stored\<close>) is appended to \<open>effects\<close> in order, so that the effects say what a process that
  dies in the middle of a handler has sent and leaves on its disk. A handler runs at one instant \<open>now\<close>.

  The state machine is the trait object \<^verbatim>\<open>Arc<dyn StateMachine>\<close>: its data and its methods.
  The task handles, the log messages and the wire are not state of the node.
\<close>

subsection \<open>Configuration, roles, state\<close>

record raft_config =
  cfg_id :: node_id
  peers :: "node_id list"
  election_timeout_min :: duration
  election_timeout_max :: duration
  heartbeat_interval :: duration
  timeout_seed :: u64
  snapshot_threshold :: "nat option"
  snapshot_trailing :: nat
  bootstrap_addrs :: membership
  join :: bool
  test_disable_reconfig_gates :: bool

definition raft_config_new :: "node_id \<Rightarrow> node_id list \<Rightarrow> raft_config" where
  "raft_config_new i ps =
     \<lparr>cfg_id = i, peers = ps, election_timeout_min = 150000, election_timeout_max = 300000,
      heartbeat_interval = 50000, timeout_seed = of_nat i, snapshot_threshold = None,
      snapshot_trailing = 0, bootstrap_addrs = fmempty, join = False,
      test_disable_reconfig_gates = False\<rparr>"

datatype role_kind = FollowerKind | PreCandidateKind | CandidateKind | LeaderKind

record status =
  status_id :: node_id
  status_term :: term_no
  status_role :: role_kind
  status_leader_id :: "node_id option"
  status_commit_index :: log_index
  status_last_log_index :: log_index

text \<open>One constructor per static rejection message of \<^verbatim>\<open>validate_config_change\<close>.\<close>

datatype config_rejection =
  NoopNotCommitted | ChangeInFlight | EmptyConfiguration | NotSingleServerDelta
| MajorityUnreachable

datatype propose_error =
  NotLeader "node_id option" | InvalidConfigChange config_rejection | ProposeShutdown

text \<open>A one-shot channel is named by the number it was created with.\<close>

type_synonym chan = nat

record proposal =
  proposal_term :: term_no
  proposal_index :: log_index
  proposal_committed :: chan

record membership_view =
  view_members :: membership
  view_departing :: membership

text \<open>A \<^verbatim>\<open>watch\<close> channel: the current value and how often it was replaced.\<close>

record 'a watch =
  watch_value :: 'a
  watch_version :: nat

definition send_if_modified :: "'a watch \<Rightarrow> 'a \<Rightarrow> 'a watch" where
  "send_if_modified w x =
     (if watch_value w = x then w
      else \<lparr>watch_value = x, watch_version = watch_version w + 1\<rparr>)"

record pending_proposal =
  pp_term :: term_no
  pp_index :: log_index
  pp_committed :: chan

record pending_read =
  needed_seq :: nat
  read_index :: log_index
  granted :: chan

record leader_state =
  next_index :: "node_id \<rightharpoonup> log_index"
  match_index :: "node_id \<rightharpoonup> log_index"
  term_start_index :: log_index
  heartbeat_seq :: nat
  acked_seq :: "node_id \<rightharpoonup> nat"
  last_contact :: "node_id \<rightharpoonup> instant"
  departing :: "(node_id, log_index \<times> member_addr) fmap"
  pending_reads :: "pending_read list"

datatype role =
  Follower | PreCandidate "node_id set" | Candidate "node_id set" | Leader leader_state

text \<open>What an outbound RPC remembers for the reply that may come back.\<close>

datatype rpc_ctx =
  PreVoteCtx term_no
| VoteCtx term_no
| AppendCtx term_no log_index nat nat
| InstallCtx term_no log_index

datatype event =
  PreVoteReply term_no node_id "transport_error + rpc_response"
| VoteReply term_no node_id "transport_error + rpc_response"
| AppendReply term_no node_id log_index nat nat "transport_error + rpc_response"
| InstallSnapshotReply term_no node_id log_index "transport_error + rpc_response"

fun event_of :: "rpc_ctx \<Rightarrow> node_id \<Rightarrow> transport_error + rpc_response \<Rightarrow> event" where
  "event_of (PreVoteCtx t) from r = PreVoteReply t from r"
| "event_of (VoteCtx t) from r = VoteReply t from r"
| "event_of (AppendCtx t p k q) from r = AppendReply t from p k q r"
| "event_of (InstallCtx t i) from r = InstallSnapshotReply t from i r"

datatype 'v effect =
  SendRpc node_id "'v rpc_request" rpc_ctx
| ReplyPropose chan "propose_error + proposal"
| ReplyRead chan "propose_error + chan"
| Committed pending_proposal bool
| Granted chan
| Closed chan
| Stored "'v storage"

record ('v, 'sm) state_machine =
  sm_data :: 'sm
  sm_apply_fn :: "'sm \<Rightarrow> 'v log_entry \<Rightarrow> 'sm"
  sm_snapshot_fn :: "'sm \<Rightarrow> 'v"
  sm_restore_fn :: "'sm \<Rightarrow> 'v \<Rightarrow> 'sm option"

record ('v, 'sm) raft_node =
  config :: raft_config
  storage :: "'v storage"
  state_machine :: "('v, 'sm) state_machine"
  role :: role
  leader_id :: "node_id option"
  commit_index :: log_index
  last_applied :: log_index
  pending :: "pending_proposal list"
  staged_snapshot :: "(log_index \<times> 'v \<times> membership option) option"
  members :: membership
  members_index :: log_index
  membership_tx :: "membership_view watch"
  last_leader_contact :: "instant option"
  election_deadline :: instant
  next_heartbeat :: instant
  rng :: splitmix64
  status_tx :: "status watch"
  next_chan :: chan
  effects :: "'v effect list"

text \<open>Every place where the node can stop: an \<^verbatim>\<open>expect\<close>, an \<^verbatim>\<open>assert!\<close>, an \<^verbatim>\<open>unreachable!\<close>, an
  out-of-range slice or an unsigned subtraction below zero.\<close>

datatype panic =
  StorageFailed storage_error
| TruncateCommitted log_index
| CommittedEntryMissing log_index
| NextIndexOutOfBounds log_index
| SnapshotMissing
| MalformedSnapshot
| ElectionTimeoutTooLarge
| ElectionTimeoutOrder
| TermBackwards
| NotOnLeader
| SubtractionUnderflow
| SliceOutOfRange

subsection \<open>Helpers\<close>

definition current_term :: "('v, 'sm) raft_node \<Rightarrow> term_no" where
  "current_term n = hs_current_term (hard_state (storage n))"

definition is_leader :: "('v, 'sm) raft_node \<Rightarrow> bool" where
  "is_leader n = (case role n of Leader _ \<Rightarrow> True | _ \<Rightarrow> False)"

definition role_kind :: "('v, 'sm) raft_node \<Rightarrow> role_kind" where
  "role_kind n =
     (case role n of
        Follower \<Rightarrow> FollowerKind
      | PreCandidate _ \<Rightarrow> PreCandidateKind
      | Candidate _ \<Rightarrow> CandidateKind
      | Leader _ \<Rightarrow> LeaderKind)"

definition majority :: "('v, 'sm) raft_node \<Rightarrow> nat" where
  "majority n = bt_len (members n) div 2 + 1"

definition is_member :: "('v, 'sm) raft_node \<Rightarrow> bool" where
  "is_member n = bt_contains (members n) (cfg_id (config n))"

definition peer_ids :: "('v, 'sm) raft_node \<Rightarrow> node_id list" where
  "peer_ids n = filter (\<lambda>i. i \<noteq> cfg_id (config n)) (bt_keys (members n))"

definition replication_targets :: "('v, 'sm) raft_node \<Rightarrow> node_id list" where
  "replication_targets n =
     peer_ids n @ (case role n of Leader l \<Rightarrow> bt_keys (departing l) | _ \<Rightarrow> [])"

definition is_departing :: "('v, 'sm) raft_node \<Rightarrow> node_id \<Rightarrow> bool" where
  "is_departing n p = (case role n of Leader l \<Rightarrow> bt_contains (departing l) p | _ \<Rightarrow> False)"

definition count_member_votes :: "('v, 'sm) raft_node \<Rightarrow> node_id set \<Rightarrow> nat" where
  "count_member_votes n vs = card {v \<in> vs. bt_contains (members n) v}"

definition emit :: "'v effect list \<Rightarrow> ('v, 'sm) raft_node \<Rightarrow> ('v, 'sm) raft_node" where
  "emit fx n = n\<lparr>effects := effects n @ fx\<rparr>"

text \<open>\<^verbatim>\<open>.expect(..)\<close> on a storage mutation.\<close>

definition store :: "storage_error + 'v storage \<Rightarrow> ('v, 'sm) raft_node \<Rightarrow> panic + ('v, 'sm) raft_node" where
  "store m n = bind_r (map_err StorageFailed m) (\<lambda>st. Inr (emit [Stored st] (n\<lparr>storage := st\<rparr>)))"

text \<open>What a crash leaves. A mutation of the storage that was under way has happened or not; an append may
  have written a prefix of its entries; the installation of a snapshot may have written the snapshot and not yet the
  log. \<open>left_by fx gx d\<close>: a process that had done \<open>fx\<close> and was about to do \<open>gx\<close> leaves \<open>d\<close>; that the files give
  this and nothing else is shown in \<^verbatim>\<open>Storage_Crash\<close> and \<^verbatim>\<open>Boot\<close>. \<open>left_whole\<close> is the same without the snapshot over
  the old log.\<close>

fun last_stored :: "'v storage option \<Rightarrow> 'v effect list \<Rightarrow> 'v storage option" where
  "last_stored d [] = d"
| "last_stored d (Stored st # fx) = last_stored (Some st) fx"
| "last_stored d (_ # fx) = last_stored d fx"

definition cut_short :: "'v storage \<Rightarrow> 'v storage \<Rightarrow> 'v storage \<Rightarrow> bool" where
  "cut_short st st' d \<longleftrightarrow> hard_state st' = hard_state st \<and> snapshot st' = snapshot st \<and>
     (\<exists>es es'. log st' = log st @ es @ es' \<and> d = st\<lparr>log := log st @ es\<rparr>)"

definition half_installed :: "'v storage \<Rightarrow> 'v storage \<Rightarrow> 'v storage \<Rightarrow> bool" where
  "half_installed st st' d \<longleftrightarrow>
     (\<exists>s. snapshot st' = Some s \<and> snapshot_index st < last_included_index s \<and> d = unrewritten st s)"

definition left_whole :: "'v effect list \<Rightarrow> 'v effect list \<Rightarrow> 'v storage \<Rightarrow> bool" where
  "left_whole fx gx d \<longleftrightarrow>
     (case last_stored None fx of
        None \<Rightarrow> False
      | Some st \<Rightarrow> d = st \<or> (case gx of Stored st' # _ \<Rightarrow> d = st' \<or> cut_short st st' d | _ \<Rightarrow> False))"

definition left_by :: "'v effect list \<Rightarrow> 'v effect list \<Rightarrow> 'v storage \<Rightarrow> bool" where
  "left_by fx gx d \<longleftrightarrow>
     left_whole fx gx d \<or>
     (case (last_stored None fx, gx) of (Some st, Stored st' # _) \<Rightarrow> half_installed st st' d | _ \<Rightarrow> False)"

definition publish_membership :: "('v, 'sm) raft_node \<Rightarrow> ('v, 'sm) raft_node" where
  "publish_membership n =
     (let dep = (case role n of Leader l \<Rightarrow> fmmap snd (departing l) | _ \<Rightarrow> fmempty)
      in n\<lparr>membership_tx := send_if_modified (membership_tx n)
             \<lparr>view_members = members n, view_departing = dep\<rparr>\<rparr>)"

definition publish_status :: "('v, 'sm) raft_node \<Rightarrow> ('v, 'sm) raft_node" where
  "publish_status n =
     n\<lparr>status_tx := send_if_modified (status_tx n)
        \<lparr>status_id = cfg_id (config n), status_term = current_term n,
         status_role = role_kind n, status_leader_id = leader_id n,
         status_commit_index = commit_index n,
         status_last_log_index = last_index (storage n)\<rparr>\<rparr>"

definition reset_election_timer ::
    "instant \<Rightarrow> ('v, 'sm) raft_node \<Rightarrow> panic + ('v, 'sm) raft_node" where
  "reset_election_timer now n =
     (let mn = election_timeout_min (config n); mx = election_timeout_max (config n)
      in if mn \<ge> 2 ^ 64 \<or> mx \<ge> 2 ^ 64 then Inl ElectionTimeoutTooLarge
         else if \<not> mn \<le> mx then Inl ElectionTimeoutOrder
         else case next_range (of_nat mn) (of_nat mx) (rng n) of
             None \<Rightarrow> Inl ElectionTimeoutOrder
           | Some (x, r) \<Rightarrow> Inr (n\<lparr>rng := r, election_deadline := now + unat x\<rparr>))"

subsection \<open>Membership\<close>

text \<open>The first configuration of a list of entries, with its index.\<close>

fun find_config :: "'v log_entry list \<Rightarrow> (membership \<times> log_index) option" where
  "find_config [] = None"
| "find_config (e # es) =
     (case command e of ConfigChange m \<Rightarrow> Some (m, index e) | _ \<Rightarrow> find_config es)"

definition bootstrap_membership :: "raft_config \<Rightarrow> membership" where
  "bootstrap_membership c =
     fold (\<lambda>i m. fmupd i
             (case fmlookup (bootstrap_addrs c) i of
                Some a \<Rightarrow> a | None \<Rightarrow> \<lparr>raft = [], client_url = []\<rparr>) m)
       (peers c @ [cfg_id c]) fmempty"

definition derive_membership :: "'v storage \<Rightarrow> raft_config \<Rightarrow> membership \<times> log_index" where
  "derive_membership st c =
     (case find_config (rev (log st)) of
        Some mi \<Rightarrow> mi
      | None \<Rightarrow>
          (case Option.bind (snapshot st) membership of
             Some m \<Rightarrow> (m, snapshot_index st)
           | None \<Rightarrow> if join c then (fmempty, 0) else (bootstrap_membership c, 0)))"

definition membership_at :: "'v storage \<Rightarrow> log_index \<Rightarrow> membership option" where
  "membership_at st i =
     (case find_config (filter (\<lambda>e. \<not> index e > i) (rev (log st))) of
        Some (m, _) \<Rightarrow> Some m
      | None \<Rightarrow> Option.bind (snapshot st) membership)"

definition adopt_leader ::
    "node_id \<Rightarrow> instant \<Rightarrow> membership \<Rightarrow> membership \<Rightarrow> log_index \<Rightarrow> leader_state \<Rightarrow> leader_state" where
  "adopt_leader self now old new i l =
     l\<lparr>last_contact := (\<lambda>k. if k \<noteq> self \<and> bt_contains new k \<and> last_contact l k = None
                              then Some now else last_contact l k),
       departing := fmfilter (\<lambda>k. \<not> bt_contains new k)
         (fmadd (departing l)
            (fmmap (\<lambda>a. (i, a)) (fmfilter (\<lambda>k. k \<noteq> self \<and> \<not> bt_contains new k) old)))\<rparr>"

definition adopt_membership ::
    "instant \<Rightarrow> membership \<Rightarrow> log_index \<Rightarrow> ('v, 'sm) raft_node \<Rightarrow> ('v, 'sm) raft_node" where
  "adopt_membership now new i n =
     publish_membership
       (n\<lparr>role := (case role n of
                     Leader l \<Rightarrow> Leader (adopt_leader (cfg_id (config n)) now (members n) new i l)
                   | r \<Rightarrow> r),
          members := new, members_index := i\<rparr>)"

definition rescan_membership :: "instant \<Rightarrow> ('v, 'sm) raft_node \<Rightarrow> ('v, 'sm) raft_node" where
  "rescan_membership now n =
     (case derive_membership (storage n) (config n) of (m, i) \<Rightarrow> adopt_membership now m i n)"

subsection \<open>Stepping down\<close>

definition dropped_reads :: "role \<Rightarrow> 'v effect list" where
  "dropped_reads r =
     (case r of Leader l \<Rightarrow> map (\<lambda>p. Closed (granted p)) (pending_reads l) | _ \<Rightarrow> [])"

definition become_follower ::
    "instant \<Rightarrow> term_no \<Rightarrow> node_id option \<Rightarrow> ('v, 'sm) raft_node \<Rightarrow> panic + ('v, 'sm) raft_node" where
  "become_follower now t lid n =
     (let old = current_term n
      in if t < old then Inl TermBackwards
         else bind_r
           (if t > old then
              store (save_hard_state (storage n) \<lparr>hs_current_term = t, voted_for = None\<rparr>) n
            else Inr n)
           (\<lambda>n.
              let had_departing =
                    (case role n of Leader l \<Rightarrow> departing l \<noteq> fmempty | _ \<Rightarrow> False);
                  n = emit (dropped_reads (role n)) n;
                  n = n\<lparr>role := Follower, leader_id := lid\<rparr>;
                  n = (if had_departing then publish_membership n else n)
              in reset_election_timer now n))"

subsection \<open>Leader replication\<close>

definition send_install_snapshot ::
    "('v, 'sm) raft_node \<Rightarrow> node_id \<Rightarrow> panic + ('v, 'sm) raft_node" where
  "send_install_snapshot n peer =
     (case snapshot (storage n) of
        None \<Rightarrow> Inl SnapshotMissing
      | Some s \<Rightarrow>
          Inr (emit [SendRpc peer
             (InstallSnapshot \<lparr>is_term = current_term n, is_leader_id = cfg_id (config n),
                is_snapshot = s\<rparr>)
             (InstallCtx (current_term n) (last_included_index s))] n))"

definition send_append :: "node_id \<Rightarrow> ('v, 'sm) raft_node \<Rightarrow> panic + ('v, 'sm) raft_node" where
  "send_append peer n =
     (if \<not> bt_contains (members n) peer \<and> \<not> is_departing n peer then Inr n
      else case role n of
        Leader l \<Rightarrow>
          let nxt = (case next_index l peer of
                       Some i \<Rightarrow> i | None \<Rightarrow> last_index (storage n) + 1)
          in if nxt \<le> snapshot_index (storage n) then send_install_snapshot n peer
             else case term_at (storage n) (nxt - 1) of
                 None \<Rightarrow> Inl (NextIndexOutOfBounds nxt)
               | Some pt \<Rightarrow>
                   let es = entries_from (storage n) nxt
                   in Inr (emit [SendRpc peer
                        (AppendEntries \<lparr>ae_term = current_term n,
                           ae_leader_id = cfg_id (config n), prev_log_index = nxt - 1,
                           prev_log_term = pt, entries = es, leader_commit = commit_index n\<rparr>)
                        (AppendCtx (current_term n) (nxt - 1) (length es) (heartbeat_seq l))] n)
      | _ \<Rightarrow> Inr n)"

definition maybe_compact :: "('v, 'sm) raft_node \<Rightarrow> panic + ('v, 'sm) raft_node" where
  "maybe_compact n =
     (case snapshot_threshold (config n) of
        None \<Rightarrow> Inr n
      | Some threshold \<Rightarrow>
          let n = (case staged_snapshot n of
                     Some (i, _) \<Rightarrow>
                       if i \<le> snapshot_index (storage n) then n\<lparr>staged_snapshot := None\<rparr> else n
                   | None \<Rightarrow> n)
          in bind_r
            (if staged_snapshot n = None then
               if last_applied n < snapshot_index (storage n) then Inl SubtractionUnderflow
               else if last_applied n - snapshot_index (storage n) \<ge> max threshold 1
               then Inr (n\<lparr>staged_snapshot := Some (last_applied n,
                      sm_snapshot_fn (state_machine n) (sm_data (state_machine n)),
                      membership_at (storage n) (last_applied n))\<rparr>)
               else Inr n
             else Inr n)
            (\<lambda>n. case staged_snapshot n of
                   None \<Rightarrow> Inr n
                 | Some (i, v, m) \<Rightarrow>
                     if last_applied n < i then Inl SubtractionUnderflow
                     else if last_applied n - i \<ge> snapshot_trailing (config n)
                     then store (compact_to (storage n) i v m) (n\<lparr>staged_snapshot := None\<rparr>)
                     else Inr n))"

subsection \<open>Applying committed entries, settling waiters\<close>

definition sm_apply :: "('v, 'sm) state_machine \<Rightarrow> 'v log_entry \<Rightarrow> ('v, 'sm) state_machine" where
  "sm_apply s e = s\<lparr>sm_data := sm_apply_fn s (sm_data s) e\<rparr>"

function apply_loop :: "('v, 'sm) raft_node \<Rightarrow> panic + ('v, 'sm) raft_node" where
  "apply_loop n =
     (if last_applied n < commit_index n then
        case entry (storage n) (last_applied n + 1) of
          None \<Rightarrow> Inl (CommittedEntryMissing (last_applied n + 1))
        | Some e \<Rightarrow>
            apply_loop (n\<lparr>last_applied := last_applied n + 1,
                          state_machine := sm_apply (state_machine n) e\<rparr>)
      else Inr n)"
  by pat_completeness auto
termination
  by (relation "measure (\<lambda>n. commit_index n - last_applied n)") auto

declare apply_loop.simps [simp del]

text \<open>\<open>Some b\<close>: the waiter is told \<open>b\<close>; \<open>None\<close>: its outcome is still open.\<close>

definition pending_outcome :: "('v, 'sm) raft_node \<Rightarrow> pending_proposal \<Rightarrow> bool option" where
  "pending_outcome n p =
     (if term_at (storage n) (pp_index p) \<noteq> Some (pp_term p) then Some False
      else if commit_index n \<ge> pp_index p then Some True else None)"

definition resolve_pending :: "('v, 'sm) raft_node \<Rightarrow> ('v, 'sm) raft_node" where
  "resolve_pending n =
     emit (concat (map (\<lambda>p. case pending_outcome n p of
                              Some b \<Rightarrow> [Committed p b] | None \<Rightarrow> []) (pending n)))
       (n\<lparr>pending := filter (\<lambda>p. pending_outcome n p = None) (pending n)\<rparr>)"

definition read_acks :: "('v, 'sm) raft_node \<Rightarrow> leader_state \<Rightarrow> pending_read \<Rightarrow> nat" where
  "read_acks n l r =
     (if is_member n then 1 else 0) +
     length (filter (\<lambda>i. case acked_seq l i of Some q \<Rightarrow> q \<ge> needed_seq r | None \<Rightarrow> False)
       (peer_ids n))"

definition read_ready :: "('v, 'sm) raft_node \<Rightarrow> leader_state \<Rightarrow> pending_read \<Rightarrow> bool" where
  "read_ready n l r \<longleftrightarrow> read_acks n l r \<ge> majority n \<and> last_applied n \<ge> read_index r"

definition resolve_reads :: "('v, 'sm) raft_node \<Rightarrow> ('v, 'sm) raft_node" where
  "resolve_reads n =
     (case role n of
        Leader l \<Rightarrow>
          emit (map (\<lambda>r. Granted (granted r)) (filter (read_ready n l) (pending_reads l)))
            (n\<lparr>role := Leader (l\<lparr>pending_reads :=
                 filter (\<lambda>r. \<not> read_ready n l r) (pending_reads l)\<rparr>)\<rparr>)
      | _ \<Rightarrow> n)"

definition apply_committed :: "('v, 'sm) raft_node \<Rightarrow> panic + ('v, 'sm) raft_node" where
  "apply_committed n =
     bind_r (apply_loop n) (\<lambda>n. maybe_compact (resolve_reads (resolve_pending n)))"

definition replicated :: "('v, 'sm) raft_node \<Rightarrow> leader_state \<Rightarrow> log_index list" where
  "replicated n l =
     map (\<lambda>i. case match_index l i of Some m \<Rightarrow> m | None \<Rightarrow> 0) (peer_ids n) @
     (if is_member n then [last_index (storage n)] else [])"

definition advance_to_majority ::
    "leader_state \<Rightarrow> ('v, 'sm) raft_node \<Rightarrow> panic + ('v, 'sm) raft_node" where
  "advance_to_majority l n =
     (let rs = sort (replicated n l);
          candidate = rs ! (length rs - majority n)
      in if candidate > commit_index n \<and>
            term_at (storage n) candidate = Some (current_term n)
         then apply_committed (n\<lparr>commit_index := candidate\<rparr>) else Inr n)"

definition maybe_advance_commit ::
    "instant \<Rightarrow> ('v, 'sm) raft_node \<Rightarrow> panic + ('v, 'sm) raft_node" where
  "maybe_advance_commit now n =
     (case role n of
        Leader l \<Rightarrow>
          if length (replicated n l) < majority n then Inr n
          else bind_r (advance_to_majority l n)
            (\<lambda>n. if is_leader n \<and> \<not> is_member n \<and> commit_index n \<ge> members_index n
                  then become_follower now (current_term n) None n else Inr n)
      | _ \<Rightarrow> Inr n)"

definition heard :: "instant \<Rightarrow> ('v, 'sm) raft_node \<Rightarrow> leader_state \<Rightarrow> nat" where
  "heard now n l =
     (if is_member n then 1 else 0) +
     length (filter (\<lambda>i. case last_contact l i of
                           Some at \<Rightarrow> now - at < election_timeout_max (config n) | None \<Rightarrow> False)
       (peer_ids n))"

definition on_heartbeat_tick ::
    "instant \<Rightarrow> ('v, 'sm) raft_node \<Rightarrow> panic + ('v, 'sm) raft_node" where
  "on_heartbeat_tick now n =
     (if (case role n of Leader l \<Rightarrow> heard now n l < majority n | _ \<Rightarrow> False)
      then become_follower now (current_term n) None n
      else bind_r (seq_r send_append (replication_targets n) n)
        (\<lambda>n. Inr (n\<lparr>next_heartbeat := now + heartbeat_interval (config n)\<rparr>)))"

subsection \<open>Elections\<close>

definition fresh_leader :: "instant \<Rightarrow> ('v, 'sm) raft_node \<Rightarrow> leader_state" where
  "fresh_leader now n =
     (let nxt = last_index (storage n) + 1; ps = set (peer_ids n)
      in \<lparr>next_index = (\<lambda>p. if p \<in> ps then Some nxt else None),
          match_index = (\<lambda>p. if p \<in> ps then Some 0 else None),
          term_start_index = nxt, heartbeat_seq = 0, acked_seq = Map.empty,
          last_contact = (\<lambda>p. if p \<in> ps then Some now else None),
          departing = fmempty, pending_reads = []\<rparr>)"

definition maybe_become_leader ::
    "instant \<Rightarrow> ('v, 'sm) raft_node \<Rightarrow> panic + ('v, 'sm) raft_node" where
  "maybe_become_leader now n =
     (case role n of
        Candidate vs \<Rightarrow>
          if count_member_votes n vs < majority n then Inr n
          else
            let nxt = last_index (storage n) + 1;
                n = n\<lparr>role := Leader (fresh_leader now n), leader_id := Some (cfg_id (config n))\<rparr>
            in bind_r (store (append (storage n)
                 [\<lparr>entry_term = current_term n, index = nxt, command = Noop\<rparr>]) n)
               (\<lambda>n. bind_r (maybe_advance_commit now n) (on_heartbeat_tick now))
      | _ \<Rightarrow> Inr n)"

definition vote_args :: "term_no \<Rightarrow> ('v, 'sm) raft_node \<Rightarrow> request_vote_args" where
  "vote_args t n =
     \<lparr>rv_term = t, candidate_id = cfg_id (config n),
      last_log_index = last_index (storage n), last_log_term = last_term (storage n)\<rparr>"

definition start_election ::
    "instant \<Rightarrow> ('v, 'sm) raft_node \<Rightarrow> panic + ('v, 'sm) raft_node" where
  "start_election now n =
     (let t = current_term n + 1
      in bind_r (store (save_hard_state (storage n)
           \<lparr>hs_current_term = t, voted_for = Some (cfg_id (config n))\<rparr>) n)
         (\<lambda>n. bind_r (reset_election_timer now
                (n\<lparr>role := Candidate {cfg_id (config n)}, leader_id := None\<rparr>))
           (\<lambda>n. maybe_become_leader now
              (emit (map (\<lambda>p. SendRpc p (RequestVote (vote_args t n)) (VoteCtx t))
                 (peer_ids n)) n))))"

definition maybe_start_election ::
    "instant \<Rightarrow> ('v, 'sm) raft_node \<Rightarrow> panic + ('v, 'sm) raft_node" where
  "maybe_start_election now n =
     (case role n of
        PreCandidate vs \<Rightarrow>
          if count_member_votes n vs \<ge> majority n then start_election now n else Inr n
      | _ \<Rightarrow> Inr n)"

definition on_election_timeout ::
    "instant \<Rightarrow> ('v, 'sm) raft_node \<Rightarrow> panic + ('v, 'sm) raft_node" where
  "on_election_timeout now n =
     (if \<not> is_member n then reset_election_timer now n
      else
        let prospective = current_term n + 1
        in bind_r (reset_election_timer now
             (n\<lparr>role := PreCandidate {cfg_id (config n)}, leader_id := None\<rparr>))
           (\<lambda>n. maybe_start_election now
              (emit (map (\<lambda>p. SendRpc p (PreVote (vote_args prospective n))
                   (PreVoteCtx prospective)) (peer_ids n)) n)))"

end
