(* ===== verification/Node_Handlers.thy ===== *)
theory Node_Handlers
  imports Node
begin

section \<open>The handlers of the event loop\<close>

text \<open>
  \<^verbatim>\<open>src/raft/node.rs\<close>, continued: client proposals and reads, the four inbound RPCs, the replies
  to outbound RPCs, the event loop itself and the start of a node.
\<close>

subsection \<open>Client proposals and reads\<close>

definition reachable_members :: "instant \<Rightarrow> membership \<Rightarrow> leader_state \<Rightarrow> ('v, 'sm) raft_node \<Rightarrow> nat" where
  "reachable_members now new l n =
     length (filter (\<lambda>i. i = cfg_id (config n) \<or>
         (acked_seq l i \<noteq> None \<and>
          (case last_contact l i of
             Some at \<Rightarrow> now - at < election_timeout_max (config n) | None \<Rightarrow> False)))
       (bt_keys new))"

definition validate_config_change ::
    "instant \<Rightarrow> membership \<Rightarrow> ('v, 'sm) raft_node \<Rightarrow> panic + (config_rejection option)" where
  "validate_config_change now new n =
     (case role n of
        Leader l \<Rightarrow>
          let gates = \<not> test_disable_reconfig_gates (config n);
              added = length (filter (\<lambda>i. \<not> bt_contains (members n) i) (bt_keys new));
              removed = length (filter (\<lambda>i. \<not> bt_contains new i) (bt_keys (members n)))
          in Inr (
            if gates \<and> commit_index n < term_start_index l then Some NoopNotCommitted
            else if gates \<and> members_index n > commit_index n then Some ChangeInFlight
            else if bt_len new = 0 then Some EmptyConfiguration
            else if added + removed \<noteq> 1 then Some NotSingleServerDelta
            else if reachable_members now new l n < bt_len new div 2 + 1
            then Some MajorityUnreachable
            else None)
      | _ \<Rightarrow> Inl NotOnLeader)"

text \<open>Replication to every target, in order, after a proposal was accepted.\<close>

definition replicate_all :: "('v, 'sm) raft_node \<Rightarrow> panic + ('v, 'sm) raft_node" where
  "replicate_all n = seq_r send_append (replication_targets n) n"

text \<open>The part of \<^verbatim>\<open>handle_propose\<close> after validation: append, adopt, answer, replicate.\<close>

definition accept_proposal ::
    "instant \<Rightarrow> 'v command \<Rightarrow> chan \<Rightarrow> ('v, 'sm) raft_node \<Rightarrow> panic + ('v, 'sm) raft_node" where
  "accept_proposal now cmd reply n =
     (let t = current_term n; i = last_index (storage n) + 1
      in bind_r (store (append (storage n) [\<lparr>entry_term = t, index = i, command = cmd\<rparr>]) n)
         (\<lambda>n.
            let n = (case cmd of ConfigChange m \<Rightarrow> adopt_membership now m i n | _ \<Rightarrow> n);
                ch = next_chan n;
                n = n\<lparr>next_chan := ch + 1,
                      pending := pending n @ [\<lparr>pp_term = t, pp_index = i, pp_committed = ch\<rparr>]\<rparr>;
                n = emit [ReplyPropose reply (Inr \<lparr>proposal_term = t, proposal_index = i,
                      proposal_committed = ch\<rparr>)] n
            in bind_r (maybe_advance_commit now n) replicate_all))"

definition handle_propose ::
    "instant \<Rightarrow> 'v command \<Rightarrow> chan \<Rightarrow> ('v, 'sm) raft_node \<Rightarrow> panic + ('v, 'sm) raft_node" where
  "handle_propose now cmd reply n =
     (if \<not> is_leader n then
        Inr (emit [ReplyPropose reply (Inl (NotLeader (leader_id n)))] n)
      else case cmd of
        ConfigChange m \<Rightarrow>
          bind_r (validate_config_change now m n)
            (\<lambda>rej. case rej of
               Some reason \<Rightarrow>
                 Inr (emit [ReplyPropose reply (Inl (InvalidConfigChange reason))] n)
             | None \<Rightarrow> accept_proposal now cmd reply n)
      | _ \<Rightarrow> accept_proposal now cmd reply n)"

definition handle_read :: "chan \<Rightarrow> ('v, 'sm) raft_node \<Rightarrow> panic + ('v, 'sm) raft_node" where
  "handle_read reply n =
     (case role n of
        Leader l \<Rightarrow>
          let ridx = max (commit_index n) (term_start_index l);
              q = heartbeat_seq l + 1;
              ch = next_chan n;
              l = l\<lparr>heartbeat_seq := q,
                    pending_reads := pending_reads l @
                      [\<lparr>needed_seq = q, read_index = ridx, granted = ch\<rparr>]\<rparr>;
              n = emit [ReplyRead reply (Inr ch)] (n\<lparr>role := Leader l, next_chan := ch + 1\<rparr>)
          in bind_r (seq_r send_append (peer_ids n) n) (\<lambda>n. Inr (resolve_reads n))
      | _ \<Rightarrow> Inr (emit [ReplyRead reply (Inl (NotLeader (leader_id n)))] n))"

subsection \<open>Inbound RPCs\<close>

text \<open>The lexicographic comparison of last term and last index.\<close>

definition log_up_to_date :: "request_vote_args \<Rightarrow> ('v, 'sm) raft_node \<Rightarrow> bool" where
  "log_up_to_date args n \<longleftrightarrow>
     last_term (storage n) < last_log_term args \<or>
     (last_term (storage n) = last_log_term args \<and> last_index (storage n) \<le> last_log_index args)"

definition handle_request_vote ::
    "instant \<Rightarrow> request_vote_args \<Rightarrow> ('v, 'sm) raft_node \<Rightarrow>
       panic + ('v, 'sm) raft_node \<times> request_vote_reply" where
  "handle_request_vote now args n =
     bind_r (if rv_term args > current_term n then become_follower now (rv_term args) None n
             else Inr n)
       (\<lambda>n.
          let t = current_term n
          in if rv_term args < t then Inr (n, \<lparr>rvr_term = t, vote_granted = False\<rparr>)
             else
               let vf = voted_for (hard_state (storage n));
                   can_vote = (vf = None \<or> vf = Some (candidate_id args))
               in if can_vote \<and> log_up_to_date args n then
                    bind_r (store (save_hard_state (storage n)
                        \<lparr>hs_current_term = t, voted_for = Some (candidate_id args)\<rparr>) n)
                      (\<lambda>n. bind_r (reset_election_timer now n)
                        (\<lambda>n. Inr (n, \<lparr>rvr_term = t, vote_granted = True\<rparr>)))
                  else Inr (n, \<lparr>rvr_term = t, vote_granted = False\<rparr>))"

definition leader_is_live :: "instant \<Rightarrow> ('v, 'sm) raft_node \<Rightarrow> bool" where
  "leader_is_live now n \<longleftrightarrow>
     is_leader n \<or>
     (case last_leader_contact n of
        Some at \<Rightarrow> now - at < election_timeout_min (config n) | None \<Rightarrow> False)"

definition handle_pre_vote ::
    "instant \<Rightarrow> request_vote_args \<Rightarrow> ('v, 'sm) raft_node \<Rightarrow>
       ('v, 'sm) raft_node \<times> request_vote_reply" where
  "handle_pre_vote now args n =
     (n, \<lparr>rvr_term = current_term n,
          vote_granted = (rv_term args > current_term n \<and> log_up_to_date args n \<and>
            \<not> leader_is_live now n)\<rparr>)"

definition handle_install_snapshot ::
    "instant \<Rightarrow> 'v install_snapshot_args \<Rightarrow> ('v, 'sm) raft_node \<Rightarrow>
       panic + ('v, 'sm) raft_node \<times> install_snapshot_reply" where
  "handle_install_snapshot now args n =
     (if is_term args < current_term n then Inr (n, \<lparr>isr_term = current_term n\<rparr>)
      else bind_r (become_follower now (is_term args) (Some (is_leader_id args)) n)
        (\<lambda>n.
           let n = n\<lparr>last_leader_contact := Some now\<rparr>;
               t = current_term n;
               s = is_snapshot args;
               boundary = last_included_index s
           in if boundary \<le> commit_index n then Inr (n, \<lparr>isr_term = t\<rparr>)
              else bind_r (store (Storage.install_snapshot (storage n) s) n)
                (\<lambda>n. case sm_restore_fn (state_machine n) (sm_data (state_machine n)) (state s) of
                   None \<Rightarrow> Inl MalformedSnapshot
                 | Some d \<Rightarrow>
                     let n = n\<lparr>state_machine := (state_machine n)\<lparr>sm_data := d\<rparr>,
                               commit_index := boundary, last_applied := boundary\<rparr>;
                         n = rescan_membership now n;
                         dropped = filter (\<lambda>p. \<not> pp_index p > boundary) (pending n);
                         n = emit (map (\<lambda>p. Closed (pp_committed p)) dropped)
                               (n\<lparr>pending := filter (\<lambda>p. pp_index p > boundary) (pending n)\<rparr>)
                     in Inr (resolve_pending n, \<lparr>isr_term = t\<rparr>))))"

text \<open>The consistency check on the leader's previous entry.\<close>

definition prev_matches :: "'v storage \<Rightarrow> 'v append_entries_args \<Rightarrow> bool" where
  "prev_matches st args =
     (case term_at st (prev_log_index args) of
        Some t \<Rightarrow> t = prev_log_term args
      | None \<Rightarrow> prev_log_index args < snapshot_index st)"

definition truncate_conflict ::
    "instant \<Rightarrow> log_index \<Rightarrow> ('v, 'sm) raft_node \<Rightarrow> panic + ('v, 'sm) raft_node" where
  "truncate_conflict now i n =
     (if \<not> i > commit_index n then Inl (TruncateCommitted i)
      else
        let in_effect = (i \<le> members_index n)
        in bind_r (store (truncate_from (storage n) i) n)
             (\<lambda>n. let n = resolve_pending n
                  in Inr (if in_effect then rescan_membership now n else n)))"

text \<open>The walk over the received entries and the truncation at a conflict; the result is the index
  to append from, if any.\<close>

definition reconcile ::
    "instant \<Rightarrow> 'v append_entries_args \<Rightarrow> ('v, 'sm) raft_node \<Rightarrow>
       panic + log_index option \<times> ('v, 'sm) raft_node" where
  "reconcile now args n =
     (case walk_entries (snapshot_index (storage n)) (term_at (storage n)) (entries args) of
        AllHeld \<Rightarrow> Inr (None, n)
      | Missing i \<Rightarrow> Inr (Some i, n)
      | Conflict i \<Rightarrow> bind_r (truncate_conflict now i n) (\<lambda>n. Inr (Some i, n)))"

definition append_rest ::
    "instant \<Rightarrow> 'v append_entries_args \<Rightarrow> log_index \<Rightarrow> ('v, 'sm) raft_node \<Rightarrow>
       panic + ('v, 'sm) raft_node" where
  "append_rest now args first n =
     (if first < prev_log_index args + 1 then Inl SubtractionUnderflow
      else
        let offset = first - prev_log_index args - 1
        in if offset > length (entries args) then Inl SliceOutOfRange
           else
             let rest = drop offset (entries args)
             in bind_r (store (append (storage n) rest) n)
                  (\<lambda>n. Inr (case find_config (rev rest) of
                     Some (m, i) \<Rightarrow> adopt_membership now m i n
                   | None \<Rightarrow> n)))"

definition advance_commit_to ::
    "log_index \<Rightarrow> ('v, 'sm) raft_node \<Rightarrow> panic + ('v, 'sm) raft_node" where
  "advance_commit_to c n =
     (if c > commit_index n then apply_committed (n\<lparr>commit_index := c\<rparr>) else Inr n)"

definition handle_append_entries ::
    "instant \<Rightarrow> 'v append_entries_args \<Rightarrow> ('v, 'sm) raft_node \<Rightarrow>
       panic + ('v, 'sm) raft_node \<times> append_entries_reply" where
  "handle_append_entries now args n =
     (if ae_term args < current_term n then
        Inr (n, \<lparr>aer_term = current_term n, success = False\<rparr>)
      else bind_r (become_follower now (ae_term args) (Some (ae_leader_id args)) n)
        (\<lambda>n.
           let n = n\<lparr>last_leader_contact := Some now\<rparr>;
               t = current_term n
           in if \<not> prev_matches (storage n) args then
                Inr (n, \<lparr>aer_term = t, success = False\<rparr>)
              else bind_r (reconcile now args n)
                (\<lambda>(from, n). bind_r
                   (case from of None \<Rightarrow> Inr n | Some i \<Rightarrow> append_rest now args i n)
                   (\<lambda>n. bind_r
                      (advance_commit_to
                        (min (leader_commit args) (prev_log_index args + length (entries args))) n)
                      (\<lambda>n. Inr (n, \<lparr>aer_term = t, success = True\<rparr>))))))"

definition handle_inbound ::
    "instant \<Rightarrow> 'v rpc_request \<Rightarrow> ('v, 'sm) raft_node \<Rightarrow>
       panic + ('v, 'sm) raft_node \<times> rpc_response" where
  "handle_inbound now req n =
     (case req of
        RequestVote a \<Rightarrow>
          bind_r (handle_request_vote now a n) (\<lambda>(n, r). Inr (n, RequestVoteR r))
      | AppendEntries a \<Rightarrow>
          bind_r (handle_append_entries now a n) (\<lambda>(n, r). Inr (n, AppendEntriesR r))
      | PreVote a \<Rightarrow>
          (case handle_pre_vote now a n of (n, r) \<Rightarrow> Inr (n, PreVoteR r))
      | InstallSnapshot a \<Rightarrow>
          bind_r (handle_install_snapshot now a n) (\<lambda>(n, r). Inr (n, InstallSnapshotR r)))"

subsection \<open>Replies to outbound RPCs\<close>

definition on_pre_vote_reply ::
    "instant \<Rightarrow> term_no \<Rightarrow> node_id \<Rightarrow> request_vote_reply \<Rightarrow> ('v, 'sm) raft_node \<Rightarrow>
       panic + ('v, 'sm) raft_node" where
  "on_pre_vote_reply now sent_term from reply n =
     (if rvr_term reply > current_term n then become_follower now (rvr_term reply) None n
      else if sent_term \<noteq> current_term n + 1 \<or> \<not> vote_granted reply then Inr n
      else case role n of
        PreCandidate vs \<Rightarrow>
          maybe_start_election now (n\<lparr>role := PreCandidate (insert from vs)\<rparr>)
      | _ \<Rightarrow> Inr n)"

definition on_vote_reply ::
    "instant \<Rightarrow> term_no \<Rightarrow> node_id \<Rightarrow> request_vote_reply \<Rightarrow> ('v, 'sm) raft_node \<Rightarrow>
       panic + ('v, 'sm) raft_node" where
  "on_vote_reply now sent_term from reply n =
     (if rvr_term reply > current_term n then become_follower now (rvr_term reply) None n
      else if sent_term \<noteq> current_term n \<or> \<not> vote_granted reply then Inr n
      else case role n of
        Candidate vs \<Rightarrow>
          maybe_become_leader now (n\<lparr>role := Candidate (insert from vs)\<rparr>)
      | _ \<Rightarrow> Inr n)"

text \<open>\<^verbatim>\<open>HashMap::entry(k).or_insert(d)\<close>, read.\<close>

definition entry_or :: "(node_id \<rightharpoonup> nat) \<Rightarrow> node_id \<Rightarrow> nat \<Rightarrow> nat" where
  "entry_or m k d = (case m k of Some v \<Rightarrow> v | None \<Rightarrow> d)"

definition note_ack :: "instant \<Rightarrow> node_id \<Rightarrow> nat \<Rightarrow> leader_state \<Rightarrow> leader_state" where
  "note_ack now from q l =
     l\<lparr>acked_seq := (acked_seq l)(from \<mapsto> max (entry_or (acked_seq l) from 0) q),
       last_contact := (last_contact l)(from \<mapsto> now)\<rparr>"

text \<open>The peer confirmed that it matches up to \<open>confirmed\<close>: the new bookkeeping, whether to send
  more, and whether a departing peer is done.\<close>

definition on_append_success ::
    "node_id \<Rightarrow> log_index \<Rightarrow> log_index \<Rightarrow> leader_state \<Rightarrow> leader_state \<times> bool \<times> bool" where
  "on_append_success from confirmed last_idx l =
     (let old = entry_or (match_index l) from 0;
          progress = (confirmed > old);
          held_upto = (if progress then confirmed else old);
          l = l\<lparr>match_index := (match_index l)(from \<mapsto> held_upto)\<rparr>;
          l = (if progress then l\<lparr>next_index := (next_index l)(from \<mapsto> confirmed + 1)\<rparr> else l);
          resend = (progress \<and> confirmed < last_idx);
          departed = (case fmlookup (departing l) from of
                        Some (removal, _) \<Rightarrow> held_upto \<ge> removal | None \<Rightarrow> False)
      in if departed then (l\<lparr>departing := fmdrop from (departing l)\<rparr>, False, True)
         else (l, resend, False))"

definition on_append_rejected :: "node_id \<Rightarrow> log_index \<Rightarrow> leader_state \<Rightarrow> leader_state" where
  "on_append_rejected from sent_prev l =
     l\<lparr>next_index := (next_index l)(from \<mapsto>
         min (entry_or (next_index l) from 1) (max sent_prev 1))\<rparr>"

definition on_append_reply ::
    "instant \<Rightarrow> term_no \<Rightarrow> node_id \<Rightarrow> log_index \<Rightarrow> nat \<Rightarrow> nat \<Rightarrow> append_entries_reply \<Rightarrow>
       ('v, 'sm) raft_node \<Rightarrow> panic + ('v, 'sm) raft_node" where
  "on_append_reply now sent_term from sent_prev sent_entries sent_seq reply n =
     (if aer_term reply > current_term n then become_follower now (aer_term reply) None n
      else if sent_term \<noteq> current_term n then Inr n
      else case role n of
        Leader l \<Rightarrow>
          let last_idx = last_index (storage n);
              l = note_ack now from sent_seq l;
              (l, resend, departed) =
                (if success reply then on_append_success from (sent_prev + sent_entries) last_idx l
                 else (on_append_rejected from sent_prev l, True, False));
              n = n\<lparr>role := Leader l\<rparr>;
              n = (if departed then publish_membership n else n)
          in bind_r (if success reply then maybe_advance_commit now n else Inr n)
             (\<lambda>n. bind_r (if resend then send_append from n else Inr n)
               (\<lambda>n. Inr (resolve_reads n)))
      | _ \<Rightarrow> Inr n)"

definition on_install_snapshot_reply ::
    "instant \<Rightarrow> term_no \<Rightarrow> node_id \<Rightarrow> log_index \<Rightarrow> install_snapshot_reply \<Rightarrow>
       ('v, 'sm) raft_node \<Rightarrow> panic + ('v, 'sm) raft_node" where
  "on_install_snapshot_reply now sent_term from boundary reply n =
     (if isr_term reply > current_term n then become_follower now (isr_term reply) None n
      else if sent_term \<noteq> current_term n then Inr n
      else case role n of
        Leader l \<Rightarrow>
          let last_idx = last_index (storage n);
              l = l\<lparr>last_contact := (last_contact l)(from \<mapsto> now),
                    match_index := (match_index l)(from \<mapsto>
                      max (entry_or (match_index l) from 0) boundary),
                    next_index := (next_index l)(from \<mapsto>
                      max (entry_or (next_index l) from 1) (boundary + 1))\<rparr>;
              departed = (case fmlookup (departing l) from of
                            Some (removal, _) \<Rightarrow> boundary \<ge> removal | None \<Rightarrow> False);
              l = (if departed then l\<lparr>departing := fmdrop from (departing l)\<rparr> else l);
              n = n\<lparr>role := Leader l\<rparr>;
              n = (if departed then publish_membership n else n)
          in bind_r (maybe_advance_commit now n)
             (\<lambda>n. if boundary < last_idx then send_append from n else Inr n)
      | _ \<Rightarrow> Inr n)"

text \<open>A transport error, or a reply of another kind, changes nothing.\<close>

definition handle_event :: "instant \<Rightarrow> event \<Rightarrow> ('v, 'sm) raft_node \<Rightarrow> panic + ('v, 'sm) raft_node" where
  "handle_event now ev n =
     (case ev of
        PreVoteReply t from (Inr (PreVoteR r)) \<Rightarrow> on_pre_vote_reply now t from r n
      | VoteReply t from (Inr (RequestVoteR r)) \<Rightarrow> on_vote_reply now t from r n
      | AppendReply t from p k q (Inr (AppendEntriesR r)) \<Rightarrow> on_append_reply now t from p k q r n
      | InstallSnapshotReply t from b (Inr (InstallSnapshotR r)) \<Rightarrow>
          on_install_snapshot_reply now t from b r n
      | _ \<Rightarrow> Inr n)"

subsection \<open>The event loop\<close>

datatype 'v control = Shutdown | Propose "'v command" chan | Read chan

text \<open>What is waiting for the loop: the control channel, the transport's inbox with the channel of each
  reply, the replies to the node's own RPCs, and whether the senders of the first two are gone.\<close>

record 'v queues =
  control_rx :: "'v control list"
  control_closed :: bool
  inbound :: "('v rpc_request \<times> chan) list"
  inbound_closed :: bool
  events_rx :: "event list"

datatype 'v turn =
  Ctl "'v control" | CtlClosed | ElectionTimer | HeartbeatTimer
| Rpc "'v rpc_request" chan | TransportClosed | Ev event | Idle

text \<open>\<^verbatim>\<open>tokio::select!\<close> with \<^verbatim>\<open>biased\<close>: the first ready branch in source order. A closed channel is
  ready once it is drained.\<close>

definition select_turn :: "instant \<Rightarrow> 'v queues \<Rightarrow> ('v, 'sm) raft_node \<Rightarrow> 'v turn" where
  "select_turn now q n =
     (case control_rx q of
        c # _ \<Rightarrow> Ctl c
      | [] \<Rightarrow>
          if control_closed q then CtlClosed
          else if \<not> is_leader n \<and> election_deadline n \<le> now then ElectionTimer
          else if is_leader n \<and> next_heartbeat n \<le> now then HeartbeatTimer
          else case inbound q of
              (r, c) # _ \<Rightarrow> Rpc r c
            | [] \<Rightarrow>
                if inbound_closed q then TransportClosed
                else case events_rx q of e # _ \<Rightarrow> Ev e | [] \<Rightarrow> Idle)"

text \<open>One branch of the loop: whether the loop goes on, the reply to an inbound RPC if the turn was one,
  and the node afterwards.\<close>

definition take_turn ::
    "instant \<Rightarrow> 'v turn \<Rightarrow> ('v, 'sm) raft_node \<Rightarrow>
       panic + bool \<times> (chan \<times> rpc_response) option \<times> ('v, 'sm) raft_node" where
  "take_turn now t n =
     (case t of
        Ctl Shutdown \<Rightarrow> Inr (False, None, n)
      | Ctl (Propose cmd c) \<Rightarrow> bind_r (handle_propose now cmd c n) (\<lambda>n. Inr (True, None, n))
      | Ctl (Read c) \<Rightarrow> bind_r (handle_read c n) (\<lambda>n. Inr (True, None, n))
      | CtlClosed \<Rightarrow> Inr (False, None, n)
      | ElectionTimer \<Rightarrow> bind_r (on_election_timeout now n) (\<lambda>n. Inr (True, None, n))
      | HeartbeatTimer \<Rightarrow> bind_r (on_heartbeat_tick now n) (\<lambda>n. Inr (True, None, n))
      | Rpc r c \<Rightarrow> bind_r (handle_inbound now r n) (\<lambda>(n, a). Inr (True, Some (c, a), n))
      | TransportClosed \<Rightarrow> Inr (False, None, n)
      | Ev e \<Rightarrow> bind_r (handle_event now e n) (\<lambda>n. Inr (True, None, n))
      | Idle \<Rightarrow> Inr (True, None, n))"

definition dequeue :: "'v turn \<Rightarrow> 'v queues \<Rightarrow> 'v queues" where
  "dequeue t q =
     (case t of
        Ctl _ \<Rightarrow> q\<lparr>control_rx := tl (control_rx q)\<rparr>
      | Rpc _ _ \<Rightarrow> q\<lparr>inbound := tl (inbound q)\<rparr>
      | Ev _ \<Rightarrow> q\<lparr>events_rx := tl (events_rx q)\<rparr>
      | _ \<Rightarrow> q)"

text \<open>One iteration of the loop; when it breaks, the status is published once more.\<close>

definition run_iteration ::
    "instant \<Rightarrow> 'v queues \<Rightarrow> ('v, 'sm) raft_node \<Rightarrow>
       panic + bool \<times> (chan \<times> rpc_response) option \<times> 'v queues \<times> ('v, 'sm) raft_node" where
  "run_iteration now q n =
     (let n = publish_status n; t = select_turn now q n
      in bind_r (take_turn now t n)
           (\<lambda>(go, a, n). Inr (go, a, dequeue t q, if go then n else publish_status n)))"

text \<open>\<^verbatim>\<open>RaftNode::spawn\<close> and the first line of \<^verbatim>\<open>run\<close>: restore at boot, derive the membership, arm
  the election timer.\<close>

definition spawn ::
    "instant \<Rightarrow> raft_config \<Rightarrow> 'v storage \<Rightarrow> ('v, 'sm) state_machine \<Rightarrow>
       panic + ('v, 'sm) raft_node" where
  "spawn now c st sm =
     bind_r (case snapshot st of
               None \<Rightarrow> Inr sm
             | Some s \<Rightarrow> (case sm_restore_fn sm (sm_data sm) (state s) of
                            None \<Rightarrow> Inl MalformedSnapshot
                          | Some d \<Rightarrow> Inr (sm\<lparr>sm_data := d\<rparr>)))
       (\<lambda>sm. case derive_membership st c of (ms, mi) \<Rightarrow>
          reset_election_timer now
            \<lparr>config = c, storage = st, state_machine = sm, role = Follower, leader_id = None,
             commit_index = snapshot_index st, last_applied = snapshot_index st, pending = [],
             staged_snapshot = None, members = ms, members_index = mi,
             membership_tx = \<lparr>watch_value = \<lparr>view_members = ms, view_departing = fmempty\<rparr>,
                              watch_version = 0\<rparr>,
             last_leader_contact = None, election_deadline = now, next_heartbeat = now,
             rng = rng_new (timeout_seed c),
             status_tx = \<lparr>watch_value = \<lparr>status_id = cfg_id c,
                            status_term = hs_current_term (hard_state st),
                            status_role = FollowerKind, status_leader_id = None,
                            status_commit_index = snapshot_index st,
                            status_last_log_index = last_index st\<rparr>, watch_version = 0\<rparr>,
             next_chan = 0, effects = []\<rparr>)"

end
