(* ===== verification/Raft_Spec.thy ===== *)
theory Raft_Spec
  imports Raft_Types
begin

section \<open>The replication protocol, abstractly\<close>

text \<open>
  What the nodes of a cluster with a fixed membership promise each other, without timers, channels,
  retransmission bookkeeping or client waiters: per process a term, a vote, a role, a log and a
  commit index, and a growing set of messages, any of which may be delivered late, repeatedly or
  never. The cluster of the implemented nodes is shown to refine it in \<^verbatim>\<open>Cluster\<close>.

  The proofs need only that two quorums meet, so they are done once in the locale \<open>raft_quorums\<close>.

  Some messages carry more than the wire does, for the proofs: a vote and a vote request carry the log
  of their sender at that moment, a node also acknowledges its own log, \<open>MLead\<close> and \<open>MCommit\<close> record that a
  process won a term and that a leader committed a prefix of its log, and \<open>led\<close> records who led each term and with
  which log.
\<close>

datatype p_role = PFollower | PCandidate | PLeader

record 'v proc =
  p_term :: term_no
  p_vote :: "node_id option"
  p_role :: p_role
  p_log :: "'v log_entry list"
  p_commit :: log_index

datatype 'v msg =
  MVoteReq term_no node_id "'v log_entry list"
| MVote term_no node_id node_id "'v log_entry list"
| MAppend term_no log_index term_no "'v log_entry list" log_index
| MAck term_no node_id log_index
| MLead term_no node_id
| MCommit term_no log_index "'v log_entry list"

record 'v net =
  msgs :: "'v msg set"
  led :: "term_no \<rightharpoonup> node_id \<times> 'v log_entry list"

text \<open>The term of a log at a (one-based) index, with the sentinel index 0.\<close>

definition lterm :: "'v log_entry list \<Rightarrow> log_index \<Rightarrow> term_no" where
  "lterm lg k = (if k = 0 then 0 else entry_term (lg ! (k - 1)))"

text \<open>The election restriction: the first log is at least as up to date as the second.\<close>

definition up_to_date :: "'v log_entry list \<Rightarrow> 'v log_entry list \<Rightarrow> bool" where
  "up_to_date a b \<longleftrightarrow>
     lterm b (length b) < lterm a (length a) \<or>
     (lterm b (length b) = lterm a (length a) \<and> length b \<le> length a)"

text \<open>What a follower makes of a batch that follows the index \<open>p\<close>.\<close>

fun merge_log :: "nat \<Rightarrow> 'v log_entry list \<Rightarrow> 'v log_entry list \<Rightarrow> 'v log_entry list" where
  "merge_log p [] lg = lg"
| "merge_log p (e # es) lg =
     (if p < length lg \<and> entry_term (lg ! p) = entry_term e then merge_log (Suc p) es lg
      else take p lg @ e # es)"

text \<open>The same, interrupted: what conflicts is gone, and only the first \<open>z\<close> of the missing entries are there.\<close>

fun merge_part :: "nat \<Rightarrow> nat \<Rightarrow> 'v log_entry list \<Rightarrow> 'v log_entry list \<Rightarrow> 'v log_entry list" where
  "merge_part z p [] lg = lg"
| "merge_part z p (e # es) lg =
     (if p < length lg \<and> entry_term (lg ! p) = entry_term e then merge_part z (Suc p) es lg
      else take p lg @ take z (e # es))"

inductive pstep ::
    "(node_id set \<Rightarrow> bool) \<Rightarrow> node_id \<Rightarrow> 'v proc \<Rightarrow> 'v net \<Rightarrow> 'v proc \<Rightarrow> 'v net \<Rightarrow> bool"
  for qs :: "node_id set \<Rightarrow> bool" and i :: node_id and p :: "'v proc" and s :: "'v net" where
  p_observe: "p_term p < t \<Longrightarrow>
    pstep qs i p s (p\<lparr>p_term := t, p_vote := None, p_role := PFollower\<rparr>) s"
| p_step_down: "pstep qs i p s (p\<lparr>p_role := PFollower\<rparr>) s"
| p_campaign: "t = p_term p + 1 \<Longrightarrow>
    pstep qs i p s (p\<lparr>p_term := t, p_vote := Some i, p_role := PCandidate\<rparr>)
      (s\<lparr>msgs := msgs s \<union> {MVoteReq t i (p_log p), MVote t i i (p_log p)}\<rparr>)"
| p_grant: "MVoteReq t c lg \<in> msgs s \<Longrightarrow> t = p_term p \<Longrightarrow> p_vote p \<in> {None, Some c} \<Longrightarrow>
    up_to_date lg (p_log p) \<Longrightarrow>
    pstep qs i p s (p\<lparr>p_vote := Some c\<rparr>) (s\<lparr>msgs := insert (MVote t i c (p_log p)) (msgs s)\<rparr>)"
| p_win: "p_role p = PCandidate \<Longrightarrow> t = p_term p \<Longrightarrow> qs Q \<Longrightarrow>
    \<forall>j \<in> Q. \<exists>lg. MVote t j i lg \<in> msgs s \<Longrightarrow>
    pstep qs i p s (p\<lparr>p_role := PLeader\<rparr>)
      (s\<lparr>msgs := msgs s \<union> {MAck t i (length (p_log p)), MLead t i}, led := (led s)(t \<mapsto> (i, p_log p))\<rparr>)"
| p_propose: "p_role p = PLeader \<Longrightarrow> t = p_term p \<Longrightarrow> entry_term e = t \<Longrightarrow> lg = p_log p @ [e] \<Longrightarrow>
    pstep qs i p s (p\<lparr>p_log := lg\<rparr>)
      (s\<lparr>msgs := insert (MAck t i (length lg)) (msgs s), led := (led s)(t \<mapsto> (i, lg))\<rparr>)"
| p_send: "p_role p = PLeader \<Longrightarrow> t = p_term p \<Longrightarrow> k \<le> length (p_log p) \<Longrightarrow>
    es = take m (drop k (p_log p)) \<Longrightarrow> c \<le> p_commit p \<Longrightarrow>
    pstep qs i p s p (s\<lparr>msgs := insert (MAppend t k (lterm (p_log p) k) es c) (msgs s)\<rparr>)"
| p_accept: "MAppend t k kt es c \<in> msgs s \<Longrightarrow> t = p_term p \<Longrightarrow> p_role p = PFollower \<Longrightarrow>
    k \<le> length (p_log p) \<Longrightarrow> lterm (p_log p) k = kt \<Longrightarrow>
    pstep qs i p s (p\<lparr>p_log := merge_log k es (p_log p),
        p_commit := max (p_commit p) (min c (k + length es))\<rparr>)
      (s\<lparr>msgs := insert (MAck t i (k + length es)) (msgs s)\<rparr>)"
| p_part: "MAppend t k kt es c \<in> msgs s \<Longrightarrow> t = p_term p \<Longrightarrow> p_role p = PFollower \<Longrightarrow>
    k \<le> length (p_log p) \<Longrightarrow> lterm (p_log p) k = kt \<Longrightarrow>
    pstep qs i p s (p\<lparr>p_log := merge_part z k es (p_log p)\<rparr>) s"
| p_commit_to: "p_role p = PLeader \<Longrightarrow> qs Q \<Longrightarrow>
    \<forall>j \<in> Q. \<exists>m \<ge> c. MAck (p_term p) j m \<in> msgs s \<Longrightarrow> 0 < c \<Longrightarrow> c \<le> length (p_log p) \<Longrightarrow>
    lterm (p_log p) c = p_term p \<Longrightarrow>
    pstep qs i p s (p\<lparr>p_commit := max (p_commit p) c\<rparr>)
      (s\<lparr>msgs := insert (MCommit (p_term p) c (take c (p_log p))) (msgs s)\<rparr>)"
| p_restart: "c \<le> p_commit p \<Longrightarrow> pstep qs i p s (p\<lparr>p_role := PFollower, p_commit := c\<rparr>) s"

record 'v world =
  procs :: "node_id \<Rightarrow> 'v proc"
  net :: "'v net"

inductive wstep :: "(node_id set \<Rightarrow> bool) \<Rightarrow> 'v world \<Rightarrow> 'v world \<Rightarrow> bool" for qs where
  "pstep qs i (procs w i) (net w) p s \<Longrightarrow> wstep qs w \<lparr>procs = (procs w)(i := p), net = s\<rparr>"

definition winit :: "'v world" where
  "winit = \<lparr>procs = (\<lambda>_. \<lparr>p_term = 0, p_vote = None, p_role = PFollower, p_log = [], p_commit = 0\<rparr>),
     net = \<lparr>msgs = {}, led = Map.empty\<rparr>\<rparr>"

text \<open>Shorthands for the parts of a world.\<close>

abbreviation "trm w j \<equiv> p_term (procs w j)"
abbreviation "lg_of w j \<equiv> p_log (procs w j)"
abbreviation "ms w \<equiv> msgs (net w)"
abbreviation "ld w \<equiv> led (net w)"

subsection \<open>The invariant\<close>

text \<open>Log matching, in one formula: a log agrees, up to each of its entries, with the log of the leader
  that created the entry.\<close>

definition wf_log :: "(term_no \<rightharpoonup> node_id \<times> 'v log_entry list) \<Rightarrow> 'v log_entry list \<Rightarrow> bool" where
  "wf_log T lg \<longleftrightarrow> (\<forall>k < length lg. \<exists>c L. T (entry_term (lg ! k)) = Some (c, L) \<and> k < length L \<and>
     take (Suc k) lg = take (Suc k) L)"

definition inv_votes :: "'v world \<Rightarrow> bool" where
  "inv_votes w \<longleftrightarrow>
     (\<forall>t j c lg. MVote t j c lg \<in> ms w \<longrightarrow> t \<le> trm w j \<and> (t = trm w j \<longrightarrow> p_vote (procs w j) = Some c)) \<and>
     (\<forall>t j c lg c' lg'. MVote t j c lg \<in> ms w \<longrightarrow> MVote t j c' lg' \<in> ms w \<longrightarrow> c = c') \<and>
     (\<forall>t c lg. MVoteReq t c lg \<in> ms w \<longrightarrow> t \<le> trm w c) \<and>
     (\<forall>t c lg lg'. MVoteReq t c lg \<in> ms w \<longrightarrow> MVoteReq t c lg' \<in> ms w \<longrightarrow> lg = lg') \<and>
     (\<forall>t j c lg. MVote t j c lg \<in> ms w \<longrightarrow> (\<exists>a. MVoteReq t c a \<in> ms w \<and> up_to_date a lg)) \<and>
     (\<forall>i. p_role (procs w i) = PCandidate \<longrightarrow> MVoteReq (trm w i) i (lg_of w i) \<in> ms w)"

definition inv_led :: "(node_id set \<Rightarrow> bool) \<Rightarrow> 'v world \<Rightarrow> bool" where
  "inv_led qs w \<longleftrightarrow>
     (\<forall>t c L. ld w t = Some (c, L) \<longrightarrow>
        (\<exists>Q. qs Q \<and> (\<forall>j \<in> Q. \<exists>lg. MVote t j c lg \<in> ms w)) \<and> t \<le> trm w c \<and>
        (t = trm w c \<longrightarrow> p_role (procs w c) \<noteq> PCandidate \<and>
           (p_role (procs w c) = PLeader \<longrightarrow> lg_of w c = L))) \<and>
     (\<forall>i. p_role (procs w i) = PLeader \<longrightarrow> (\<exists>L. ld w (trm w i) = Some (i, L)))"

definition inv_logs :: "'v world \<Rightarrow> bool" where
  "inv_logs w \<longleftrightarrow>
     (\<forall>i. wf_log (ld w) (lg_of w i) \<and> (\<forall>e \<in> set (lg_of w i). entry_term e \<le> trm w i)) \<and>
     (\<forall>t c lg. MVoteReq t c lg \<in> ms w \<longrightarrow> wf_log (ld w) lg \<and> (\<forall>e \<in> set lg. entry_term e < t)) \<and>
     (\<forall>t j c lg. MVote t j c lg \<in> ms w \<longrightarrow> wf_log (ld w) lg) \<and>
     (\<forall>t c L. ld w t = Some (c, L) \<longrightarrow>
        wf_log (ld w) L \<and> sorted (map entry_term L) \<and> (\<forall>e \<in> set L. entry_term e \<le> t))"

definition inv_appends :: "'v world \<Rightarrow> bool" where
  "inv_appends w \<longleftrightarrow>
     (\<forall>t k kt es c. MAppend t k kt es c \<in> ms w \<longrightarrow>
        (\<exists>d L. ld w t = Some (d, L) \<and> k + length es \<le> length L \<and>
           es = take (length es) (drop k L) \<and> kt = lterm L k)) \<and>
     (\<forall>t j m. MAck t j m \<in> ms w \<longrightarrow> t \<le> trm w j \<and>
        (\<exists>d L. ld w t = Some (d, L) \<and> m \<le> length L \<and>
           (t = trm w j \<longrightarrow> m \<le> length (lg_of w j) \<and> take m (lg_of w j) = take m L)))"

text \<open>The entry at index \<open>m\<close> of the leader of term \<open>t\<close>, created in its own term, may still be (or is)
  acknowledged by a quorum in that term.\<close>

definition choosable ::
    "(node_id set \<Rightarrow> bool) \<Rightarrow> 'v world \<Rightarrow> term_no \<Rightarrow> 'v log_entry list \<Rightarrow> log_index \<Rightarrow> bool" where
  "choosable qs w t L m \<longleftrightarrow>
     (\<exists>c. ld w t = Some (c, L)) \<and> 0 < m \<and> m \<le> length L \<and> lterm L m = t \<and>
     (\<exists>Q. qs Q \<and> (\<forall>j \<in> Q. trm w j \<le> t \<or> (\<exists>m' \<ge> m. MAck t j m' \<in> ms w)))"

definition inv_choose :: "(node_id set \<Rightarrow> bool) \<Rightarrow> 'v world \<Rightarrow> bool" where
  "inv_choose qs w \<longleftrightarrow>
     (\<forall>t L m. choosable qs w t L m \<longrightarrow>
        (\<forall>j m'. MAck t j m' \<in> ms w \<longrightarrow> m \<le> m' \<longrightarrow>
           m \<le> length (lg_of w j) \<and> take m (lg_of w j) = take m L) \<and>
        (\<forall>t' j c lg m'. MVote t' j c lg \<in> ms w \<longrightarrow> t < t' \<longrightarrow> MAck t j m' \<in> ms w \<longrightarrow> m \<le> m' \<longrightarrow>
           m \<le> length lg \<and> take m lg = take m L) \<and>
        (\<forall>t' c' L'. ld w t' = Some (c', L') \<longrightarrow> t < t' \<longrightarrow> m \<le> length L' \<and> take m L' = take m L))"

text \<open>A prefix of a log is settled when a quorum acknowledged at least that much of the log of one
  leader, in the leader's own term.\<close>

definition settled ::
    "(node_id set \<Rightarrow> bool) \<Rightarrow> 'v world \<Rightarrow> term_no \<Rightarrow> 'v log_entry list \<Rightarrow> log_index \<Rightarrow> bool" where
  "settled qs w t lg c \<longleftrightarrow> c = 0 \<or>
     (\<exists>u d L m. u \<le> t \<and> ld w u = Some (d, L) \<and> c \<le> m \<and> m \<le> length L \<and> lterm L m = u \<and>
        (\<exists>Q. qs Q \<and> (\<forall>j \<in> Q. \<exists>m' \<ge> m. MAck u j m' \<in> ms w)) \<and>
        c \<le> length lg \<and> take c lg = take c L)"

definition inv_commit :: "(node_id set \<Rightarrow> bool) \<Rightarrow> 'v world \<Rightarrow> bool" where
  "inv_commit qs w \<longleftrightarrow>
     (\<forall>i. settled qs w (trm w i) (lg_of w i) (p_commit (procs w i))) \<and>
     (\<forall>t k kt es c. MAppend t k kt es c \<in> ms w \<longrightarrow>
        (\<exists>d L. ld w t = Some (d, L) \<and> settled qs w t L c))"

text \<open>Whatever a process has committed, or a batch announces as committed, some leader has committed in its own
  term, in that term or before; and a leader has committed all it ever committed in its term.\<close>

definition inv_done :: "(node_id set \<Rightarrow> bool) \<Rightarrow> 'v world \<Rightarrow> bool" where
  "inv_done qs w \<longleftrightarrow>
     (\<forall>u c lg. MCommit u c lg \<in> ms w \<longrightarrow> 0 < c \<and> length lg = c \<and> settled qs w u lg c \<and>
        (\<exists>d L. ld w u = Some (d, L) \<and>
           (trm w d = u \<longrightarrow> p_role (procs w d) = PLeader \<longrightarrow> c \<le> p_commit (procs w d)))) \<and>
     (\<forall>i. 0 < p_commit (procs w i) \<longrightarrow>
        (\<exists>u c lg. MCommit u c lg \<in> ms w \<and> u \<le> trm w i \<and> p_commit (procs w i) \<le> c)) \<and>
     (\<forall>t k kt es c. MAppend t k kt es c \<in> ms w \<longrightarrow> 0 < c \<longrightarrow>
        (\<exists>u c' lg. MCommit u c' lg \<in> ms w \<and> u \<le> t \<and> c \<le> c'))"

definition inv :: "(node_id set \<Rightarrow> bool) \<Rightarrow> 'v world \<Rightarrow> bool" where
  "inv qs w \<longleftrightarrow> inv_votes w \<and> inv_led qs w \<and> inv_logs w \<and> inv_appends w \<and> inv_choose qs w \<and>
     inv_commit qs w \<and> inv_done qs w"

subsection \<open>Logs\<close>

lemma wf_logD:
  assumes "wf_log T lg" and "k < length lg" and "T (entry_term (lg ! k)) = Some (c, L)"
  shows "k < length L" and "take (Suc k) lg = take (Suc k) L" and "n \<le> Suc k \<Longrightarrow> take n lg = take n L"
proof -
  from assms show *: "k < length L" "take (Suc k) lg = take (Suc k) L"
    by (auto simp: wf_log_def)
  assume "n \<le> Suc k"
  then show "take n lg = take n L"
    using arg_cong [OF *(2), of "take n"] by (simp add: min_def)
qed

lemma wf_log_ex: "wf_log T lg \<Longrightarrow> k < length lg \<Longrightarrow> \<exists>c L. T (entry_term (lg ! k)) = Some (c, L)"
  by (auto simp: wf_log_def)

lemma take_eq_nth: "take n a = take n b \<Longrightarrow> k < n \<Longrightarrow> n \<le> length a \<Longrightarrow> n \<le> length b \<Longrightarrow> a ! k = b ! k"
  by (metis nth_take)

lemma take_eq_mono: "take n a = take n b \<Longrightarrow> m \<le> n \<Longrightarrow> take m a = take m b"
  by (metis min.absorb_iff1 take_take)

text \<open>Entries with the same term at the same index: the logs agree up to there.\<close>

lemma log_matching_take:
  assumes "wf_log T a" and "wf_log T b" and "k < length a" and "k < length b"
    and "entry_term (a ! k) = entry_term (b ! k)"
  shows "take (Suc k) a = take (Suc k) b"
proof -
  from wf_log_ex [OF assms(1,3)] obtain c L where T: "T (entry_term (a ! k)) = Some (c, L)" by blast
  show ?thesis
    using wf_logD(2) [OF assms(1,3) T] wf_logD(2) [OF assms(2,4), of c L] T assms(5) by simp
qed

text \<open>The logs the leaders of each term ended up with only grow.\<close>

definition led_grows :: "(term_no \<rightharpoonup> node_id \<times> 'v log_entry list) \<Rightarrow> (term_no \<rightharpoonup> node_id \<times> 'v log_entry list) \<Rightarrow> bool" where
  "led_grows T T' \<longleftrightarrow> (\<forall>t c L. T t = Some (c, L) \<longrightarrow> (\<exists>L'. T' t = Some (c, L @ L')))"

lemma led_grows_refl [simp]: "led_grows T T"
  by (auto simp: led_grows_def)

lemma led_grows_new: "T t = None \<Longrightarrow> led_grows T (T(t \<mapsto> x))"
  by (auto simp: led_grows_def)

lemma led_grows_append: "T t = Some (c, L) \<Longrightarrow> led_grows T (T(t \<mapsto> (c, L @ es)))"
  by (auto simp: led_grows_def)

lemma wf_log_grows:
  assumes "wf_log T lg" and "led_grows T T'"
  shows "wf_log T' lg"
  unfolding wf_log_def
proof (intro allI impI)
  fix k assume k: "k < length lg"
  with assms(1) obtain c L where L: "T (entry_term (lg ! k)) = Some (c, L)" "k < length L"
    "take (Suc k) lg = take (Suc k) L" by (auto simp: wf_log_def)
  from L(1) assms(2) obtain L' where "T' (entry_term (lg ! k)) = Some (c, L @ L')"
    unfolding led_grows_def by blast
  with L show "\<exists>c L. T' (entry_term (lg ! k)) = Some (c, L) \<and> k < length L \<and>
      take (Suc k) lg = take (Suc k) L"
    by (intro exI [of _ c] exI [of _ "L @ L'"]) simp
qed

lemma wf_log_take: "wf_log T lg \<Longrightarrow> wf_log T (take n lg)"
  by (auto simp: wf_log_def min_def)

lemma wf_log_snoc:
  assumes "wf_log T lg" and "T (entry_term e) = Some (c, lg @ [e])"
  shows "wf_log T (lg @ [e])"
  using assms by (auto simp: wf_log_def nth_append less_Suc_eq)

lemma merge_part_full: "length es \<le> z \<Longrightarrow> merge_part z p es lg = merge_log p es lg"
  by (induction z p es lg rule: merge_part.induct) auto

lemma merge_log_part: "merge_log p es lg = merge_part (length es) p es lg"
  by (simp add: merge_part_full)

lemma merge_part_again:
  "p \<le> length lg \<Longrightarrow> merge_part z' p es (merge_part z p es lg) = merge_part (z + z') p es lg"
proof (induction z p es lg rule: merge_part.induct)
  case (2 z p e es lg)
  have cut: "merge_part z' (length xs) fs (xs @ take y fs) = xs @ take (y + z') fs" for xs fs y
  proof (induction fs arbitrary: xs y)
    case (Cons f fs)
    show ?case
    proof (cases y)
      case (Suc x)
      then show ?thesis using Cons.IH [of "xs @ [f]" x] by (simp add: nth_append)
    qed simp
  qed simp
  have keep: "q \<le> length lg \<Longrightarrow> take q (merge_part z q fs lg) = take q lg \<and> q \<le> length (merge_part z q fs lg)" for q fs
  proof (induction z q fs lg rule: merge_part.induct)
    case (2 z p e es lg)
    show ?case
    proof (cases "p < length lg \<and> entry_term (lg ! p) = entry_term e")
      case True
      with 2 have "take (Suc p) (merge_part z (Suc p) es lg) = take (Suc p) lg" "Suc p \<le> length (merge_part z (Suc p) es lg)"
        by auto
      with True show ?thesis using take_eq_mono [of "Suc p" "merge_part z (Suc p) es lg" lg p] by simp
    qed (use 2 in auto)
  qed simp
  show ?case
  proof (cases "p < length lg \<and> entry_term (lg ! p) = entry_term e")
    case True
    with keep [of "Suc p" es] have "merge_part z (Suc p) es lg ! p = lg ! p" "p < length (merge_part z (Suc p) es lg)"
      by (auto simp: Suc_le_eq intro: take_eq_nth [of "Suc p"])
    with 2 True show ?thesis by simp
  next
    case False
    have "length (take p lg) = p" using 2(2) by simp
    from cut [of "take p lg" "e # es" z, unfolded this] show ?thesis
      unfolding merge_part.simps(2) [of _ p e es lg] if_not_P [OF False] .
  qed
qed simp

lemma merge_log_again: "p \<le> length lg \<Longrightarrow> merge_log p es (merge_log p es lg) = merge_log p es lg"
  using merge_part_again [of p lg "length es" es "length es"] by (simp add: merge_part_full)

text \<open>Interrupting keeps every prefix that the log shares with the leader's.\<close>

lemma merge_part_agrees:
  assumes "wf_log T lg" and "wf_log T L" and "p \<le> length lg" and "take p lg = take p L"
    and "es = take (length es) (drop p L)" and "p + length es \<le> length L"
  shows "wf_log T (merge_part z p es lg)"
    and "\<And>m. m \<le> length lg \<Longrightarrow> m \<le> length L \<Longrightarrow> take m lg = take m L \<Longrightarrow>
      m \<le> length (merge_part z p es lg) \<and> take m (merge_part z p es lg) = take m L"
    and "set (merge_part z p es lg) \<subseteq> set lg \<union> set L"
proof -
  have "wf_log T (merge_part z p es lg) \<and>
    (\<forall>m. m \<le> length lg \<longrightarrow> m \<le> length L \<longrightarrow> take m lg = take m L \<longrightarrow>
      m \<le> length (merge_part z p es lg) \<and> take m (merge_part z p es lg) = take m L) \<and>
    set (merge_part z p es lg) \<subseteq> set lg \<union> set L"
    using assms
  proof (induction z p es lg rule: merge_part.induct)
    case (1 z p lg)
    then show ?case by simp
  next
    case (2 z p e es lg)
    have pL: "p < length L" using 2(7) by simp
    have e: "e = L ! p" and es: "es = take (length es) (drop (Suc p) L)"
      using 2(6) pL by (simp_all add: Cons_nth_drop_Suc [symmetric])
    show ?case
    proof (cases "p < length lg \<and> entry_term (lg ! p) = entry_term e")
      case True
      then have "take (Suc p) lg = take (Suc p) L"
        using 2(2,3) pL e by (intro log_matching_take [of T]) auto
      from 2(1) [OF True 2(2,3) _ this es] True pL 2(7) show ?thesis by simp
    next
      case False
      have eq: "take p lg @ e # es = take (p + length (e # es)) L"
        using 2(5) 2(6) pL by (metis take_add)
      have m: "m \<le> p" if "m \<le> length lg" "m \<le> length L" "take m lg = take m L" for m
      proof (rule ccontr)
        assume "\<not> m \<le> p"
        with that have "lg ! p = L ! p" "p < length lg" by (auto intro: take_eq_nth [of m])
        with False e show False by simp
      qed
      have "take p lg @ take z (e # es) = take (p + min z (length (e # es))) (take p lg @ e # es)"
        using 2(4) by (simp add: min_def)
      then have "merge_part z p (e # es) lg = take (p + min z (length (e # es))) L"
        unfolding merge_part.simps if_not_P [OF False] using eq 2(7) by (simp add: min_def)
      then show ?thesis
        using 2(3) 2(7) m set_take_subset [of "p + min z (length (e # es))" L]
        by (simp only: wf_log_take take_take length_take) (fastforce simp: min_def)
    qed
  qed
  then show "wf_log T (merge_part z p es lg)"
    and "\<And>m. m \<le> length lg \<Longrightarrow> m \<le> length L \<Longrightarrow> take m lg = take m L \<Longrightarrow>
      m \<le> length (merge_part z p es lg) \<and> take m (merge_part z p es lg) = take m L"
    and "set (merge_part z p es lg) \<subseteq> set lg \<union> set L"
    by blast+
qed

lemma merge_log_covers:
  "p \<le> length lg \<Longrightarrow> p + length es \<le> length (merge_log p es lg)"
  by (induction p es lg rule: merge_log.induct) (auto simp: Suc_le_eq)

lemma merge_log_agrees:
  assumes "wf_log T lg" and "wf_log T L" and "p \<le> length lg" and "take p lg = take p L"
    and "es = take (length es) (drop p L)" and "p + length es \<le> length L"
  shows "wf_log T (merge_log p es lg)"
    and "p + length es \<le> length (merge_log p es lg)"
    and "take (p + length es) (merge_log p es lg) = take (p + length es) L"
    and "\<And>m. m \<le> length lg \<Longrightarrow> m \<le> length L \<Longrightarrow> take m lg = take m L \<Longrightarrow>
      m \<le> length (merge_log p es lg) \<and> take m (merge_log p es lg) = take m L"
    and "set (merge_log p es lg) \<subseteq> set lg \<union> set L"
proof -
  note P = merge_part_agrees [OF assms, where z = "length es", folded merge_log_part]
  show "wf_log T (merge_log p es lg)" "set (merge_log p es lg) \<subseteq> set lg \<union> set L" by (fact P)+
  show "p + length es \<le> length (merge_log p es lg)" by (rule merge_log_covers [OF assms(3)])
  show "m \<le> length (merge_log p es lg) \<and> take m (merge_log p es lg) = take m L"
    if "m \<le> length lg" "m \<le> length L" "take m lg = take m L" for m by (rule P(2) [OF that])
  show "take (p + length es) (merge_log p es lg) = take (p + length es) L"
    using assms
  proof (induction p es lg rule: merge_log.induct)
    case (2 p e es lg)
    have pL: "p < length L" using 2(7) by simp
    have e: "e = L ! p" and es: "es = take (length es) (drop (Suc p) L)"
      using 2(6) pL by (simp_all add: Cons_nth_drop_Suc [symmetric])
    show ?case
    proof (cases "p < length lg \<and> entry_term (lg ! p) = entry_term e")
      case True
      then have "take (Suc p) lg = take (Suc p) L"
        using 2(2,3) pL e by (intro log_matching_take [of T]) auto
      from 2(1) [OF True 2(2,3) _ this es] True pL 2(7) show ?thesis by simp
    next
      case False
      have "take p lg @ e # es = take (p + length (e # es)) L"
        using 2(5) 2(6) pL by (metis take_add)
      then show ?thesis using False by auto
    qed
  qed simp
qed

end
