(* ===== verification/Raft_Safety.thy ===== *)
theory Raft_Safety
  imports Raft_Spec
begin

section \<open>Safety of the replication protocol\<close>

text \<open>
  Every step of the protocol of \<^verbatim>\<open>Raft_Spec\<close> keeps its invariant. First what a step can change, then, in
  the locale \<open>raft_quorums\<close>, one lemma per part of the invariant: votes, leaders, log matching,
  batches and acknowledgements, the prefixes that may still be chosen, and commit indexes. Leader
  completeness is \<open>settled_led\<close>, state-machine safety \<open>settled_prefixes\<close>.
\<close>

subsection \<open>What a step can change\<close>

lemma wstep_term: "wstep q w w' \<Longrightarrow> trm w j \<le> trm w' j"
  by (erule wstep.cases, erule pstep.cases) auto

lemma wstep_vote: "wstep q w w' \<Longrightarrow> trm w' j = trm w j \<Longrightarrow> p_vote (procs w j) = Some c \<Longrightarrow>
    p_vote (procs w' j) = Some c"
  by (erule wstep.cases, erule pstep.cases) (auto split: if_splits)

lemma wstep_msgs: "wstep q w w' \<Longrightarrow> x \<in> ms w \<Longrightarrow> x \<in> ms w'"
  by (erule wstep.cases, erule pstep.cases) auto

lemma wstep_new_vote:
  "wstep q w w' \<Longrightarrow> MVote t j c lg \<in> ms w' \<Longrightarrow>
     MVote t j c lg \<in> ms w \<or>
     (t = trm w' j \<and> p_vote (procs w' j) = Some c \<and> lg = lg_of w j \<and> ld w' = ld w \<and>
      (\<exists>a. MVoteReq t c a \<in> ms w' \<and> up_to_date a lg))"
  by (erule wstep.cases, erule pstep.cases) (auto simp: up_to_date_def)

lemma wstep_new_request:
  "wstep q w w' \<Longrightarrow> MVoteReq t c lg \<in> ms w' \<Longrightarrow>
     MVoteReq t c lg \<in> ms w \<or>
     (trm w c < t \<and> t = trm w' c \<and> lg = lg_of w c \<and> ld w' = ld w)"
  by (erule wstep.cases, erule pstep.cases) auto

lemma wstep_candidate:
  "wstep q w w' \<Longrightarrow> p_role (procs w' i) = PCandidate \<Longrightarrow>
     lg_of w' i = lg_of w i \<and>
     ((p_role (procs w i) = PCandidate \<and> trm w' i = trm w i) \<or>
      (MVoteReq (trm w' i) i (lg_of w i) \<in> ms w' \<and> trm w i < trm w' i))"
  by (erule wstep.cases, erule pstep.cases) (auto split: if_splits)

lemma wstep_led:
  "wstep q w w' \<Longrightarrow> ld w' = ld w \<or>
     (\<exists>i. p_role (procs w' i) = PLeader \<and> trm w' i = trm w i \<and> ld w' = (ld w)(trm w i \<mapsto> (i, lg_of w' i)) \<and>
        (\<forall>j. j \<noteq> i \<longrightarrow> procs w' j = procs w j) \<and>
        ms w' \<subseteq> ms w \<union> {MAck (trm w i) i (length (lg_of w' i)), MLead (trm w i) i} \<and>
        ((p_role (procs w i) = PCandidate \<and> lg_of w' i = lg_of w i \<and>
           (\<exists>Q. q Q \<and> (\<forall>j \<in> Q. \<exists>lg. MVote (trm w i) j i lg \<in> ms w))) \<or>
         (p_role (procs w i) = PLeader \<and> (\<exists>e. lg_of w' i = lg_of w i @ [e] \<and> entry_term e = trm w i))))"
  by (erule wstep.cases, erule pstep.cases) auto

lemma wstep_leader:
  "wstep q w w' \<Longrightarrow> p_role (procs w' i) = PLeader \<Longrightarrow> trm w' i = trm w i \<and>
     (p_role (procs w i) = PLeader \<and> lg_of w' i = lg_of w i \<or> ld w' (trm w i) = Some (i, lg_of w' i))"
  by (erule wstep.cases, erule pstep.cases) (auto split: if_splits)

lemma wstep_new_append:
  "wstep q w w' \<Longrightarrow> MAppend t k kt es c \<in> ms w' \<Longrightarrow> MAppend t k kt es c \<in> ms w \<or>
     (ld w' = ld w \<and> (\<exists>i m. p_role (procs w i) = PLeader \<and> t = trm w i \<and> k \<le> length (lg_of w i) \<and>
        kt = lterm (lg_of w i) k \<and> es = take m (drop k (lg_of w i)) \<and> c \<le> p_commit (procs w i)))"
  by (erule wstep.cases, erule pstep.cases) (auto split: if_splits)

lemma wstep_new_ack:
  "wstep q w w' \<Longrightarrow> MAck t j m \<in> ms w' \<Longrightarrow> MAck t j m \<in> ms w \<or>
     (t = trm w j \<and> t = trm w' j \<and>
       (p_role (procs w' j) = PLeader \<and> m = length (lg_of w' j) \<and> ld w' = (ld w)(t \<mapsto> (j, lg_of w' j)) \<or>
        (\<exists>k kt es c. MAppend t k kt es c \<in> ms w \<and> k \<le> length (lg_of w j) \<and> lterm (lg_of w j) k = kt \<and>
           ld w' = ld w \<and> lg_of w' j = merge_log k es (lg_of w j) \<and> m = k + length es)))"
  by (erule wstep.cases, erule pstep.cases) (auto split: if_splits)

lemma wstep_new_lead:
  "wstep q w w' \<Longrightarrow> MLead t c \<in> ms w' \<Longrightarrow> MLead t c \<in> ms w \<or> (\<exists>L. ld w' t = Some (c, L))"
  by (erule wstep.cases, erule pstep.cases) auto

lemma wstep_log:
  "wstep q w w' \<Longrightarrow> lg_of w' j = lg_of w j \<or>
     (p_role (procs w j) = PLeader \<and> p_role (procs w' j) = PLeader \<and> trm w' j = trm w j \<and>
        (\<exists>e. lg_of w' j = lg_of w j @ [e] \<and> entry_term e = trm w j \<and> ld w' = (ld w)(trm w j \<mapsto> (j, lg_of w' j)))) \<or>
     (trm w' j = trm w j \<and> (\<exists>z k kt es c. MAppend (trm w j) k kt es c \<in> ms w \<and> k \<le> length (lg_of w j) \<and>
        lterm (lg_of w j) k = kt \<and> ld w' = ld w \<and> lg_of w' j = merge_part z k es (lg_of w j)))"
  by (erule wstep.cases, erule pstep.cases) (auto simp: merge_log_part split: if_splits)

lemma wstep_commit:
  "wstep q w w' \<Longrightarrow> p_commit (procs w' j) \<le> p_commit (procs w j) \<or>
     (trm w' j = trm w j \<and> lg_of w' j = lg_of w j \<and> ld w' = ld w \<and> p_role (procs w j) = PLeader \<and>
       (\<exists>Q c. q Q \<and> (\<forall>i \<in> Q. \<exists>m \<ge> c. MAck (trm w j) i m \<in> ms w) \<and> 0 < c \<and> c \<le> length (lg_of w j) \<and>
          lterm (lg_of w j) c = trm w j \<and> p_commit (procs w' j) = max (p_commit (procs w j)) c \<and>
          MCommit (trm w j) c (take c (lg_of w j)) \<in> ms w')) \<or>
     (trm w' j = trm w j \<and> (\<exists>k kt es c. MAppend (trm w j) k kt es c \<in> ms w \<and> k \<le> length (lg_of w j) \<and>
        lterm (lg_of w j) k = kt \<and> ld w' = ld w \<and> lg_of w' j = merge_log k es (lg_of w j) \<and>
        p_commit (procs w' j) = max (p_commit (procs w j)) (min c (k + length es))))"
  by (erule wstep.cases, erule pstep.cases) (auto split: if_splits)

lemma wstep_new_commit:
  "wstep q w w' \<Longrightarrow> MCommit u c lg \<in> ms w' \<Longrightarrow> MCommit u c lg \<in> ms w \<or>
     (\<exists>i Q. p_role (procs w i) = PLeader \<and> u = trm w i \<and> u = trm w' i \<and> lg = take c (lg_of w i) \<and> ld w' = ld w \<and>
        q Q \<and> (\<forall>j \<in> Q. \<exists>m \<ge> c. MAck u j m \<in> ms w) \<and> 0 < c \<and> c \<le> length (lg_of w i) \<and>
        lterm (lg_of w i) c = u \<and> c \<le> p_commit (procs w' i))"
  by (erule wstep.cases, erule pstep.cases) (auto split: if_splits, blast)

lemma wstep_leader_commit:
  "wstep q w w' \<Longrightarrow> p_role (procs w' i) = PLeader \<Longrightarrow> trm w' i = trm w i \<and>
     (p_role (procs w i) = PLeader \<and> p_commit (procs w i) \<le> p_commit (procs w' i) \<or> p_role (procs w i) = PCandidate)"
  by (erule wstep.cases, erule pstep.cases) (auto split: if_splits)

lemma wstep_led_weak:
  "wstep q w w' \<Longrightarrow> ld w' = ld w \<or>
     (\<exists>i. p_role (procs w' i) = PLeader \<and> trm w' i = trm w i \<and> ld w' = (ld w)(trm w i \<mapsto> (i, lg_of w' i)) \<and>
        (p_role (procs w i) = PLeader \<or> (\<exists>Q. q Q \<and> (\<forall>j \<in> Q. \<exists>lg. MVote (trm w i) j i lg \<in> ms w))))"
  by (erule wstep.cases, erule pstep.cases) auto

lemma inv_votesD:
  assumes "inv_votes w"
  shows "MVote t j c lg \<in> ms w \<Longrightarrow> t \<le> trm w j"
    and "MVote t j c lg \<in> ms w \<Longrightarrow> t = trm w j \<Longrightarrow> p_vote (procs w j) = Some c"
    and "MVote t j c lg \<in> ms w \<Longrightarrow> MVote t j c' lg' \<in> ms w \<Longrightarrow> c = c'"
    and "MVoteReq t c lg \<in> ms w \<Longrightarrow> t \<le> trm w c"
    and "MVoteReq t c lg \<in> ms w \<Longrightarrow> MVoteReq t c lg' \<in> ms w \<Longrightarrow> lg = lg'"
    and "MVote t j c lg \<in> ms w \<Longrightarrow> \<exists>a. MVoteReq t c a \<in> ms w \<and> up_to_date a lg"
    and "p_role (procs w i) = PCandidate \<Longrightarrow> MVoteReq (trm w i) i (lg_of w i) \<in> ms w"
  using assms unfolding inv_votes_def by (fast, fast, fast, fast, fast, fast, fast)

lemma inv_ledD:
  assumes "inv_led q w"
  shows "ld w t = Some (c, L) \<Longrightarrow> \<exists>Q. q Q \<and> (\<forall>j \<in> Q. \<exists>lg. MVote t j c lg \<in> ms w)"
    and "ld w t = Some (c, L) \<Longrightarrow> t \<le> trm w c"
    and "ld w t = Some (c, L) \<Longrightarrow> t = trm w c \<Longrightarrow> p_role (procs w c) \<noteq> PCandidate"
    and "ld w t = Some (c, L) \<Longrightarrow> t = trm w c \<Longrightarrow> p_role (procs w c) = PLeader \<Longrightarrow> lg_of w c = L"
    and "p_role (procs w i) = PLeader \<Longrightarrow> \<exists>L. ld w (trm w i) = Some (i, L)"
  using assms unfolding inv_led_def by (fast, fast, fast, fast, fast)

subsection \<open>Votes and leaders\<close>

text \<open>A cluster with the fixed members \<open>M\<close> and a quorum system over them.\<close>

locale raft_quorums = quorum_system quorum
  for quorum :: "node_id set \<Rightarrow> node_id set \<Rightarrow> bool" +
  fixes M :: "node_id set"
  assumes finite_M: "finite M"
begin

abbreviation "qs \<equiv> quorum M"

lemma qs_meet: "qs Q \<Longrightarrow> qs R \<Longrightarrow> \<exists>j. j \<in> Q \<and> j \<in> R"
  using quorum_meet [OF finite_M] by blast

lemma inv_votes_step:
  assumes inv: "inv_votes w" and st: "wstep qs w w'"
  shows "inv_votes w'"
proof -
  note V = inv_votesD [OF inv]
  have 1: "t \<le> trm w' j \<and> (t = trm w' j \<longrightarrow> p_vote (procs w' j) = Some c)" if "MVote t j c lg \<in> ms w'" for t j c lg
  proof (cases "MVote t j c lg \<in> ms w")
    case True
    then show ?thesis
      using V(1,2) [OF True] wstep_term [OF st, of j] wstep_vote [OF st, of j c] by auto
  next
    case False
    then show ?thesis using wstep_new_vote [OF st that] by auto
  qed
  have 2: "c = c'" if "MVote t j c lg \<in> ms w'" "MVote t j c' lg' \<in> ms w'" for t j c lg c' lg'
  proof (cases "MVote t j c lg \<in> ms w \<and> MVote t j c' lg' \<in> ms w")
    case True
    then show ?thesis using V(3) by auto
  next
    case False
    then have "t = trm w' j" using wstep_new_vote [OF st that(1)] wstep_new_vote [OF st that(2)] by auto
    with 1 [OF that(1)] 1 [OF that(2)] show ?thesis by simp
  qed
  have 3: "t \<le> trm w' c" if "MVoteReq t c lg \<in> ms w'" for t c lg
    using wstep_new_request [OF st that] V(4) [of t c lg] wstep_term [OF st, of c] by auto
  have 4: "lg = lg'" if "MVoteReq t c lg \<in> ms w'" "MVoteReq t c lg' \<in> ms w'" for t c lg lg'
    using wstep_new_request [OF st that(1)] wstep_new_request [OF st that(2)] V(4) [of t c lg]
      V(4) [of t c lg'] V(5) [of t c lg lg'] by auto
  have 5: "\<exists>a. MVoteReq t c a \<in> ms w' \<and> up_to_date a lg" if "MVote t j c lg \<in> ms w'" for t j c lg
  proof (cases "MVote t j c lg \<in> ms w")
    case True
    from V(6) [OF True] obtain a where "MVoteReq t c a \<in> ms w" "up_to_date a lg" by auto
    with wstep_msgs [OF st] show ?thesis by auto
  next
    case False
    then show ?thesis using wstep_new_vote [OF st that] by auto
  qed
  have 6: "MVoteReq (trm w' i) i (lg_of w' i) \<in> ms w'" if "p_role (procs w' i) = PCandidate" for i
    using wstep_candidate [OF st that] V(7) [of i] wstep_msgs [OF st] by auto
  show ?thesis unfolding inv_votes_def
    by (intro conjI allI impI; (elim 2 4 5 6 | simp add: 1 3)) (auto dest: 1)
qed

lemma leader_fresh:
  assumes "inv_votes w" and "inv_led qs w" and "p_role (procs w i) = PCandidate"
    and "qs Q" and "\<forall>j \<in> Q. \<exists>lg. MVote (trm w i) j i lg \<in> ms w"
  shows "ld w (trm w i) = None"
proof (rule ccontr)
  assume "ld w (trm w i) \<noteq> None"
  then obtain c L where c: "ld w (trm w i) = Some (c, L)" by auto
  from inv_ledD(1) [OF assms(2) c] obtain R where R: "qs R"
    "\<forall>j \<in> R. \<exists>lg. MVote (trm w i) j c lg \<in> ms w" by auto
  from qs_meet [OF assms(4) R(1)] obtain j where "j \<in> Q" "j \<in> R" by auto
  with assms(5) R(2) inv_votesD(3) [OF assms(1)] have "c = i" by metis
  with c assms(3) inv_ledD(3) [OF assms(2) c] show False by simp
qed

lemma led_leader: "inv_led qs w \<Longrightarrow> p_role (procs w i) = PLeader \<Longrightarrow> ld w (trm w i) = Some (i, lg_of w i)"
  using inv_ledD(4,5) [of qs w] by metis

lemma wstep_led_grows:
  assumes "inv_votes w" and "inv_led qs w" and st: "wstep qs w w'"
  shows "led_grows (ld w) (ld w')"
  using wstep_led [OF st]
proof (elim disjE exE conjE)
  fix i e assume "ld w' = (ld w)(trm w i \<mapsto> (i, lg_of w' i))"
    and "p_role (procs w i) = PLeader" and "lg_of w' i = lg_of w i @ [e]"
  with led_leader [OF assms(2)] show ?thesis by (auto intro: led_grows_append)
next
  fix i Q assume "ld w' = (ld w)(trm w i \<mapsto> (i, lg_of w' i))" and "p_role (procs w i) = PCandidate"
    and "qs Q" and "\<forall>j \<in> Q. \<exists>lg. MVote (trm w i) j i lg \<in> ms w"
  with leader_fresh [OF assms(1,2)] show ?thesis by (simp add: led_grows_new)
qed simp

lemma inv_led_step:
  assumes v: "inv_votes w" and inv: "inv_led qs w" and st: "wstep qs w w'"
  shows "inv_led qs w'"
proof -
  have A: "(\<exists>Q. qs Q \<and> (\<forall>j \<in> Q. \<exists>lg. MVote t j c lg \<in> ms w')) \<and> t \<le> trm w' c \<and>
        (t = trm w' c \<longrightarrow> p_role (procs w' c) \<noteq> PCandidate \<and>
           (p_role (procs w' c) = PLeader \<longrightarrow> lg_of w' c = L))" if "ld w' t = Some (c, L)" for t c L
  proof (cases "ld w t = Some (c, L)")
    case True
    note t = inv_ledD(2) [OF inv True] and r = inv_ledD(3) [OF inv True] and l = inv_ledD(4) [OF inv True]
    have "\<exists>Q. qs Q \<and> (\<forall>j \<in> Q. \<exists>lg. MVote t j c lg \<in> ms w')"
      using inv_ledD(1) [OF inv True] wstep_msgs [OF st] by meson
    moreover have "t \<le> trm w' c" using t wstep_term [OF st, of c] by simp
    moreover have "p_role (procs w' c) \<noteq> PCandidate" if "t = trm w' c"
      using wstep_candidate [OF st, of c] t r that wstep_term [OF st, of c] by auto
    moreover have "lg_of w' c = L" if "t = trm w' c" "p_role (procs w' c) = PLeader"
      using wstep_leader [OF st that(2)] that(1) l \<open>ld w' t = Some (c, L)\<close> by auto
    ultimately show ?thesis by blast
  next
    case False
    from False that have "ld w' \<noteq> ld w" by auto
    with wstep_led_weak [OF st] obtain i where i: "p_role (procs w' i) = PLeader" "trm w' i = trm w i" 
      "ld w' = (ld w)(trm w i \<mapsto> (i, lg_of w' i))" 
      "p_role (procs w i) = PLeader \<or> (\<exists>Q. qs Q \<and> (\<forall>j \<in> Q. \<exists>lg. MVote (trm w i) j i lg \<in> ms w))"
      by metis
    then have eq: "t = trm w i" "c = i" "L = lg_of w' i" using False that by (auto split: if_splits)
    have "\<exists>Q. qs Q \<and> (\<forall>j \<in> Q. \<exists>lg. MVote (trm w i) j i lg \<in> ms w)"
      using i(4) led_leader [OF inv, of i] inv_ledD(1) [OF inv, of "trm w i" i "lg_of w i"] by auto
    then have "\<exists>Q. qs Q \<and> (\<forall>j \<in> Q. \<exists>lg. MVote (trm w i) j i lg \<in> ms w')" using wstep_msgs [OF st] by meson
    with eq i show ?thesis by simp
  qed
  have "\<exists>L. ld w' (trm w' i) = Some (i, L)" if "p_role (procs w' i) = PLeader" for i
    using wstep_leader [OF st that] led_leader [OF inv, of i] wstep_led_grows [OF v inv st]
    unfolding led_grows_def by metis
  with A show ?thesis unfolding inv_led_def by fast
qed

end

subsection \<open>Logs, batches and acknowledgements\<close>

lemma inv_logsD:
  assumes "inv_logs w"
  shows "wf_log (ld w) (lg_of w i)"
    and "e \<in> set (lg_of w i) \<Longrightarrow> entry_term e \<le> trm w i"
    and "MVoteReq t c lg \<in> ms w \<Longrightarrow> wf_log (ld w) lg"
    and "MVoteReq t c lg \<in> ms w \<Longrightarrow> e \<in> set lg \<Longrightarrow> entry_term e < t"
    and "MVote t j c lg \<in> ms w \<Longrightarrow> wf_log (ld w) lg"
    and "ld w t = Some (c, L) \<Longrightarrow> wf_log (ld w) L"
    and "ld w t = Some (c, L) \<Longrightarrow> sorted (map entry_term L)"
    and "ld w t = Some (c, L) \<Longrightarrow> e \<in> set L \<Longrightarrow> entry_term e \<le> t"
  using assms unfolding inv_logs_def by (fast, fast, fast, fast, fast, fast, fast, fast)

lemma inv_appendsD:
  assumes "inv_appends w"
  shows "MAppend t k kt es c \<in> ms w \<Longrightarrow> \<exists>d L. ld w t = Some (d, L) \<and> k + length es \<le> length L \<and>
      es = take (length es) (drop k L) \<and> kt = lterm L k"
    and "MAck t j m \<in> ms w \<Longrightarrow> t \<le> trm w j"
    and "MAck t j m \<in> ms w \<Longrightarrow> \<exists>d L. ld w t = Some (d, L) \<and> m \<le> length L \<and>
      (t = trm w j \<longrightarrow> m \<le> length (lg_of w j) \<and> take m (lg_of w j) = take m L)"
  using assms unfolding inv_appends_def by (fast, fast, fast)

lemma wf_log_sorted:
  assumes "wf_log T lg" and "\<And>t c L. T t = Some (c, L) \<Longrightarrow> sorted (map entry_term L)"
  shows "sorted (map entry_term lg)"
proof (cases lg rule: rev_cases)
  case (snoc xs x)
  let ?k = "length lg - 1"
  have k: "?k < length lg" "Suc ?k = length lg" using snoc by simp_all
  from wf_log_ex [OF assms(1) k(1)] obtain c L where L: "T (entry_term (lg ! ?k)) = Some (c, L)" by auto
  from wf_logD(2) [OF assms(1) k(1) L] k(2) have "lg = take (length lg) L" by simp
  then have "map entry_term lg = take (length lg) (map entry_term L)" by (metis take_map)
  with sorted_wrt_take [OF assms(2) [OF L]] show ?thesis by metis
qed simp

text \<open>The consistency check of a batch makes the logs agree up to the batch.\<close>

lemma consistency_check:
  assumes "wf_log T lg" and "wf_log T L" and "k \<le> length lg" and "k \<le> length L"
    and "lterm lg k = lterm L k"
  shows "take k lg = take k L"
proof (cases k)
  case (Suc n)
  with assms show ?thesis using log_matching_take [of T lg L n] by (simp add: lterm_def)
qed simp

lemma accepted_part:
  assumes "inv_logs w" and "inv_appends w" and "MAppend t k kt es c \<in> ms w"
    and "k \<le> length (lg_of w j)" and "lterm (lg_of w j) k = kt"
  obtains d L where "ld w t = Some (d, L)" and "k + length es \<le> length L"
    and "es = take (length es) (drop k L)" and "take k (lg_of w j) = take k L"
    and "wf_log (ld w) (merge_part z k es (lg_of w j))"
    and "\<And>m. m \<le> length (lg_of w j) \<Longrightarrow> m \<le> length L \<Longrightarrow> take m (lg_of w j) = take m L \<Longrightarrow>
      m \<le> length (merge_part z k es (lg_of w j)) \<and> take m (merge_part z k es (lg_of w j)) = take m L"
    and "set (merge_part z k es (lg_of w j)) \<subseteq> set (lg_of w j) \<union> set L"
proof -
  from inv_appendsD(1) [OF assms(2,3)] obtain d L where L: "ld w t = Some (d, L)"
    "k + length es \<le> length L" "es = take (length es) (drop k L)" "kt = lterm L k" by auto
  note wf = inv_logsD(1) [OF assms(1), of j] inv_logsD(6) [OF assms(1) L(1)]
  have t: "take k (lg_of w j) = take k L"
    using consistency_check [OF wf assms(4)] L assms(5) by simp
  from merge_part_agrees [OF wf assms(4) t L(3,2)] that [OF L(1-3) t] show ?thesis by blast
qed

lemma accepted_batch:
  assumes "inv_logs w" and "inv_appends w" and "MAppend t k kt es c \<in> ms w"
    and "k \<le> length (lg_of w j)" and "lterm (lg_of w j) k = kt"
  obtains d L where "ld w t = Some (d, L)" and "k + length es \<le> length L"
    and "k + length es \<le> length (merge_log k es (lg_of w j))"
    and "take (k + length es) (merge_log k es (lg_of w j)) = take (k + length es) L"
proof -
  from accepted_part [OF assms, of 0] obtain d L where L: "ld w t = Some (d, L)" "k + length es \<le> length L"
    "es = take (length es) (drop k L)" "take k (lg_of w j) = take k L" by metis
  from merge_log_agrees [OF inv_logsD(1) [OF assms(1), of j] inv_logsD(6) [OF assms(1) L(1)] assms(4) L(4,3,2)]
    that [OF L(1,2)] show ?thesis by blast
qed

context raft_quorums
begin

lemma inv_logs_step:
  assumes v: "inv_votes w" and l: "inv_led qs w" and inv: "inv_logs w" and a: "inv_appends w"
    and st: "wstep qs w w'"
  shows "inv_logs w'"
proof -
  note G = wstep_led_grows [OF v l st]
  note I = inv_logsD [OF inv]
  have sorted: "sorted (map entry_term (lg_of w i))" for i
    using wf_log_sorted [OF I(1)] I(7) by blast
  have led: "wf_log (ld w') L \<and> sorted (map entry_term L) \<and> (\<forall>e \<in> set L. entry_term e \<le> t)"
    if "ld w' t = Some (c, L)" for t c L
  proof (cases "ld w t = Some (c, L)")
    case True
    show ?thesis using wf_log_grows [OF I(6) [OF True] G] I(7) [OF True] I(8) [OF True] by blast
  next
    case False
    with that have "ld w' \<noteq> ld w" by auto
    with wstep_led [OF st] obtain i where i: "ld w' = (ld w)(trm w i \<mapsto> (i, lg_of w' i))"
      and c: "lg_of w' i = lg_of w i \<or> (\<exists>e. lg_of w' i = lg_of w i @ [e] \<and> entry_term e = trm w i)"
      by fast
    with that False have t: "t = trm w i" "L = lg_of w' i" "c = i" by (auto split: if_splits)
    from c show ?thesis
    proof
      assume "lg_of w' i = lg_of w i"
      with wf_log_grows [OF I(1) G, of i] sorted [of i] I(2) [of _ i] t show ?thesis by simp
    next
      assume "\<exists>e. lg_of w' i = lg_of w i @ [e] \<and> entry_term e = trm w i"
      then obtain e where e: "lg_of w' i = lg_of w i @ [e]" "entry_term e = trm w i" by auto
      have "wf_log (ld w') (lg_of w i @ [e])"
        using wf_log_grows [OF I(1) G, of i] i e by (intro wf_log_snoc) simp_all
      with e sorted [of i] I(2) [of _ i] t show ?thesis by (auto simp: sorted_append)
    qed
  qed
  have logs: "wf_log (ld w') (lg_of w' i) \<and> (\<forall>e \<in> set (lg_of w' i). entry_term e \<le> trm w' i)" for i
    using wstep_log [OF st, of i]
  proof (elim disjE conjE exE)
    assume "lg_of w' i = lg_of w i"
    then show ?thesis using wf_log_grows [OF I(1) G, of i] I(2) [of _ i] wstep_term [OF st, of i]
      by fastforce
  next
    fix e assume "trm w' i = trm w i" "ld w' = (ld w)(trm w i \<mapsto> (i, lg_of w' i))"
    then show ?thesis using led [of "trm w i" i "lg_of w' i"] by simp
  next
    fix z k kt es c
    assume acc: "MAppend (trm w i) k kt es c \<in> ms w" "k \<le> length (lg_of w i)" "lterm (lg_of w i) k = kt"
      and "trm w' i = trm w i" "ld w' = ld w" "lg_of w' i = merge_part z k es (lg_of w i)"
    with accepted_part [OF inv a acc, of z] I(2) [of _ i] I(8) [of "trm w i"] show ?thesis
      by (metis UnE subsetD)
  qed
  have req: "wf_log (ld w') lg \<and> (\<forall>e \<in> set lg. entry_term e < t)" if "MVoteReq t c lg \<in> ms w'" for t c lg
    using wstep_new_request [OF st that]
  proof (elim disjE conjE)
    assume "MVoteReq t c lg \<in> ms w"
    then show ?thesis using I(3,4) wf_log_grows [OF _ G] by blast
  next
    assume "trm w c < t" "lg = lg_of w c"
    then show ?thesis using wf_log_grows [OF I(1) G, of c] I(2) [of _ c] by fastforce
  qed
  have "wf_log (ld w') lg" if "MVote t j c lg \<in> ms w'" for t j c lg
    using wstep_new_vote [OF st that] I(5) [of t j c lg] I(1) [of j] wf_log_grows [OF _ G] by auto
  with led logs req show ?thesis unfolding inv_logs_def by fast
qed

lemma inv_appends_step:
  assumes v: "inv_votes w" and l: "inv_led qs w" and lg: "inv_logs w" and inv: "inv_appends w"
    and st: "wstep qs w w'"
  shows "inv_appends w'"
proof -
  note G = wstep_led_grows [OF v l st, unfolded led_grows_def, rule_format]
  have app: "\<exists>d L. ld w' t = Some (d, L) \<and> k + length es \<le> length L \<and>
           es = take (length es) (drop k L) \<and> kt = lterm L k" if "MAppend t k kt es c \<in> ms w'" for t k kt es c
  proof (cases "MAppend t k kt es c \<in> ms w")
    case True
    from inv_appendsD(1) [OF inv True] obtain d L where L: "ld w t = Some (d, L)"
      "k + length es \<le> length L" "es = take (length es) (drop k L)" "kt = lterm L k" by auto
    from G [OF L(1)] obtain L' where "ld w' t = Some (d, L @ L')" by auto
    with L show ?thesis by (auto simp: lterm_def nth_append)
  next
    case False
    with wstep_new_append [OF st that] obtain i m where i: "p_role (procs w i) = PLeader" "t = trm w i"
      "k \<le> length (lg_of w i)" "kt = lterm (lg_of w i) k" "es = take m (drop k (lg_of w i))" "ld w' = ld w" by auto
    with led_leader [OF l i(1)] show ?thesis by (auto simp: min_def)
  qed
  have ack: "t \<le> trm w' j \<and> (\<exists>d L. ld w' t = Some (d, L) \<and> m \<le> length L \<and>
           (t = trm w' j \<longrightarrow> m \<le> length (lg_of w' j) \<and> take m (lg_of w' j) = take m L))"
    if "MAck t j m \<in> ms w'" for t j m
  proof (cases "MAck t j m \<in> ms w")
    case True
    note T = inv_appendsD(2) [OF inv True] wstep_term [OF st, of j]
    from inv_appendsD(3) [OF inv True] obtain d L where L: "ld w t = Some (d, L)" "m \<le> length L"
      "t = trm w j \<Longrightarrow> m \<le> length (lg_of w j) \<and> take m (lg_of w j) = take m L" by auto
    from G [OF L(1)] obtain L' where L': "ld w' t = Some (d, L @ L')" by auto
    have "m \<le> length (lg_of w' j) \<and> take m (lg_of w' j) = take m L" if t: "t = trm w' j"
      using wstep_log [OF st, of j]
    proof (elim disjE conjE exE)
      assume "lg_of w' j = lg_of w j"
      with t T L(3) show ?thesis by simp
    next
      fix e assume "trm w' j = trm w j" "lg_of w' j = lg_of w j @ [e]"
      with t L(3) show ?thesis by simp
    next
      fix z k kt es c
      assume acc: "MAppend (trm w j) k kt es c \<in> ms w" "k \<le> length (lg_of w j)" "lterm (lg_of w j) k = kt"
        and e: "trm w' j = trm w j" "lg_of w' j = merge_part z k es (lg_of w j)"
      from accepted_part [OF lg inv acc, of z] obtain d' Lt where
        Lt: "ld w (trm w j) = Some (d', Lt)"
        "\<And>m. m \<le> length (lg_of w j) \<Longrightarrow> m \<le> length Lt \<Longrightarrow> take m (lg_of w j) = take m Lt \<Longrightarrow>
          m \<le> length (merge_part z k es (lg_of w j)) \<and> take m (merge_part z k es (lg_of w j)) = take m Lt"
        by metis
      with t e L show ?thesis by simp
    qed
    with T L L' show ?thesis by simp
  next
    case False
    from wstep_new_ack [OF st that] False have t: "t = trm w j" "t = trm w' j" by auto
    from wstep_new_ack [OF st that] False consider
      "m = length (lg_of w' j)" "ld w' = (ld w)(t \<mapsto> (j, lg_of w' j))"
      | k kt es c where "MAppend t k kt es c \<in> ms w" "k \<le> length (lg_of w j)" "lterm (lg_of w j) k = kt"
          "ld w' = ld w" "lg_of w' j = merge_log k es (lg_of w j)" "m = k + length es" by metis
    then show ?thesis
    proof cases
      case 1
      with t show ?thesis by simp
    next
      case (2 k kt es c)
      from accepted_batch [OF lg inv 2(1-3)] obtain d L where "ld w t = Some (d, L)"
        "k + length es \<le> length L" "k + length es \<le> length (merge_log k es (lg_of w j))"
        "take (k + length es) (merge_log k es (lg_of w j)) = take (k + length es) L" by metis
      with 2 t show ?thesis by simp
    qed
  qed
  from app ack show ?thesis unfolding inv_appends_def by fast
qed

end

subsection \<open>Prefixes that may be chosen\<close>

lemma choosableD:
  assumes "choosable q w t L m"
  shows "\<exists>c. ld w t = Some (c, L)" and "0 < m" and "m \<le> length L" and "lterm L m = t"
    and "\<exists>Q. q Q \<and> (\<forall>j \<in> Q. trm w j \<le> t \<or> (\<exists>m' \<ge> m. MAck t j m' \<in> ms w))"
  using assms unfolding choosable_def by (fast, fast, fast, fast, fast)

lemma inv_chooseD:
  assumes "inv_choose q w" and "choosable q w t L m"
  shows "MAck t j m' \<in> ms w \<Longrightarrow> m \<le> m' \<Longrightarrow> m \<le> length (lg_of w j) \<and> take m (lg_of w j) = take m L"
    and "MVote t' j c lg \<in> ms w \<Longrightarrow> t < t' \<Longrightarrow> MAck t j m' \<in> ms w \<Longrightarrow> m \<le> m' \<Longrightarrow>
      m \<le> length lg \<and> take m lg = take m L"
    and "ld w t' = Some (c', L') \<Longrightarrow> t < t' \<Longrightarrow> m \<le> length L' \<and> take m L' = take m L"
  using assms unfolding inv_choose_def by (fast, fast, fast)

text \<open>The last entry of a log and the log of the leader that created it.\<close>

lemma wf_log_last:
  assumes "wf_log T lg" and "lg \<noteq> []"
  obtains c L where "T (lterm lg (length lg)) = Some (c, L)" and "length lg \<le> length L"
    and "\<And>m. m \<le> length lg \<Longrightarrow> take m lg = take m L"
proof -
  let ?k = "length lg - 1"
  have k: "?k < length lg" "Suc ?k = length lg" using assms(2) by (cases lg; simp)+
  from wf_log_ex [OF assms(1) k(1)] obtain c L where L: "T (entry_term (lg ! ?k)) = Some (c, L)" by auto
  from that [of c L] wf_logD [OF assms(1) k(1) L] k L assms(2) show ?thesis
    by (simp add: lterm_def)
qed

lemma lterm_mono:
  assumes "sorted (map entry_term lg)" and "0 < m" and "m \<le> n" and "n \<le> length lg"
  shows "lterm lg m \<le> lterm lg n"
  using sorted_nth_mono [OF assms(1), of "m - 1" "n - 1"] assms(2-4) by (simp add: lterm_def)

lemma lterm_take: "m \<le> n \<Longrightarrow> n \<le> length a \<Longrightarrow> n \<le> length b \<Longrightarrow> take n a = take n b \<Longrightarrow> lterm a m = lterm b m"
  using take_eq_nth [of n a b "m - 1"] by (auto simp: lterm_def)

text \<open>The election restriction: a log at least as up to date as one that holds a prefix of a leader's log
  ending in the leader's own term holds that prefix too, provided all leaders in between do.\<close>

lemma up_to_date_holds:
  assumes wf: "wf_log T a" "wf_log T b" and ud: "up_to_date a b"
    and s: "\<And>t c L. T t = Some (c, L) \<Longrightarrow> sorted (map entry_term L)"
    and L: "T t = Some (c, L)" and Lt: "\<forall>e \<in> set L. entry_term e \<le> t"
    and m: "0 < m" "m \<le> length L" "lterm L m = t"
    and b: "m \<le> length b" "take m b = take m L"
    and between: "\<And>u d Lu. T u = Some (d, Lu) \<Longrightarrow> t < u \<Longrightarrow> u \<le> lterm a (length a) \<Longrightarrow>
      m \<le> length Lu \<and> take m Lu = take m L"
  shows "m \<le> length a \<and> take m a = take m L"
proof -
  have bn: "b \<noteq> []" using m b by auto
  have "lterm b m = t" using lterm_take [of m m b L] b m by simp
  moreover have "sorted (map entry_term b)" by (rule wf_log_sorted [OF wf(2)]) (rule s)
  ultimately have tb: "t \<le> lterm b (length b)"
    using lterm_mono [of b m "length b"] m b by simp
  show ?thesis
  proof (cases "lterm b (length b) = lterm a (length a)")
    case True
    with ud b have len: "m \<le> length a" by (simp add: up_to_date_def)
    then have "a \<noteq> []" using m by auto
    from wf_log_last [OF wf(2) bn] obtain d Lu where Lu: "T (lterm b (length b)) = Some (d, Lu)"
      "\<And>m. m \<le> length b \<Longrightarrow> take m b = take m Lu" by metis
    from wf_log_last [OF wf(1) \<open>a \<noteq> []\<close>] Lu(1) True
    have "\<And>m. m \<le> length a \<Longrightarrow> take m a = take m Lu" by (metis option.inject prod.inject)
    with Lu(2) b len show ?thesis by metis
  next
    case False
    with ud tb have u: "t < lterm a (length a)" by (auto simp: up_to_date_def)
    then have "a \<noteq> []" by (auto simp: lterm_def)
    from wf_log_last [OF wf(1) this] obtain d Lu where Lu: "T (lterm a (length a)) = Some (d, Lu)"
      "length a \<le> length Lu" "\<And>m. m \<le> length a \<Longrightarrow> take m a = take m Lu" by metis
    from between [OF Lu(1) u] have B: "m \<le> length Lu" "take m Lu = take m L" by auto
    have "m \<le> length a"
    proof (rule ccontr)
      assume "\<not> m \<le> length a"
      then have "take (length a) a = take (length a) L"
        using Lu(3) [of "length a"] take_eq_mono [OF B(2), of "length a"] by simp
      then have "lterm a (length a) = lterm L (length a)"
        using \<open>\<not> m \<le> length a\<close> m by (intro lterm_take [of _ "length a"]) auto
      also have "\<dots> \<le> t"
        using \<open>\<not> m \<le> length a\<close> m Lt by (simp add: lterm_def)
      finally show False using u by simp
    qed
    with Lu(3) B show ?thesis by metis
  qed
qed

lemma wstep_choosable:
  assumes st: "wstep q w w'" and ch: "choosable q w' t L m"
    and L0: "ld w t = Some (c, L0)" "m \<le> length L0" "take m L0 = take m L"
  shows "choosable q w t L0 m"
proof -
  from choosableD(5) [OF ch] obtain Q where Q: "q Q"
    "\<forall>j \<in> Q. trm w' j \<le> t \<or> (\<exists>m' \<ge> m. MAck t j m' \<in> ms w')" by auto
  have "trm w j \<le> t \<or> (\<exists>m' \<ge> m. MAck t j m' \<in> ms w)" if "j \<in> Q" for j
    using bspec [OF Q(2) that]
  proof (elim disjE exE conjE)
    assume "trm w' j \<le> t"
    then show ?thesis using wstep_term [OF st, of j] by simp
  next
    fix m' assume "m \<le> m'" "MAck t j m' \<in> ms w'"
    with wstep_new_ack [OF st] show ?thesis by fastforce
  qed
  moreover have "lterm L0 m = t"
    using choosableD(3,4) [OF ch] lterm_take [of m m L0 L] L0 by simp
  ultimately show ?thesis
    unfolding choosable_def using choosableD(2) [OF ch] L0 Q(1) by blast
qed

context raft_quorums
begin

lemma choosable_cases:
  assumes v: "inv_votes w" and l: "inv_led qs w" and lg: "inv_logs w" and st: "wstep qs w w'"
    and ch: "choosable qs w' t L m"
  obtains
    (old) c L0 where "choosable qs w t L0 m" and "take m L0 = take m L" and "ld w' t = Some (c, L)"
  | (new) c L0 where "ld w t = Some (c, L0)" and "m = length L" and "length L = Suc (length L0)"
      and "ms w' \<subseteq> ms w \<union> {MAck t c (length L), MLead t c}" and "lg_of w' c = L"
      and "\<And>j. trm w' j = trm w j" and "trm w c = t" and "\<forall>u > t. ld w' u = ld w u"
proof -
  from choosableD(1) [OF ch] obtain c where L: "ld w' t = Some (c, L)" by auto
  have keep: thesis if "ld w t = Some (c, L0)" "m \<le> length L0" "take m L0 = take m L" for L0
    using old [OF wstep_choosable [OF st ch that] that(3) L] .
  show thesis
  proof (cases "ld w t = Some (c, L)")
    case True
    then show thesis using keep choosableD(3) [OF ch] by blast
  next
    case False
    from False L have "ld w' \<noteq> ld w" by auto
    with wstep_led [OF st] obtain i where i: "trm w' i = trm w i"
      "ld w' = (ld w)(trm w i \<mapsto> (i, lg_of w' i))" "\<forall>j. j \<noteq> i \<longrightarrow> procs w' j = procs w j"
      "ms w' \<subseteq> ms w \<union> {MAck (trm w i) i (length (lg_of w' i)), MLead (trm w i) i}"
      and k: "(p_role (procs w i) = PCandidate \<and> lg_of w' i = lg_of w i) \<or>
        (p_role (procs w i) = PLeader \<and> (\<exists>e. lg_of w' i = lg_of w i @ [e]))" by fast
    from False L i(2) have t: "t = trm w i" "c = i" "L = lg_of w' i" by (auto split: if_splits)
    from k show thesis
    proof (elim disjE conjE exE)
      assume r: "p_role (procs w i) = PCandidate" and "lg_of w' i = lg_of w i"
      with choosableD(2-4) [OF ch] t have "lg_of w i ! (m - 1) \<in> set (lg_of w i)"
        "entry_term (lg_of w i ! (m - 1)) = trm w i" by (auto simp: lterm_def)
      with inv_logsD(4) [OF lg inv_votesD(7) [OF v r]] show thesis by force
    next
      fix e assume "p_role (procs w i) = PLeader" and e: "lg_of w' i = lg_of w i @ [e]"
      from led_leader [OF l this(1)] t have L0: "ld w t = Some (c, lg_of w i)" by simp
      show thesis
      proof (cases "m \<le> length (lg_of w i)")
        case True
        then show thesis using keep [OF L0] e t by simp
      next
        case False
        with choosableD(3) [OF ch] e t have "m = length L" by simp
        moreover have "trm w' j = trm w j" for j using i(1,3) by (cases "j = i") auto
        ultimately show thesis using new [OF L0] e t i by simp
      qed
    qed
  qed
qed


lemma choose_new:
  assumes l: "inv_led qs w" and v: "inv_votes w" and a: "inv_appends w" and ch: "choosable qs w' t L m"
    and L0: "ld w t = Some (c, L0)" and m: "m = length L" "length L = Suc (length L0)"
    and msg: "ms w' \<subseteq> ms w \<union> {MAck t c (length L), MLead t c}" and lgc: "lg_of w' c = L"
    and trm: "\<And>j. trm w' j = trm w j" and tc: "trm w c = t"
    and ld: "\<forall>u > t. ld w' u = ld w u"
  shows "MAck t j m' \<in> ms w' \<Longrightarrow> m \<le> m' \<Longrightarrow> m \<le> length (lg_of w' j) \<and> take m (lg_of w' j) = take m L"
    and "MVote t' j c' lg \<in> ms w' \<Longrightarrow> t < t' \<Longrightarrow> MAck t j m' \<in> ms w' \<Longrightarrow> m \<le> m' \<Longrightarrow>
      m \<le> length lg \<and> take m lg = take m L"
    and "ld w' t' = Some (c', L') \<Longrightarrow> t < t' \<Longrightarrow> m \<le> length L' \<and> take m L' = take m L"
proof -
  have who: "j = c" if "MAck t j m' \<in> ms w'" "m \<le> m'" for j m'
  proof (rule ccontr)
    assume "j \<noteq> c"
    with that msg have "MAck t j m' \<in> ms w" by auto
    from inv_appendsD(3) [OF a this] L0 that(2) m show False by auto
  qed
  show "m \<le> length (lg_of w' j) \<and> take m (lg_of w' j) = take m L"
    if "MAck t j m' \<in> ms w'" "m \<le> m'" for j m'
    using who [OF that] lgc m by simp
  show "m \<le> length lg \<and> take m lg = take m L"
    if vt: "MVote t' j c' lg \<in> ms w'" and "t < t'" and "MAck t j m' \<in> ms w'" "m \<le> m'" for t' j c' lg m'
  proof -
    from vt msg have "MVote t' j c' lg \<in> ms w" by auto
    from inv_votesD(1) [OF v this] who that tc have False by auto
    then show ?thesis ..
  qed
  show "m \<le> length L' \<and> take m L' = take m L" if "ld w' t' = Some (c', L')" and t': "t < t'" for t' c' L'
  proof -
    from that ld have "ld w t' = Some (c', L')" by simp
    from inv_ledD(1) [OF l this] obtain R where R: "qs R" "\<forall>j \<in> R. \<exists>lg. MVote t' j c' lg \<in> ms w" by auto
    from choosableD(5) [OF ch] obtain Q where Q: "qs Q"
      "\<forall>j \<in> Q. trm w' j \<le> t \<or> (\<exists>m' \<ge> m. MAck t j m' \<in> ms w')" by auto
    from qs_meet [OF Q(1) R(1)] obtain j where j: "j \<in> Q" "j \<in> R" by auto
    from j R(2) inv_votesD(1) [OF v] have "t' \<le> trm w j" by auto
    moreover from j Q(2) who trm tc have "trm w j \<le> t" by (metis order_refl)
    ultimately show ?thesis using t' by simp
  qed
qed

lemma choose_old:
  assumes v: "inv_votes w" and l: "inv_led qs w" and lg: "inv_logs w" and a: "inv_appends w"
    and inv: "inv_choose qs w" and st: "wstep qs w w'"
    and ch: "choosable qs w t L0 m" and L0: "take m L0 = take m L"
    and L: "ld w' t = Some (c, L)" and mL: "m \<le> length L"
  shows "MAck t j m' \<in> ms w' \<Longrightarrow> m \<le> m' \<Longrightarrow> m \<le> length (lg_of w' j) \<and> take m (lg_of w' j) = take m L"
    and "MVote t' j c' b \<in> ms w' \<Longrightarrow> t < t' \<Longrightarrow> MAck t j m' \<in> ms w' \<Longrightarrow> m \<le> m' \<Longrightarrow>
      m \<le> length b \<and> take m b = take m L"
    and "ld w' t' = Some (c', L') \<Longrightarrow> t < t' \<Longrightarrow> m \<le> length L' \<and> take m L' = take m L"
proof -
  note I = inv_chooseD [OF inv ch, unfolded L0]
  note G = wstep_led_grows [OF v l st]
  note a' = inv_appends_step [OF v l lg a st]
  note v' = inv_votes_step [OF v st]
  from choosableD(1) [OF ch] obtain c0 where c0: "ld w t = Some (c0, L0)" by auto
  show acks: "m \<le> length (lg_of w' j) \<and> take m (lg_of w' j) = take m L"
    if "MAck t j m' \<in> ms w'" "m \<le> m'" for j m'
  proof (cases "MAck t j m' \<in> ms w")
    case True
    note O = I(1) [OF True that(2)]
    show ?thesis using wstep_log [OF st, of j]
    proof (elim disjE conjE exE)
      assume "lg_of w' j = lg_of w j"
      with O show ?thesis by simp
    next
      fix e assume "lg_of w' j = lg_of w j @ [e]"
      with O show ?thesis by simp
    next
      fix z k kt es cc
      assume acc: "MAppend (trm w j) k kt es cc \<in> ms w" "k \<le> length (lg_of w j)"
        "lterm (lg_of w j) k = kt" and e: "lg_of w' j = merge_part z k es (lg_of w j)"
      from accepted_part [OF lg a acc, of z] obtain d Lu where
        Lu: "ld w (trm w j) = Some (d, Lu)"
        "\<And>m. m \<le> length (lg_of w j) \<Longrightarrow> m \<le> length Lu \<Longrightarrow> take m (lg_of w j) = take m Lu \<Longrightarrow>
          m \<le> length (merge_part z k es (lg_of w j)) \<and> take m (merge_part z k es (lg_of w j)) = take m Lu"
        by metis
      have "m \<le> length Lu \<and> take m Lu = take m L"
      proof (cases "t < trm w j")
        case True
        then show ?thesis using I(3) [OF Lu(1)] by simp
      next
        case False
        with inv_appendsD(2) [OF a True] have "t = trm w j" by simp
        with Lu(1) c0 choosableD(3) [OF ch] L0 show ?thesis by simp
      qed
      with Lu(2) [of m] O e show ?thesis by simp
    qed
  next
    case False
    with wstep_new_ack [OF st that(1)] have "t = trm w' j" by auto
    with inv_appendsD(3) [OF a' that(1)] L have "m' \<le> length (lg_of w' j)"
      "take m' (lg_of w' j) = take m' L" by auto
    with that(2) take_eq_mono show ?thesis by auto
  qed
  show "m \<le> length b \<and> take m b = take m L"
    if vt: "MVote t' j c' b \<in> ms w'" and tt: "t < t'" and ack: "MAck t j m' \<in> ms w'" and mm: "m \<le> m'"
    for t' j c' b m'
  proof -
    have "t' \<le> trm w' j" by (rule inv_votesD(1) [OF v' vt])
    then have ack: "MAck t j m' \<in> ms w" using wstep_new_ack [OF st ack] tt by auto
    show ?thesis using wstep_new_vote [OF st vt] I(2) [OF _ tt ack mm] I(1) [OF ack mm] by auto
  qed
  show "m \<le> length L' \<and> take m L' = take m L" if L': "ld w' t' = Some (c', L')" and t': "t < t'" for t' c' L'
  proof (cases "ld w t'")
    case (Some x)
    obtain d Lu where x: "x = (d, Lu)" by (cases x)
    with Some G obtain es where "ld w' t' = Some (d, Lu @ es)" unfolding led_grows_def by blast
    with I(3) [OF Some [unfolded x] t'] L' show ?thesis by auto
  next
    case None
    with L' have "ld w' \<noteq> ld w" by auto
    with wstep_led [OF st] obtain i where i: "ld w' = (ld w)(trm w i \<mapsto> (i, lg_of w' i))"
      and k: "(p_role (procs w i) = PCandidate \<and> lg_of w' i = lg_of w i \<and>
           (\<exists>Q. qs Q \<and> (\<forall>j \<in> Q. \<exists>lg. MVote (trm w i) j i lg \<in> ms w))) \<or>
        p_role (procs w i) = PLeader" by fast
    with L' None have e: "t' = trm w i" "L' = lg_of w' i" by (auto split: if_splits)
    from k None led_leader [OF l, of i] e obtain R where r: "p_role (procs w i) = PCandidate"
      and L'i: "L' = lg_of w i" and R: "qs R" "\<forall>j \<in> R. \<exists>lg. MVote t' j i lg \<in> ms w" by auto
    from choosableD(5) [OF ch] obtain Q where Q: "qs Q"
      "\<forall>j \<in> Q. trm w j \<le> t \<or> (\<exists>m' \<ge> m. MAck t j m' \<in> ms w)" by auto
    from qs_meet [OF Q(1) R(1)] obtain j where j: "j \<in> Q" "j \<in> R" by auto
    from j R(2) obtain b where b: "MVote t' j i b \<in> ms w" by auto
    from inv_votesD(1) [OF v b] t' have "\<not> trm w j \<le> t" by simp
    with j Q(2) obtain m' where ack: "MAck t j m' \<in> ms w" "m \<le> m'" by auto
    note B = I(2) [OF b t' ack]
    from inv_votesD(6) [OF v b] obtain q where q: "MVoteReq t' i q \<in> ms w" "up_to_date q b" by auto
    have "q = L'" using inv_votesD(5) [OF v q(1)] inv_votesD(7) [OF v r] e L'i by simp
    have "m \<le> length L' \<and> take m L' = take m L0"
    proof (rule up_to_date_holds [where T = "ld w" and b = b and t = t and L = L0])
      show "wf_log (ld w) L'" using inv_logsD(1) [OF lg] L'i by simp
      show "wf_log (ld w) b" by (rule inv_logsD(5) [OF lg b])
      show "up_to_date L' b" using q \<open>q = L'\<close> by simp
      show "sorted (map entry_term L)" if "ld w u = Some (d, L)" for u d L
        by (rule inv_logsD(7) [OF lg that])
      show "ld w t = Some (c0, L0)" by (rule c0)
      show "\<forall>e \<in> set L0. entry_term e \<le> t" using inv_logsD(8) [OF lg c0] by simp
      show "0 < m" "m \<le> length L0" "lterm L0 m = t" using choosableD [OF ch] by auto
      show "m \<le> length b" "take m b = take m L0" using B L0 by auto
    qed (use inv_chooseD(3) [OF inv ch] in blast)
    with L0 show ?thesis by simp
  qed
qed

lemma inv_choose_step:
  assumes v: "inv_votes w" and l: "inv_led qs w" and lg: "inv_logs w" and a: "inv_appends w"
    and inv: "inv_choose qs w" and st: "wstep qs w w'"
  shows "inv_choose qs w'"
  unfolding inv_choose_def
proof (intro allI impI)
  fix t L m assume ch: "choosable qs w' t L m"
  show "(\<forall>j m'. MAck t j m' \<in> ms w' \<longrightarrow> m \<le> m' \<longrightarrow>
           m \<le> length (lg_of w' j) \<and> take m (lg_of w' j) = take m L) \<and>
        (\<forall>t' j c lg m'. MVote t' j c lg \<in> ms w' \<longrightarrow> t < t' \<longrightarrow> MAck t j m' \<in> ms w' \<longrightarrow> m \<le> m' \<longrightarrow>
           m \<le> length lg \<and> take m lg = take m L) \<and>
        (\<forall>t' c' L'. ld w' t' = Some (c', L') \<longrightarrow> t < t' \<longrightarrow> m \<le> length L' \<and> take m L' = take m L)"
  proof (cases rule: choosable_cases [OF v l lg st ch])
    case (1 c L0)
    note O = choose_old [OF v l lg a inv st 1 choosableD(3) [OF ch]]
    show ?thesis
      by (rule conjI, intro allI impI, erule (1) O(1), rule conjI, intro allI impI, erule (3) O(2),
        intro allI impI, erule (1) O(3))
  next
    case (2 c L0)
    note N = choose_new [OF l v a ch 2]
    show ?thesis
      by (rule conjI, intro allI impI, erule (1) N(1), rule conjI, intro allI impI, erule (3) N(2),
        intro allI impI, erule (1) N(3))
  qed
qed

end

subsection \<open>Commit indexes\<close>

lemma settledI:
  assumes "u \<le> t" "ld w u = Some (d, L)" "c \<le> m" "m \<le> length L" "lterm L m = u" "q Q"
    "\<forall>j \<in> Q. \<exists>m' \<ge> m. MAck u j m' \<in> ms w" "c \<le> length lg" "take c lg = take c L"
  shows "settled q w t lg c"
  unfolding settled_def using assms by blast

lemma settledE:
  assumes "settled q w t lg c" and "0 < c"
  obtains u d L m Q where "u \<le> t" "ld w u = Some (d, L)" "c \<le> m" "m \<le> length L" "lterm L m = u" "q Q"
    "\<forall>j \<in> Q. \<exists>m' \<ge> m. MAck u j m' \<in> ms w" "c \<le> length lg" "take c lg = take c L"
  using assms unfolding settled_def by (elim disjE) (blast | simp)+

lemma settled_0 [simp]: "settled q w t lg 0"
  by (simp add: settled_def)

lemma settled_length: "settled q w t lg c \<Longrightarrow> c \<le> length lg"
  by (auto simp: settled_def)

lemma settled_term:
  assumes "settled q w t lg c" and "t \<le> t'"
  shows "settled q w t' lg c"
proof (cases "c = 0")
  case False
  then have "0 < c" by simp
  from assms(1) this show ?thesis
  proof (rule settledE)
    fix u d L m Q
    assume "u \<le> t" and L: "ld w u = Some (d, L)" "c \<le> m" "m \<le> length L" "lterm L m = u" "q Q"
      "\<forall>j \<in> Q. \<exists>m' \<ge> m. MAck u j m' \<in> ms w" "c \<le> length lg" "take c lg = take c L"
    with assms(2) have "u \<le> t'" by simp
    from settledI [of u t' w d L c m q Q lg, OF this L] show ?thesis .
  qed
qed simp

lemma settled_less:
  assumes "settled q w t lg c" and "c' \<le> c"
  shows "settled q w t lg c'"
proof (cases "c = 0")
  case False
  then have "0 < c" by simp
  from assms(1) this show ?thesis
  proof (rule settledE)
    fix u d L m Q
    assume L: "u \<le> t" "ld w u = Some (d, L)" and c: "c \<le> m" and m: "m \<le> length L" "lterm L m = u" "q Q"
      "\<forall>j \<in> Q. \<exists>m' \<ge> m. MAck u j m' \<in> ms w" and lg: "c \<le> length lg" "take c lg = take c L"
    show ?thesis
      by (rule settledI [of u t w d L c' m q Q lg, OF L _ m _ take_eq_mono [OF lg(2) assms(2)]]) (use c lg assms(2) in simp_all)
  qed
qed (use assms in simp)

lemma settled_agree:
  assumes "settled q w t lg c" and "c \<le> length lg'" and "take c lg' = take c lg"
  shows "settled q w t lg' c"
proof (cases "c = 0")
  case False
  with assms(1) show ?thesis by (elim settledE) (use assms in \<open>auto intro!: settledI\<close>)
qed simp

lemma settled_step:
  assumes st: "wstep q w w'" and G: "led_grows (ld w) (ld w')" and s: "settled q w t lg c"
  shows "settled q w' t lg c"
proof (cases "c = 0")
  case False
  with s obtain u d L m Q where L: "u \<le> t" "ld w u = Some (d, L)" "c \<le> m" "m \<le> length L"
    "lterm L m = u" "q Q" "\<forall>j \<in> Q. \<exists>m' \<ge> m. MAck u j m' \<in> ms w" "c \<le> length lg" "take c lg = take c L"
    by (elim settledE) simp
  from G L(2) obtain es where "ld w' u = Some (d, L @ es)" unfolding led_grows_def by blast
  moreover have "\<forall>j \<in> Q. \<exists>m' \<ge> m. MAck u j m' \<in> ms w'" using L(7) wstep_msgs [OF st] by meson
  moreover have "lterm (L @ es) m = u" using L False by (auto simp: lterm_def nth_append)
  ultimately show ?thesis using L by (intro settledI [of u _ w' d "L @ es" c m q Q]) auto
qed simp

lemma inv_commitD:
  assumes "inv_commit q w"
  shows "settled q w (trm w i) (lg_of w i) (p_commit (procs w i))"
    and "MAppend t k kt es c \<in> ms w \<Longrightarrow> \<exists>d L. ld w t = Some (d, L) \<and> settled q w t L c"
  using assms unfolding inv_commit_def by (fast, fast)

lemma inv_doneD:
  assumes "inv_done q w"
  shows "MCommit u c lg \<in> ms w \<Longrightarrow> 0 < c" and "MCommit u c lg \<in> ms w \<Longrightarrow> length lg = c"
    and "MCommit u c lg \<in> ms w \<Longrightarrow> settled q w u lg c"
    and "MCommit u c lg \<in> ms w \<Longrightarrow> \<exists>d L. ld w u = Some (d, L) \<and>
      (trm w d = u \<longrightarrow> p_role (procs w d) = PLeader \<longrightarrow> c \<le> p_commit (procs w d))"
    and "0 < p_commit (procs w i) \<Longrightarrow> \<exists>u c lg. MCommit u c lg \<in> ms w \<and> u \<le> trm w i \<and> p_commit (procs w i) \<le> c"
    and "MAppend t k kt es c \<in> ms w \<Longrightarrow> 0 < c \<Longrightarrow> \<exists>u c' lg. MCommit u c' lg \<in> ms w \<and> u \<le> t \<and> c \<le> c'"
proof -
  note I = assms [unfolded inv_done_def, THEN conjunct1, rule_format]
    assms [unfolded inv_done_def, THEN conjunct2, THEN conjunct1, rule_format]
    assms [unfolded inv_done_def, THEN conjunct2, THEN conjunct2, rule_format]
  show "0 < c" "length lg = c" "settled q w u lg c" "\<exists>d L. ld w u = Some (d, L) \<and>
      (trm w d = u \<longrightarrow> p_role (procs w d) = PLeader \<longrightarrow> c \<le> p_commit (procs w d))" if "MCommit u c lg \<in> ms w"
    using I(1) [OF that] by simp_all
  show "\<exists>u c lg. MCommit u c lg \<in> ms w \<and> u \<le> trm w i \<and> p_commit (procs w i) \<le> c" if "0 < p_commit (procs w i)"
    using I(2) [OF that] .
  show "\<exists>u c' lg. MCommit u c' lg \<in> ms w \<and> u \<le> t \<and> c \<le> c'" if "MAppend t k kt es c \<in> ms w" "0 < c"
    using I(3) [OF that] .
qed

context raft_quorums
begin

text \<open>Leader completeness.\<close>

lemma settled_led:
  assumes "inv_choose qs w" and "settled qs w t lg c" and "ld w t' = Some (d', L')" and "t \<le> t'"
  shows "c \<le> length L' \<and> take c L' = take c lg"
proof (cases "c = 0")
  case False
  with assms(2) obtain u d L m Q where L: "u \<le> t" "ld w u = Some (d, L)" "c \<le> m" "m \<le> length L"
    "lterm L m = u" "qs Q" "\<forall>j \<in> Q. \<exists>m' \<ge> m. MAck u j m' \<in> ms w" "c \<le> length lg" "take c lg = take c L"
    by (elim settledE) simp
  show ?thesis
  proof (cases "u = t'")
    case True
    with L assms(3) show ?thesis by simp
  next
    case neq: False
    with L(1) assms(4) have "u < t'" by simp
    moreover have "choosable qs w u L m" unfolding choosable_def using L False by auto
    ultimately have "m \<le> length L'" "take m L' = take m L"
      using inv_chooseD(3) [OF assms(1) _ assms(3)] by auto
    with L take_eq_mono [of m L' L c] show ?thesis by simp
  qed
qed simp

text \<open>State-machine safety, for any two settled prefixes.\<close>

lemma settled_prefixes:
  assumes "inv_choose qs w" and "settled qs w t lg c" and "settled qs w t' lg' c'" and "k \<le> c" and "k \<le> c'"
  shows "take k lg = take k lg'"
proof (cases "k = 0")
  case False
  from assms False obtain u d L m Q where L: "u \<le> t" "ld w u = Some (d, L)" "c \<le> m" "m \<le> length L"
    "lterm L m = u" "qs Q" "\<forall>j \<in> Q. \<exists>m' \<ge> m. MAck u j m' \<in> ms w" "c \<le> length lg" "take c lg = take c L"
    by (elim settledE [of _ w t lg c]) simp
  from assms False obtain u' d' L' m' Q' where L': "u' \<le> t'" "ld w u' = Some (d', L')" "c' \<le> m'"
    "m' \<le> length L'" "lterm L' m' = u'" "qs Q'" "\<forall>j \<in> Q'. \<exists>n \<ge> m'. MAck u' j n \<in> ms w"
    "c' \<le> length lg'" "take c' lg' = take c' L'"
    by (elim settledE [of _ w t' lg' c']) simp
  have sL: "settled qs w u L c" using L by (intro settledI [of u u w d L c m qs Q]) auto
  have sL': "settled qs w u' L' c'" using L' by (intro settledI [of u' u' w d' L' c' m' qs Q']) auto
  have "take k L = take k L'"
  proof (cases "u \<le> u'")
    case True
    from settled_led [OF assms(1) sL L'(2) True] assms(4) take_eq_mono [of c L' L k] show ?thesis by simp
  next
    case False
    from settled_led [OF assms(1) sL' L(2)] False assms(5) take_eq_mono [of c' L L' k] show ?thesis by simp
  qed
  with take_eq_mono [OF L(9) assms(4)] take_eq_mono [OF L'(9) assms(5)] show ?thesis by simp
qed simp

lemma inv_commit_step:
  assumes v: "inv_votes w" and l: "inv_led qs w" and lg: "inv_logs w" and a: "inv_appends w"
    and ch: "inv_choose qs w" and inv: "inv_commit qs w" and st: "wstep qs w w'"
  shows "inv_commit qs w'"
proof -
  note G = wstep_led_grows [OF v l st]
  note S = settled_step [OF st G]
  note C = inv_commitD [OF inv]
  have app: "\<exists>d L. ld w' t = Some (d, L) \<and> settled qs w' t L c" if "MAppend t k kt es c \<in> ms w'" for t k kt es c
  proof (cases "MAppend t k kt es c \<in> ms w")
    case True
    from C(2) [OF True] obtain d L where L: "ld w t = Some (d, L)" "settled qs w t L c" by auto
    from G L(1) obtain xs where "ld w' t = Some (d, L @ xs)" unfolding led_grows_def by blast
    moreover have "settled qs w' t (L @ xs) c"
      using settled_agree [OF S [OF L(2)]] settled_length [OF L(2)] by simp
    ultimately show ?thesis by blast
  next
    case False
    with wstep_new_append [OF st that] obtain i where i: "p_role (procs w i) = PLeader" "t = trm w i"
      "c \<le> p_commit (procs w i)" "ld w' = ld w" by auto
    with led_leader [OF l i(1)] S [OF settled_less [OF C(1) i(3)]] show ?thesis by auto
  qed
  have keep: "settled qs w' (trm w' i) (lg_of w' i) (p_commit (procs w i))" for i
  proof -
    note P = settled_term [OF S [OF C(1) [of i]] wstep_term [OF st, of i]]
    show ?thesis using wstep_log [OF st, of i]
    proof (elim disjE conjE exE)
      assume "lg_of w' i = lg_of w i"
      with P show ?thesis by simp
    next
      fix e assume "lg_of w' i = lg_of w i @ [e]"
      with settled_agree [OF P] settled_length [OF P] show ?thesis by simp
    next
      fix z k kt es cc
      assume acc: "MAppend (trm w i) k kt es cc \<in> ms w" "k \<le> length (lg_of w i)"
        "lterm (lg_of w i) k = kt" and e: "lg_of w' i = merge_part z k es (lg_of w i)"
      from accepted_part [OF lg a acc, of z] obtain d Lu where
        Lu: "ld w (trm w i) = Some (d, Lu)"
        "\<And>m. m \<le> length (lg_of w i) \<Longrightarrow> m \<le> length Lu \<Longrightarrow> take m (lg_of w i) = take m Lu \<Longrightarrow>
          m \<le> length (merge_part z k es (lg_of w i)) \<and> take m (merge_part z k es (lg_of w i)) = take m Lu"
        by metis
      from settled_led [OF ch C(1) Lu(1)] Lu(2) [of "p_commit (procs w i)"] settled_length [OF P] e
      show ?thesis by (intro settled_agree [OF P]) auto
    qed
  qed
  have "settled qs w' (trm w' i) (lg_of w' i) (p_commit (procs w' i))" for i
    using wstep_commit [OF st, of i]
  proof (elim disjE conjE exE)
    assume "p_commit (procs w' i) \<le> p_commit (procs w i)"
    with keep [of i] show ?thesis by (rule settled_less)
  next
    fix Q c assume q: "qs Q" "\<forall>j \<in> Q. \<exists>m \<ge> c. MAck (trm w i) j m \<in> ms w" "0 < c" "c \<le> length (lg_of w i)"
      "lterm (lg_of w i) c = trm w i" and r: "p_role (procs w i) = PLeader"
      and e: "trm w' i = trm w i" "lg_of w' i = lg_of w i" "p_commit (procs w' i) = max (p_commit (procs w i)) c"
    have "settled qs w (trm w i) (lg_of w i) c"
      using q led_leader [OF l r] by (intro settledI [of "trm w i" _ w i "lg_of w i" c c]) auto
    from S [OF this] e keep [of i] show ?thesis by (simp add: max_def)
  next
    fix k kt es cc
    assume acc: "MAppend (trm w i) k kt es cc \<in> ms w" "k \<le> length (lg_of w i)"
      "lterm (lg_of w i) k = kt"
      and e: "trm w' i = trm w i" "lg_of w' i = merge_log k es (lg_of w i)"
        "p_commit (procs w' i) = max (p_commit (procs w i)) (min cc (k + length es))"
    from accepted_batch [OF lg a acc] obtain d Lu where
      Lu: "ld w (trm w i) = Some (d, Lu)" "k + length es \<le> length (merge_log k es (lg_of w i))"
      "take (k + length es) (merge_log k es (lg_of w i)) = take (k + length es) Lu" by metis
    from C(2) [OF acc(1)] Lu(1) have "settled qs w (trm w i) Lu cc" by auto
    from S [OF settled_less [OF this min.cobounded1]]
    have "settled qs w' (trm w i) (merge_log k es (lg_of w i)) (min cc (k + length es))"
      by (rule settled_agree) (use Lu(2) take_eq_mono [OF Lu(3) min.cobounded2] in simp_all)
    with e keep [of i] show ?thesis by (simp add: max_def)
  qed
  with app show ?thesis unfolding inv_commit_def by fast
qed

lemma inv_done_step:
  assumes v: "inv_votes w" and l: "inv_led qs w" and inv: "inv_done qs w" and st: "wstep qs w w'"
  shows "inv_done qs w'"
proof -
  note G = wstep_led_grows [OF v l st] and D = inv_doneD [OF inv]
  have com: "0 < c \<and> length lg = c \<and> settled qs w' u lg c \<and>
      (\<exists>d L. ld w' u = Some (d, L) \<and> (trm w' d = u \<longrightarrow> p_role (procs w' d) = PLeader \<longrightarrow> c \<le> p_commit (procs w' d)))"
    if m: "MCommit u c lg \<in> ms w'" for u c lg
    using wstep_new_commit [OF st m]
  proof (elim disjE exE conjE)
    assume m: "MCommit u c lg \<in> ms w"
    from D(4) [OF m] obtain d L where L: "ld w u = Some (d, L)"
      "trm w d = u \<Longrightarrow> p_role (procs w d) = PLeader \<Longrightarrow> c \<le> p_commit (procs w d)" by blast
    from G L(1) obtain L' where "ld w' u = Some (d, L')" unfolding led_grows_def by blast
    moreover have "c \<le> p_commit (procs w' d)" if "trm w' d = u" "p_role (procs w' d) = PLeader"
      using wstep_leader_commit [OF st that(2)] L(2) inv_ledD(3) [OF l L(1)] that(1) by auto
    ultimately show ?thesis using D(1-3) [OF m] settled_step [OF st G] by blast
  next
    fix i Q
    assume i: "p_role (procs w i) = PLeader" "u = trm w i" "lg = take c (lg_of w i)" "ld w' = ld w"
      and q: "qs Q" "\<forall>j \<in> Q. \<exists>m \<ge> c. MAck u j m \<in> ms w" "0 < c" "c \<le> length (lg_of w i)"
      "lterm (lg_of w i) c = u" "c \<le> p_commit (procs w' i)"
    note L = led_leader [OF l i(1), folded i(2)]
    have "settled qs w u lg c" using q i(3) L by (intro settledI [of u u w i "lg_of w i" c c qs Q]) simp_all
    with settled_step [OF st G] L i q show ?thesis by auto
  qed
  moreover have "\<exists>u c lg. MCommit u c lg \<in> ms w' \<and> u \<le> trm w' i \<and> p_commit (procs w' i) \<le> c"
    if pos: "0 < p_commit (procs w' i)" for i
  proof -
    have old: "\<exists>u c lg. MCommit u c lg \<in> ms w' \<and> u \<le> trm w' i \<and> x \<le> c" if "x \<le> p_commit (procs w i)" "0 < x" for x
      using D(5) [of i] that wstep_msgs [OF st] wstep_term [OF st, of i] by (meson less_le_trans order_trans)
    show ?thesis using wstep_commit [OF st, of i]
    proof (elim disjE conjE exE)
      assume "p_commit (procs w' i) \<le> p_commit (procs w i)"
      with old pos show ?thesis by blast
    next
      fix Q c
      assume "p_commit (procs w' i) = max (p_commit (procs w i)) c" "MCommit (trm w i) c (take c (lg_of w i)) \<in> ms w'"
        "trm w' i = trm w i"
      with old [of "p_commit (procs w i)"] pos show ?thesis by (cases "c \<le> p_commit (procs w i)") (auto simp: max_def)
    next
      fix k kt es cc
      assume a: "MAppend (trm w i) k kt es cc \<in> ms w" "trm w' i = trm w i"
        "p_commit (procs w' i) = max (p_commit (procs w i)) (min cc (k + length es))"
      show ?thesis
      proof (cases "p_commit (procs w' i) \<le> p_commit (procs w i)")
        case True
        with old pos show ?thesis by blast
      next
        case False
        with a(3) have "p_commit (procs w' i) \<le> cc" by simp
        moreover from this pos have "0 < cc" by simp
        ultimately show ?thesis using D(6) [OF a(1)] a(2) wstep_msgs [OF st] by (metis order_trans)
      qed
    qed
  qed
  moreover have "\<exists>u c' lg. MCommit u c' lg \<in> ms w' \<and> u \<le> t \<and> c \<le> c'"
    if m: "MAppend t k kt es c \<in> ms w'" and c: "0 < c" for t k kt es c
  proof (cases "MAppend t k kt es c \<in> ms w")
    case True
    from D(6) [OF True c] wstep_msgs [OF st] show ?thesis by meson
  next
    case False
    with wstep_new_append [OF st m] obtain i where "t = trm w i" "c \<le> p_commit (procs w i)" by auto
    with D(5) [of i] c wstep_msgs [OF st] show ?thesis by (meson less_le_trans order_trans)
  qed
  ultimately show ?thesis unfolding inv_done_def by blast
qed

lemma inv_init: "inv qs winit"
  by (simp add: inv_def winit_def inv_votes_def inv_led_def inv_logs_def inv_appends_def inv_choose_def
      choosable_def inv_commit_def inv_done_def wf_log_def)

lemma inv_step: "inv qs w \<Longrightarrow> wstep qs w w' \<Longrightarrow> inv qs w'"
  unfolding inv_def
  by (meson inv_votes_step inv_led_step inv_logs_step inv_appends_step inv_choose_step inv_commit_step
      inv_done_step)

lemma inv_steps: "(wstep qs)\<^sup>*\<^sup>* w w' \<Longrightarrow> inv qs w \<Longrightarrow> inv qs w'"
  by (induction rule: rtranclp_induct) (auto intro: inv_step)

lemma led_grows_trans: "led_grows T T' \<Longrightarrow> led_grows T' T'' \<Longrightarrow> led_grows T T''"
  unfolding led_grows_def by (metis append_assoc)

lemma steps_led_grows: "(wstep qs)\<^sup>*\<^sup>* w w' \<Longrightarrow> inv qs w \<Longrightarrow> led_grows (ld w) (ld w')"
proof (induction rule: rtranclp_induct)
  case (step v v')
  from inv_steps [OF step(1) step(4)] have "inv_votes v" "inv_led qs v" by (simp_all add: inv_def)
  from led_grows_trans [OF step(3) [OF step(4)] wstep_led_grows [OF this step(2)]] show ?case .
qed simp

lemma steps_msgs: "(wstep qs)\<^sup>*\<^sup>* w w' \<Longrightarrow> x \<in> ms w \<Longrightarrow> x \<in> ms w'"
  by (induction rule: rtranclp_induct) (auto dest: wstep_msgs)

lemma steps_term: "(wstep qs)\<^sup>*\<^sup>* w w' \<Longrightarrow> trm w j \<le> trm w' j"
  by (induction rule: rtranclp_induct) (auto dest: wstep_term [of _ _ _ j])

lemma lead_led: "(wstep qs)\<^sup>*\<^sup>* w w' \<Longrightarrow> inv qs w \<Longrightarrow> MLead t c \<in> ms w' \<Longrightarrow> MLead t c \<in> ms w \<or> (\<exists>L. ld w' t = Some (c, L))"
proof (induction rule: rtranclp_induct)
  case (step v v')
  from inv_steps [OF step(1) step(4)] have "inv_votes v" "inv_led qs v" by (simp_all add: inv_def)
  from wstep_led_grows [OF this step(2)] wstep_new_lead [OF step(2) step(5)] step(3,4) show ?case
    unfolding led_grows_def by blast
qed simp

lemma settled_steps:
  assumes "(wstep qs)\<^sup>*\<^sup>* w w'" and "inv qs w" and "settled qs w t lg c"
  shows "settled qs w' t lg c"
  using assms(1)
proof (induction rule: rtranclp_induct)
  case base
  then show ?case using assms(3) .
next
  case (step v v')
  from inv_steps [OF step(1) assms(2)] have "inv_votes v" "inv_led qs v" by (simp_all add: inv_def)
  from settled_step [OF step(2) wstep_led_grows [OF this step(2)] step(3)] show ?case .
qed

end

end
