(* ===== verification/Node_Refine.thy ===== *)
theory Node_Refine
  imports Node_Handlers Raft_Safety
begin

section \<open>The node refines a process of the protocol\<close>

text \<open>
  Every handler of the node, run in a cluster with a fixed membership, takes the steps of one process
  of \<^verbatim>\<open>Raft_Spec\<close>, and does not panic. The log of the process is the whole log of the node, including
  what was compacted away: \<open>holds_log L st\<close> says that the storage holds the log \<open>L\<close>, its tail literally
  and the rest as the boundary of a snapshot. \<open>absp\<close> is the abstraction, \<open>node_ok\<close> and \<open>net_ok\<close> the
  coupling invariant between a node and the messages sent so far, and \<open>runs w i L n s\<close> says that the node
  \<open>i\<close> got to \<open>n\<close>, with the log \<open>L\<close>, from the world \<open>w\<close> by steps of its own. Each lemma is about one
  operation, in the order of \<^verbatim>\<open>Node\<close> and \<^verbatim>\<open>Node_Handlers\<close>.
\<close>

subsection \<open>Abstraction and coupling\<close>

text \<open>What the coupling sees of a role.\<close>

definition role_view ::
    "role \<Rightarrow> node_id set option + (node_id \<rightharpoonup> log_index) \<times> (node_id \<rightharpoonup> log_index) \<times> log_index" where
  "role_view r =
     (case r of
        Follower \<Rightarrow> Inl None
      | PreCandidate _ \<Rightarrow> Inl None
      | Candidate vs \<Rightarrow> Inl (Some vs)
      | Leader l \<Rightarrow> Inr (next_index l, match_index l, term_start_index l))"

text \<open>A role up to the reads that wait.\<close>

definition sans_reads :: "role \<Rightarrow> role" where
  "sans_reads r = (case r of Leader l \<Rightarrow> Leader (l\<lparr>pending_reads := []\<rparr>) | _ \<Rightarrow> r)"

definition abs_role :: "role \<Rightarrow> p_role" where
  "abs_role r =
     (case r of Candidate _ \<Rightarrow> PCandidate | Leader _ \<Rightarrow> PLeader | _ \<Rightarrow> PFollower)"

definition absp :: "'v log_entry list \<Rightarrow> ('v, 'sm) raft_node \<Rightarrow> 'v proc" where
  "absp L n = \<lparr>p_term = current_term n, p_vote = voted_for (hard_state (storage n)),
     p_role = abs_role (role n), p_log = L, p_commit = commit_index n\<rparr>"

text \<open>A configuration of a cluster with the fixed members \<open>M\<close>.\<close>

definition static_config :: "node_id set \<Rightarrow> node_id \<Rightarrow> raft_config \<Rightarrow> bool" where
  "static_config M i c \<longleftrightarrow>
     cfg_id c = i \<and> insert i (set (peers c)) = M \<and> \<not> join c \<and>
     election_timeout_min c \<le> election_timeout_max c \<and> 0 < election_timeout_max c \<and> election_timeout_max c < 2 ^ 64"

definition plain_command :: "'v command \<Rightarrow> bool" where
  "plain_command cmd = (case cmd of ConfigChange _ \<Rightarrow> False | _ \<Rightarrow> True)"

definition plain :: "'v log_entry list \<Rightarrow> bool" where
  "plain es = list_all (\<lambda>e. plain_command (command e)) es"

text \<open>The state a replica computes from a prefix of its log; the snapshot values that restore it; and the
  state machines whose own snapshots do.\<close>

definition replay :: "('v, 'sm) state_machine \<Rightarrow> 'v log_entry list \<Rightarrow> ('v, 'sm) state_machine" where
  "replay sm es = foldl sm_apply sm es"

definition restores :: "('v, 'sm) state_machine \<Rightarrow> 'v \<Rightarrow> 'v log_entry list \<Rightarrow> bool" where
  "restores sm v es \<longleftrightarrow> (\<forall>d. sm_restore_fn sm d v = Some (sm_data (replay sm es)))"

definition lawful :: "('v, 'sm) state_machine \<Rightarrow> bool" where
  "lawful sm \<longleftrightarrow> (\<forall>es. restores sm (sm_snapshot_fn sm (sm_data (replay sm es))) es)"

definition holds_log :: "'v log_entry list \<Rightarrow> 'v storage \<Rightarrow> bool" where
  "holds_log L st \<longleftrightarrow> snapshot_index st \<le> length L \<and> log st = drop (snapshot_index st) L \<and>
     snapshot_term st = lterm L (snapshot_index st)"

definition snap_ok :: "('v, 'sm) state_machine \<Rightarrow> 'v log_entry list \<Rightarrow> 'v snapshot \<Rightarrow> bool" where
  "snap_ok sm L s \<longleftrightarrow> membership s = None \<and> restores sm (state s) (take (last_included_index s) L)"

definition staged_ok ::
    "('v, 'sm) state_machine \<Rightarrow> 'v log_entry list \<Rightarrow> log_index \<Rightarrow> log_index \<times> 'v \<times> membership option \<Rightarrow> bool" where
  "staged_ok sm L la x \<longleftrightarrow> (case x of (i, v, m) \<Rightarrow> m = None \<and> i \<le> la \<and> restores sm v (take i L))"

definition node_ok ::
    "node_id set \<Rightarrow> ('v, 'sm) state_machine \<Rightarrow> node_id \<Rightarrow> 'v log_entry list \<Rightarrow> ('v, 'sm) raft_node \<Rightarrow> bool" where
  "node_ok M sm i L n \<longleftrightarrow>
     static_config M i (config n) \<and> (snapshot_threshold (config n) \<noteq> None \<longrightarrow> lawful sm) \<and>
     fset (fmdom (members n)) = M \<and> members_index n = 0 \<and>
     holds_log L (storage n) \<and> contiguous_from 1 L \<and> plain L \<and>
     (\<forall>z. snapshot (storage n) = Some z \<longrightarrow> snap_ok sm L z) \<and>
     (\<forall>x. staged_snapshot n = Some x \<longrightarrow> staged_ok sm L (last_applied n) x) \<and>
     snapshot_index (storage n) \<le> last_applied n \<and> last_applied n \<le> commit_index n \<and>
     commit_index n \<le> length L \<and> state_machine n = replay sm (take (last_applied n) L) \<and>
     (\<forall>nx mt ts. role_view (role n) = Inr (nx, mt, ts) \<longrightarrow>
        (\<forall>p k. nx p = Some k \<longrightarrow> 1 \<le> k \<and> k \<le> length L + 1) \<and>
        1 \<le> ts \<and> ts \<le> length L + 1 \<and> (ts \<le> length L \<longrightarrow> lterm L ts = current_term n))"

text \<open>What a request on the wire, and a reply on its way back, say about the protocol's messages. A
  snapshot stands for the batch of all entries up to its boundary.\<close>

fun req_ok :: "('v, 'sm) state_machine \<Rightarrow> 'v net \<Rightarrow> node_id \<Rightarrow> 'v rpc_request \<Rightarrow> rpc_ctx \<Rightarrow> bool" where
  "req_ok sm s i (RequestVote a) (VoteCtx t) \<longleftrightarrow>
     t = rv_term a \<and> candidate_id a = i \<and>
     (\<exists>lg. MVoteReq t i lg \<in> msgs s \<and> last_log_index a = length lg \<and>
        last_log_term a = lterm lg (length lg))"
| "req_ok sm s i (PreVote a) (PreVoteCtx t) \<longleftrightarrow> True"
| "req_ok sm s i (AppendEntries a) (AppendCtx t p k q) \<longleftrightarrow>
     t = ae_term a \<and> p = prev_log_index a \<and> k = length (entries a) \<and> ae_leader_id a = i \<and>
     contiguous_from (p + 1) (entries a) \<and> plain (entries a) \<and> MLead t i \<in> msgs s \<and>
     MAppend t p (prev_log_term a) (entries a) (leader_commit a) \<in> msgs s"
| "req_ok sm s i (InstallSnapshot a) (InstallCtx t b) \<longleftrightarrow>
     t = is_term a \<and> b = last_included_index (is_snapshot a) \<and> is_leader_id a = i \<and> MLead t i \<in> msgs s \<and>
     (\<exists>es. MAppend t 0 0 es b \<in> msgs s \<and> length es = b \<and> contiguous_from 1 es \<and> plain es \<and>
        last_included_term (is_snapshot a) = lterm es b \<and> snap_ok sm es (is_snapshot a))"
| "req_ok sm s i r x \<longleftrightarrow> False"

fun event_ok :: "'v net \<Rightarrow> node_id \<Rightarrow> event \<Rightarrow> bool" where
  "event_ok s i (VoteReply t from (Inr (RequestVoteR r))) \<longleftrightarrow>
     (vote_granted r \<longrightarrow> (\<exists>lg. MVote t from i lg \<in> msgs s))"
| "event_ok s i (AppendReply t from p k q (Inr (AppendEntriesR r))) \<longleftrightarrow>
     (success r \<longrightarrow> MAck t from (p + k) \<in> msgs s)"
| "event_ok s i (InstallSnapshotReply t from b (Inr (InstallSnapshotR r))) \<longleftrightarrow>
     (isr_term r \<le> t \<longrightarrow> MAck t from b \<in> msgs s)"
| "event_ok s i e \<longleftrightarrow> True"

text \<open>The entry with index \<open>k\<close> and term \<open>t\<close> is in a prefix that a leader committed.\<close>

definition decided :: "'v net \<Rightarrow> log_index \<Rightarrow> term_no \<Rightarrow> bool" where
  "decided s k t \<longleftrightarrow> k = 0 \<or> (\<exists>u c lg. MCommit u c lg \<in> msgs s \<and> k \<le> c \<and> lterm lg k = t)"

text \<open>What the effects of a turn say: requests are sound, and what is reported as committed is decided.\<close>

fun fx_ok :: "('v, 'sm) state_machine \<Rightarrow> 'v net \<Rightarrow> node_id \<Rightarrow> 'v effect \<Rightarrow> bool" where
  "fx_ok sm s i (SendRpc p r x) \<longleftrightarrow> req_ok sm s i r x"
| "fx_ok sm s i (Committed p b) \<longleftrightarrow> (b \<longrightarrow> decided s (pp_index p) (pp_term p))"
| "fx_ok sm s i e \<longleftrightarrow> True"

fun relevant :: "'v effect \<Rightarrow> bool" where
  "relevant (SendRpc p r x) = True"
| "relevant (Committed p b) = b"
| "relevant (Stored st) = True"
| "relevant e = False"

definition net_ok ::
    "('v, 'sm) state_machine \<Rightarrow> 'v net \<Rightarrow> node_id \<Rightarrow> 'v log_entry list \<Rightarrow> ('v, 'sm) raft_node \<Rightarrow> bool" where
  "net_ok sm s i L n \<longleftrightarrow>
     (\<forall>vs v. role_view (role n) = Inl (Some vs) \<longrightarrow> v \<in> vs \<longrightarrow>
        (\<exists>lg. MVote (current_term n) v i lg \<in> msgs s)) \<and>
     (\<forall>nx mt ts. role_view (role n) = Inr (nx, mt, ts) \<longrightarrow>
        MAck (current_term n) i (length L) \<in> msgs s \<and> MLead (current_term n) i \<in> msgs s \<and>
        (\<forall>j m. mt j = Some m \<longrightarrow> m = 0 \<or> MAck (current_term n) j m \<in> msgs s)) \<and>
     (\<forall>e. e \<in> set (effects n) \<longrightarrow> fx_ok sm s i e)"

text \<open>The world \<open>w\<close> with the process \<open>i\<close> at \<open>p\<close> and the messages \<open>s\<close>.\<close>

definition put :: "'v world \<Rightarrow> node_id \<Rightarrow> 'v proc \<Rightarrow> 'v net \<Rightarrow> 'v world" where
  "put w i p s = \<lparr>procs = (procs w)(i := p), net = s\<rparr>"

definition at_run ::
    "node_id set \<Rightarrow> ('v, 'sm) state_machine \<Rightarrow> 'v world \<Rightarrow> node_id \<Rightarrow> 'v log_entry list \<Rightarrow>
       ('v, 'sm) raft_node \<Rightarrow> 'v net \<Rightarrow> bool" where
  "at_run M sm w i L n s \<longleftrightarrow>
     finite M \<and> i \<in> M \<and> inv (is_majority M) w \<and> (wstep (is_majority M))\<^sup>*\<^sup>* w (put w i (absp L n) s) \<and>
     node_ok M sm i L n \<and> net_ok sm s i L n"

text \<open>The effects so far that matter. Whatever a crash in the middle of them leaves on the disk, a run of the
  protocol led there, with what had been sent by then: \<open>left_ok c fx d\<close> for the disk \<open>d\<close>, the
  configuration \<open>c\<close> and what was sent \<open>fx\<close>.\<close>

definition trace :: "('v, 'sm) raft_node \<Rightarrow> 'v effect list" where
  "trace n = filter relevant (effects n)"

definition left_ok where
  "left_ok M sm w i c fx d \<longleftrightarrow>
     (\<exists>L n s. at_run M sm w i L n s \<and> storage n = d \<and> config n = c \<and> (\<forall>e \<in> set fx. fx_ok sm s i e))"

definition trail_ok where
  "trail_ok M sm w i n \<longleftrightarrow>
     (\<forall>d. last_stored None (trace n) = Some d \<longrightarrow> d = storage n) \<and>
     (\<forall>fx gx d. trace n = fx @ gx \<longrightarrow> left_whole fx gx d \<longrightarrow> left_ok M sm w i (config n) fx d)"

definition runs ::
    "node_id set \<Rightarrow> ('v, 'sm) state_machine \<Rightarrow> 'v world \<Rightarrow> node_id \<Rightarrow> 'v log_entry list \<Rightarrow>
       ('v, 'sm) raft_node \<Rightarrow> 'v net \<Rightarrow> bool" where
  "runs M sm w i L n s \<longleftrightarrow> at_run M sm w i L n s \<and> trail_ok M sm w i n"

text \<open>A step of a node writes nothing, or as its last effect stores a state in one piece.\<close>

definition whole :: "'v storage \<Rightarrow> 'v storage \<Rightarrow> bool" where
  "whole st st' \<longleftrightarrow> (\<forall>d. cut_short st st' d \<longrightarrow> d = st \<or> d = st')"

definition grown :: "('v, 'sm) raft_node \<Rightarrow> ('v, 'sm) raft_node \<Rightarrow> bool" where
  "grown n n' \<longleftrightarrow> config n' = config n \<and>
     (storage n' = storage n \<and> (\<exists>fx. trace n' = trace n @ fx \<and> (\<forall>st. Stored st \<notin> set fx)) \<or>
      whole (storage n) (storage n') \<and> trace n' = trace n @ [Stored (storage n')])"

text \<open>What matters of a node for all of the above.\<close>

lemma fx_ok_irrelevant: "\<not> relevant e \<Longrightarrow> fx_ok sm s i e"
  by (cases e) auto

definition core :: "('v, 'sm) raft_node \<Rightarrow> _" where
  "core n = (config n, storage n, state_machine n, role_view (role n), commit_index n, last_applied n,
     fmdom (members n), members_index n, staged_snapshot n, trace n)"

subsection \<open>Frame lemmas\<close>

interpretation raft: raft_quorums is_majority "fset (A :: node_id fset)" for A
  by unfold_locales simp

lemma majority_locale: "finite M \<Longrightarrow> raft_quorums is_majority M"
  using raft.raft_quorums_axioms [of "Abs_fset M"] by (simp add: Abs_fset_inverse)

lemma absp_sel [simp]:
  "p_term (absp L n) = current_term n" "p_vote (absp L n) = voted_for (hard_state (storage n))"
  "p_role (absp L n) = abs_role (role n)" "p_log (absp L n) = L"
  "p_commit (absp L n) = commit_index n"
  by (simp_all add: absp_def)

lemma put_sel [simp]:
  "procs (put w i p s) i = p" "net (put w i p s) = s" "j \<noteq> i \<Longrightarrow> procs (put w i p s) j = procs w j"
  by (simp_all add: put_def)

lemma role_view_Inr: "role_view r = Inr (nx, mt, ts) \<longleftrightarrow>
    (\<exists>l. r = Leader l \<and> nx = next_index l \<and> mt = match_index l \<and> ts = term_start_index l)"
  by (auto simp: role_view_def split: role.splits)

lemma role_view_Some: "role_view r = Inl (Some vs) \<longleftrightarrow> r = Candidate vs"
  by (auto simp: role_view_def split: role.splits)

lemma abs_role_view:
  "abs_role r = (case role_view r of Inl None \<Rightarrow> PFollower | Inl (Some _) \<Rightarrow> PCandidate | Inr _ \<Rightarrow> PLeader)"
  by (simp add: abs_role_def role_view_def split: role.splits)

lemma sans_reads_Leader:
  assumes "sans_reads r = sans_reads (Leader l)"
  obtains l' where "r = Leader l'" and "next_index l' = next_index l" and "match_index l' = match_index l"
    and "last_contact l' = last_contact l"
proof (cases r)
  case (Leader l')
  with assms have "l'\<lparr>pending_reads := []\<rparr> = l\<lparr>pending_reads := []\<rparr>" by (simp add: sans_reads_def)
  from arg_cong [OF this, of next_index] arg_cong [OF this, of match_index] arg_cong [OF this, of last_contact]
  show ?thesis using that [OF Leader] by simp
qed (use assms in \<open>simp_all add: sans_reads_def\<close>)

lemma is_leader_abs: "is_leader n \<longleftrightarrow> abs_role (role n) = PLeader"
  by (simp add: is_leader_def abs_role_def split: role.splits)

lemma abs_role_Leader [simp]: "abs_role (Leader l) = PLeader" "abs_role Follower = PFollower"
  "abs_role (PreCandidate vs) = PFollower" "abs_role (Candidate vs) = PCandidate"
  by (simp_all add: abs_role_def)

lemma role_view_simps [simp]: "role_view (Leader l) = Inr (next_index l, match_index l, term_start_index l)"
  "role_view Follower = Inl None" "role_view (PreCandidate vs) = Inl None"
  "role_view (Candidate vs) = Inl (Some vs)"
  by (simp_all add: role_view_def)

lemma runs_core:
  assumes "core n' = core n" and "runs M sm w i L n s"
  shows "runs M sm w i L n' s"
proof -
  from assms(1) have c: "config n' = config n" "storage n' = storage n" "state_machine n' = state_machine n"
    "role_view (role n') = role_view (role n)" "commit_index n' = commit_index n"
    "last_applied n' = last_applied n" "fmdom (members n') = fmdom (members n)"
    "members_index n' = members_index n" "staged_snapshot n' = staged_snapshot n" "trace n' = trace n"
    by (simp_all add: core_def)
  then have "absp L n' = absp L n"
    by (simp add: absp_def current_term_def abs_role_view)
  moreover have "fx_ok sm s i e" if "e \<in> set (effects n')" for e
  proof (cases "relevant e")
    case True
    with that have "e \<in> set (trace n')" by (simp add: trace_def)
    with c(10) assms(2) show ?thesis by (simp add: trace_def runs_def at_run_def net_ok_def)
  qed (rule fx_ok_irrelevant)
  ultimately show ?thesis
    using assms(2) c by (simp add: runs_def at_run_def node_ok_def net_ok_def trail_ok_def current_term_def)
qed

lemma last_stored_append [simp]: "last_stored d (fx @ gx) = last_stored (last_stored d fx) gx"
  by (induction d fx rule: last_stored.induct) auto

lemma last_stored_none: "(\<forall>st. Stored st \<notin> set fx) \<Longrightarrow> last_stored d fx = d"
  by (induction d fx rule: last_stored.induct) auto

lemma left_whole_more: "gx \<noteq> [] \<Longrightarrow> left_whole fx (gx @ hx) d = left_whole fx gx d"
  by (cases gx) (auto simp: left_whole_def split: option.splits effect.splits)

lemma left_whole_Nil: "left_whole fx [] d \<longleftrightarrow> last_stored None fx = Some d"
  by (auto simp: left_whole_def split: option.splits)

text \<open>Growing by an effect, or by an effect that stores a state, keeps the trail sound.\<close>

lemma left_ok_self: "at_run M sm w i L n s \<Longrightarrow> set fx \<subseteq> set (effects n) \<Longrightarrow> left_ok M sm w i (config n) fx (storage n)"
  unfolding left_ok_def by (intro exI [of _ L] exI [of _ n] exI [of _ s]) (auto simp: at_run_def net_ok_def)

lemma trail_step:
  assumes r: "runs M sm w i L n s" and r': "at_run M sm w i L' n' s'" and c: "config n' = config n"
    and tr: "trace n' = trace n @ fx"
    and last: "\<And>d. last_stored (last_stored None (trace n)) fx = Some d \<Longrightarrow> d = storage n'"
    and new: "\<And>gx hx d. fx = gx @ hx \<Longrightarrow> fx \<noteq> [] \<Longrightarrow> left_whole (trace n @ gx) hx d \<Longrightarrow>
      left_ok M sm w i (config n) (trace n @ gx) d"
  shows "runs M sm w i L' n' s'"
proof -
  have t: "trail_ok M sm w i n" and a: "at_run M sm w i L n s" using r by (simp_all add: runs_def)
  have "left_ok M sm w i (config n) gx d" if e: "trace n' = gx @ hx" and l: "left_whole gx hx d" for gx hx d
  proof -
    from e tr consider us where "trace n = gx @ us" "us \<noteq> []" "hx = us @ fx"
      | us where "gx = trace n @ us" "fx = us @ hx"
      by (auto simp: append_eq_append_conv2) (metis append.right_neutral append_Nil)+
    then show ?thesis
    proof cases
      case 1
      with t l left_whole_more [OF 1(2), of gx fx d] show ?thesis by (auto simp: trail_ok_def)
    next
      case 2
      show ?thesis
      proof (cases "fx = []")
        case True
        with 2 t l show ?thesis by (auto simp: trail_ok_def)
      next
        case False
        with new [OF 2(2)] l 2(1) show ?thesis by simp
      qed
    qed
  qed
  with r' tr last c show ?thesis by (simp add: runs_def trail_ok_def)
qed

lemma runs_grown:
  assumes r: "runs M sm w i L n s" and r': "at_run M sm w i L' n' s'" and g: "grown n n'"
  shows "runs M sm w i L' n' s'"
proof -
  have a: "at_run M sm w i L n s" and l: "\<And>d. last_stored None (trace n) = Some d \<Longrightarrow> d = storage n"
    using r by (auto simp: runs_def trail_ok_def)
  have c: "config n' = config n" using g by (simp add: grown_def)
  have sub: "set (trace n) \<subseteq> set (effects n)" "set (trace n') \<subseteq> set (effects n')" by (auto simp: trace_def)
  from g consider fx where "storage n' = storage n" "trace n' = trace n @ fx" "\<forall>st. Stored st \<notin> set fx"
    | "whole (storage n) (storage n')" "trace n' = trace n @ [Stored (storage n')]"
    by (auto simp: grown_def)
  then show ?thesis
  proof cases
    case 1
    show ?thesis
    proof (rule trail_step [OF r r' c 1(2)])
      show "d = storage n'" if "last_stored (last_stored None (trace n)) fx = Some d" for d
        using that l 1(1) last_stored_none [OF 1(3)] by simp
      show "left_ok M sm w i (config n) (trace n @ gx) d"
        if e: "fx = gx @ hx" and lb: "left_whole (trace n @ gx) hx d" for gx hx d
      proof -
        have "\<forall>st. Stored st \<notin> set gx" "\<forall>st. Stored st \<notin> set hx" using 1(3) e by auto
        with lb last_stored_none [of gx] have "last_stored None (trace n) = Some d"
          by (auto simp: left_whole_def split: option.splits list.splits effect.splits)
        with l 1(1) have "d = storage n'" by simp
        with left_ok_self [OF r', of "trace n @ gx"] sub(2) 1(2) e c show ?thesis by simp
      qed
    qed
  next
    case 2
    show ?thesis
    proof (rule trail_step [OF r r' c 2(2)])
      show "left_ok M sm w i (config n) (trace n @ gx) d"
        if e: "[Stored (storage n')] = gx @ hx" and lb: "left_whole (trace n @ gx) hx d" for gx hx d
      proof (cases gx)
        case Nil
        with e lb l have "d = storage n \<or> d = storage n'"
          using 2(1) by (auto simp: left_whole_def whole_def split: option.splits)
        with left_ok_self [OF a sub(1)] left_ok_self [OF r', of "trace n"] sub(2) 2(2) c Nil show ?thesis by auto
      next
        case (Cons g gs)
        with e lb have "d = storage n'" "trace n @ gx = trace n'"
          using 2(2) by (auto simp: left_whole_def split: option.splits list.splits)
        with left_ok_self [OF r' sub(2)] c show ?thesis by simp
      qed
    qed simp
  qed
qed

lemma runs_step:
  assumes "runs M sm w i L n s" and "pstep (is_majority M) i (absp L n) s (absp L' n') s'"
    and "node_ok M sm i L' n'" and "net_ok sm s' i L' n'" and "grown n n'"
  shows "runs M sm w i L' n' s'"
proof -
  have "wstep (is_majority M) (put w i (absp L n) s) (put w i (absp L' n') s')"
    using wstep.intros [of "is_majority M" i "put w i (absp L n) s" "absp L' n'" s'] assms(2)
    by (simp add: put_def)
  with assms(1,3,4) have "at_run M sm w i L' n' s'" by (auto simp: runs_def at_run_def)
  from runs_grown [OF assms(1) this assms(5)] show ?thesis .
qed

lemma runs_abs:
  assumes "runs M sm w i L n s" and "absp L n' = absp L n" and "node_ok M sm i L n'" and "net_ok sm s i L n'" and "grown n n'"
  shows "runs M sm w i L n' s"
  by (rule runs_grown [OF assms(1) _ assms(5)]) (use assms in \<open>simp add: runs_def at_run_def\<close>)

lemma grownI:
  "config n' = config n \<Longrightarrow> storage n' = storage n \<Longrightarrow> effects n' = effects n @ fx \<Longrightarrow> (\<forall>st. Stored st \<notin> set fx) \<Longrightarrow> grown n n'"
  by (auto simp: grown_def trace_def)

lemma grown_same: "config n' = config n \<Longrightarrow> storage n' = storage n \<Longrightarrow> effects n' = effects n \<Longrightarrow> grown n n'"
  by (rule grownI [of _ _ "[]"]) simp_all

lemma grown_store:
  "config n' = config n \<Longrightarrow> effects n' = effects n @ [Stored (storage n')] \<Longrightarrow> whole (storage n) (storage n') \<Longrightarrow> grown n n'"
  by (simp add: grown_def trace_def)

lemma whole_hard_state [simp]: "whole st (st\<lparr>hard_state := h\<rparr>)"
  by (auto simp: whole_def cut_short_def)

lemma whole_snapshot: "snapshot st' \<noteq> snapshot st \<Longrightarrow> whole st st'"
  by (simp add: whole_def cut_short_def)

lemma whole_shorter: "length (log st') \<le> Suc (length (log st)) \<Longrightarrow> whole st st'"
  by (auto simp: whole_def cut_short_def) (case_tac es; case_tac es'; simp; fail)

lemma runs_at: "runs M sm w i L n s \<Longrightarrow> at_run M sm w i L n s"
  by (simp add: runs_def)

lemma at_run_inv: "at_run M sm w i L n s \<Longrightarrow> inv (is_majority M) (put w i (absp L n) s)"
  using raft_quorums.inv_steps [OF majority_locale] by (auto simp: at_run_def)

lemmas runs_inv = at_run_inv [OF runs_at]

lemma pstep_msgs: "pstep q i p s p' s' \<Longrightarrow> msgs s \<subseteq> msgs s'"
  by (erule pstep.cases) auto

lemma req_ok_mono: "req_ok sm s i r x \<Longrightarrow> msgs s \<subseteq> msgs s' \<Longrightarrow> req_ok sm s' i r x"
  by (cases r; cases x) auto

lemma fx_ok_mono: "fx_ok sm s i e \<Longrightarrow> msgs s \<subseteq> msgs s' \<Longrightarrow> fx_ok sm s' i e"
  using req_ok_mono by (cases e) (auto simp: decided_def, blast+)

lemma event_ok_mono: "event_ok s i e \<Longrightarrow> msgs s \<subseteq> msgs s' \<Longrightarrow> event_ok s' i e"
  by (induction s i e rule: event_ok.induct) auto

subsection \<open>Runs without panic\<close>

text \<open>The operation \<open>m\<close>, started with the messages \<open>s\<close>, does not panic and ends in a run of the protocol
  with property \<open>P\<close>.\<close>

definition ok_run where
  "ok_run M sm w i s m P \<longleftrightarrow>
     wp {} m (\<lambda>n'. \<exists>L' s'. runs M sm w i L' n' s' \<and> msgs s \<subseteq> msgs s' \<and> P L' n' s')"

lemma ok_run_ret: "runs M sm w i L n s' \<Longrightarrow> msgs s \<subseteq> msgs s' \<Longrightarrow> P L n s' \<Longrightarrow> ok_run M sm w i s (Inr n) P"
  by (auto simp: ok_run_def wp_rules)

lemma ok_run_bind:
  assumes "ok_run M sm w i s m P"
    and "\<And>L' n' s'. runs M sm w i L' n' s' \<Longrightarrow> msgs s \<subseteq> msgs s' \<Longrightarrow> P L' n' s' \<Longrightarrow> wp {} (f n') Q"
  shows "wp {} (bind_r m f) Q"
  using assms by (cases m) (auto simp: ok_run_def wp_def)

lemma ok_run_seq:
  assumes "ok_run M sm w i s m P"
    and "\<And>L' n' s'. runs M sm w i L' n' s' \<Longrightarrow> msgs s \<subseteq> msgs s' \<Longrightarrow> P L' n' s' \<Longrightarrow> ok_run M sm w i s' (f n') Q"
  shows "ok_run M sm w i s (bind_r m f) Q"
  unfolding ok_run_def
  by (rule ok_run_bind [OF assms(1)])
    (use assms(2) in \<open>fastforce simp: ok_run_def wp_empty_iff\<close>)

lemma ok_run_mono:
  assumes "ok_run M sm w i s m P" and "\<And>L' n' s'. runs M sm w i L' n' s' \<Longrightarrow> P L' n' s' \<Longrightarrow> Q L' n' s'"
  shows "ok_run M sm w i s m Q"
  using assms by (fastforce simp: ok_run_def wp_empty_iff)

lemma ok_run_from:
  assumes "ok_run M sm w i s' m P" and "msgs s \<subseteq> msgs s'"
  shows "ok_run M sm w i s m P"
  using assms unfolding ok_run_def by (elim wp_mono) blast

lemma runsD:
  assumes "runs M sm w i L n s"
  shows "finite M" and "i \<in> M" and "static_config M i (config n)" and "fset (fmdom (members n)) = M"
    and "members_index n = 0" and "holds_log L (storage n)" and "contiguous_from 1 L"
    and "plain L" and "last_applied n \<le> commit_index n"
    and "commit_index n \<le> length L"
    and "state_machine n = replay sm (take (last_applied n) L)"
    and "role n = Leader l \<Longrightarrow> next_index l p = Some k \<Longrightarrow> 1 \<le> k \<and> k \<le> length L + 1"
    and "role n = Candidate vs \<Longrightarrow> v \<in> vs \<Longrightarrow> \<exists>lg. MVote (current_term n) v i lg \<in> msgs s"
    and "role n = Leader l \<Longrightarrow> MAck (current_term n) i (length L) \<in> msgs s"
    and "role n = Leader l \<Longrightarrow> match_index l j = Some m \<Longrightarrow> m = 0 \<or> MAck (current_term n) j m \<in> msgs s"
    and "e \<in> set (effects n) \<Longrightarrow> fx_ok sm s i e"
    and "role n = Leader l \<Longrightarrow> MLead (current_term n) i \<in> msgs s"
    and "snapshot (storage n) = Some z \<Longrightarrow> snap_ok sm L z"
    and "staged_snapshot n = Some y \<Longrightarrow> staged_ok sm L (last_applied n) y"
    and "snapshot_index (storage n) \<le> last_applied n"
    and "snapshot_threshold (config n) \<noteq> None \<Longrightarrow> lawful sm"
    and "role n = Leader l \<Longrightarrow> 1 \<le> term_start_index l \<and> term_start_index l \<le> length L + 1 \<and>
      (term_start_index l \<le> length L \<longrightarrow> lterm L (term_start_index l) = current_term n)"
  using assms by (auto simp: runs_def at_run_def node_ok_def net_ok_def role_view_Inr role_view_Some)

lemma runs_sends:
  "runs M sm w i L n s \<Longrightarrow> msgs s \<subseteq> msgs s' \<Longrightarrow> e \<in> set (effects n) \<Longrightarrow> fx_ok sm s' i e"
  by (rule fx_ok_mono [OF runsD(16)])

lemma runs_id: "runs M sm w i L n s \<Longrightarrow> cfg_id (config n) = i"
  using runsD(3) [of M sm w i L n s] by (simp add: static_config_def)

lemma runs_member: "runs M sm w i L n s \<Longrightarrow> is_member n"
  using runsD(2,4) [of M sm w i L n s] runs_id [of M sm w i L n s] by (simp add: is_member_def)

text \<open>Lookups in a storage are lookups in the log it holds.\<close>

lemma holds_logD:
  assumes "holds_log L st"
  shows "snapshot_index st \<le> length L" and "last_index st = length L"
    and "last_term st = lterm L (length L)"
    and "snapshot_index st \<le> k \<Longrightarrow> k \<le> length L \<Longrightarrow> term_at st k = Some (lterm L k)"
    and "length L < k \<Longrightarrow> term_at st k = None"
    and "k < snapshot_index st \<Longrightarrow> term_at st k = None"
    and "snapshot_index st \<le> k \<Longrightarrow> entries_from st (Suc k) = drop k L"
    and "log st = drop (snapshot_index st) L"
proof -
  let ?b = "snapshot_index st"
  from assms show b: "?b \<le> length L" and lg: "log st = drop ?b L" by (simp_all add: holds_log_def)
  from b lg show li: "last_index st = length L" by (simp add: last_index_def)
  show tm: "term_at st k = Some (lterm L k)" if "?b \<le> k" "k \<le> length L" for k
  proof (cases "k = ?b")
    case True
    then show ?thesis using assms by (simp add: holds_log_def)
  next
    case False
    with that have "k - ?b - 1 < length (log st)" "log st ! (k - ?b - 1) = L ! (k - 1)" "0 < k" "?b < k"
      using lg by auto
    then show ?thesis using False by (simp add: term_at_above entry_eq list_get_def lterm_def)
  qed
  show "last_term st = lterm L (length L)"
    using last_term_eq [of st] tm [of "length L"] b li by simp
  show "term_at st k = None" if "length L < k" using that li by (simp add: term_at_None_iff)
  show "term_at st k = None" if "k < ?b" using that by (simp add: term_at_None_iff)
  show "entries_from st (Suc k) = drop k L" if "?b \<le> k"
    using that lg by (simp add: entries_from_eq)
qed

lemma holds_log_storage_ok: "holds_log L st \<Longrightarrow> contiguous_from 1 L \<Longrightarrow> storage_ok st"
  using contiguous_from_drop [of 1 L "snapshot_index st"] by (simp add: holds_log_def storage_ok_def)

lemma holds_log_hard_state [simp]: "holds_log L (st\<lparr>hard_state := h\<rparr>) = holds_log L st"
  by (simp add: holds_log_def)

lemma holds_log_empty: "holds_log [] empty_storage"
  by (simp add: holds_log_def empty_storage_def snapshot_index_def snapshot_term_def lterm_def)

text \<open>The log the storage holds may be replaced by one that agrees up to the boundary.\<close>

lemma holds_log_replace:
  assumes "holds_log L st" and "take (snapshot_index st) L' = take (snapshot_index st) L"
    and "snapshot_index st \<le> length L'"
  shows "holds_log L' (st\<lparr>log := drop (snapshot_index st) L'\<rparr>)"
  using assms lterm_take [of "snapshot_index st" "snapshot_index st" L' L] by (simp add: holds_log_def)

lemma snap_ok_agree:
  "snap_ok sm L z \<Longrightarrow> take k L' = take k L \<Longrightarrow> last_included_index z \<le> k \<Longrightarrow> snap_ok sm L' z"
  using take_eq_mono [of k L' L "last_included_index z"] by (simp add: snap_ok_def)

lemma staged_ok_agree:
  "staged_ok sm L la x \<Longrightarrow> take k L' = take k L \<Longrightarrow> la \<le> k \<Longrightarrow> la \<le> la' \<Longrightarrow> staged_ok sm L' la' x"
  using take_eq_mono [of k L' L "fst x"] by (auto simp: staged_ok_def)

subsection \<open>Operations that do not touch the core\<close>

lemma core_publish_membership [simp]: "core (publish_membership n) = core n"
  by (simp add: core_def publish_membership_def trace_def Let_def)

lemma core_publish_status [simp]: "core (publish_status n) = core n"
  by (simp add: core_def publish_status_def trace_def)

lemma core_emit: "(\<And>e. e \<in> set fx \<Longrightarrow> \<not> relevant e) \<Longrightarrow> core (emit fx n) = core n"
  by (auto simp: core_def emit_def trace_def)

lemma core_resolve_reads [simp]: "core (resolve_reads n) = core n"
proof (cases "role n")
  case (Leader l)
  then have "core (resolve_reads n) = core (n\<lparr>role := Leader (l\<lparr>pending_reads :=
      filter (\<lambda>r. \<not> read_ready n l r) (pending_reads l)\<rparr>)\<rparr>)"
    by (simp add: resolve_reads_def) (rule core_emit, auto)
  with Leader show ?thesis by (simp add: core_def trace_def)
qed (simp_all add: resolve_reads_def)

lemma role_publish_membership [simp]: "role (publish_membership n) = role n"
  by (simp add: publish_membership_def Let_def)

lemma sel_resolve_pending [simp]:
  "role (resolve_pending n) = role n" "config (resolve_pending n) = config n"
  "storage (resolve_pending n) = storage n" "state_machine (resolve_pending n) = state_machine n"
  "commit_index (resolve_pending n) = commit_index n" "last_applied (resolve_pending n) = last_applied n"
  "members (resolve_pending n) = members n" "members_index (resolve_pending n) = members_index n"
  "staged_snapshot (resolve_pending n) = staged_snapshot n"
  by (simp_all add: resolve_pending_def emit_def)

lemma role_resolve_reads: "abs_role (role (resolve_reads n)) = abs_role (role n)"
  by (simp add: resolve_reads_def emit_def split: role.splits)

lemma reset_election_timer_ok:
  assumes "static_config M i (config n)"
  shows "\<exists>r d. reset_election_timer now n = Inr (n\<lparr>rng := r, election_deadline := d\<rparr>)"
proof -
  let ?mn = "election_timeout_min (config n)" and ?mx = "election_timeout_max (config n)"
  have t: "?mn \<le> ?mx" "?mx < 2 ^ 64" using assms by (simp_all add: static_config_def)
  then have "(of_nat ?mn :: u64) \<le> of_nat ?mx"
    by (simp add: u64_le_iff unsigned_of_nat take_bit_nat_eq_self)
  from next_range_total [OF this] obtain x r' where
    "next_range (of_nat ?mn) (of_nat ?mx) (rng n) = Some (x, r')" by blast
  with t show ?thesis by (auto simp: reset_election_timer_def Let_def)
qed

lemma core_timer [simp]: "core (n\<lparr>rng := r, election_deadline := d\<rparr>) = core n"
  by (simp add: core_def trace_def)

subsection \<open>Stepping down\<close>

lemma become_follower_eq:
  assumes "static_config M i (config n)" and "current_term n \<le> t"
  shows "\<exists>n'. become_follower now t lid n = Inr n' \<and> role n' = Follower \<and>
    core n' = core ((if current_term n < t
      then emit [Stored ((storage n)\<lparr>hard_state := \<lparr>hs_current_term = t, voted_for = None\<rparr>\<rparr>)]
        (n\<lparr>storage := (storage n)\<lparr>hard_state := \<lparr>hs_current_term = t, voted_for = None\<rparr>\<rparr>\<rparr>)
      else n)\<lparr>role := Follower\<rparr>)"
proof -
  define n1 where "n1 = (if current_term n < t
    then emit [Stored ((storage n)\<lparr>hard_state := \<lparr>hs_current_term = t, voted_for = None\<rparr>\<rparr>)]
        (n\<lparr>storage := (storage n)\<lparr>hard_state := \<lparr>hs_current_term = t, voted_for = None\<rparr>\<rparr>\<rparr>) else n)"
  define n2 where "n2 = (emit (dropped_reads (role n1)) n1)\<lparr>role := Follower, leader_id := lid\<rparr>"
  define n3 where "n3 = (if (case role n1 of Leader l \<Rightarrow> departing l \<noteq> fmempty | _ \<Rightarrow> False)
    then publish_membership n2 else n2)"
  have "\<not> relevant e" if "e \<in> set (dropped_reads (role n1))" for e
    using that by (auto simp: dropped_reads_def split: role.splits)
  then have c2: "core n2 = core (n1\<lparr>role := Follower\<rparr>)"
    by (auto simp: n2_def core_def trace_def emit_def filter_empty_conv)
  have "config n3 = config n" by (simp add: n3_def n2_def n1_def publish_membership_def emit_def Let_def)
  with reset_election_timer_ok [of M i n3 now] assms(1) obtain r d where
    r: "reset_election_timer now n3 = Inr (n3\<lparr>rng := r, election_deadline := d\<rparr>)" by auto
  have "become_follower now t lid n = reset_election_timer now n3"
    using assms(2) by (simp add: become_follower_def n3_def n2_def n1_def Let_def store_def save_hard_state_def)
  moreover have "core n3 = core (n1\<lparr>role := Follower\<rparr>)" by (simp add: n3_def c2)
  moreover have "role n3 = Follower" by (simp add: n3_def n2_def)
  ultimately show ?thesis using r unfolding n1_def by simp
qed

lemma become_follower_ok:
  assumes "runs M sm w i L n s" and "current_term n \<le> t"
  shows "ok_run M sm w i s (become_follower now t lid n)
    (\<lambda>L' n' s'. L' = L \<and> s' = s \<and> role n' = Follower \<and> current_term n' = t \<and>
       commit_index n' = commit_index n \<and> snapshot (storage n') = snapshot (storage n) \<and> log (storage n') = log (storage n))"
proof -
  let ?m = "(if current_term n < t
      then emit [Stored ((storage n)\<lparr>hard_state := \<lparr>hs_current_term = t, voted_for = None\<rparr>\<rparr>)]
        (n\<lparr>storage := (storage n)\<lparr>hard_state := \<lparr>hs_current_term = t, voted_for = None\<rparr>\<rparr>\<rparr>)
      else n)\<lparr>role := Follower\<rparr>"
  from become_follower_eq [OF runsD(3) [OF assms(1)] assms(2)] obtain n' where
    n': "become_follower now t lid n = Inr n'" "role n' = Follower" "core n' = core ?m" by blast
  have "absp L ?m = (if current_term n < t then (absp L n)\<lparr>p_term := t, p_vote := None, p_role := PFollower\<rparr>
      else (absp L n)\<lparr>p_role := PFollower\<rparr>)"
    by (simp add: absp_def current_term_def emit_def)
  then have "pstep (is_majority M) i (absp L n) s (absp L ?m) s"
    using p_observe [of "absp L n" t] p_step_down [of _ i "absp L n"] by (auto split: if_splits)
  moreover have "node_ok M sm i L ?m"
    using assms(1) by (auto simp: runs_def at_run_def node_ok_def emit_def)
  moreover have "net_ok sm s i L ?m"
    using runsD(16) [OF assms(1)] by (auto simp: net_ok_def emit_def)
  moreover have "grown n ?m"
    by (cases "current_term n < t") (simp_all add: emit_def grown_same grown_store)
  ultimately have "runs M sm w i L ?m s" by (rule runs_step [OF assms(1)])
  from runs_core [OF n'(3) this] have r: "runs M sm w i L n' s" .
  moreover from n'(3) have "storage n' = storage ?m" "commit_index n' = commit_index n"
    by (simp_all add: core_def emit_def)
  ultimately show ?thesis using n'(1,2) assms(2)
    by (auto simp: ok_run_def wp_rules current_term_def emit_def)
qed

subsection \<open>Replication\<close>

lemma runs_effects:
  assumes r: "runs M sm w i L n s" and "msgs s \<subseteq> msgs s'" and "\<And>e. e \<in> set fx \<Longrightarrow> fx_ok sm s' i e"
    and "pstep (is_majority M) i (absp L n) s (absp L n) s' \<or> s' = s" and fx: "\<forall>st. Stored st \<notin> set fx"
  shows "runs M sm w i L (emit fx n) s'"
proof -
  have e: "absp L (emit fx n) = absp L n" by (simp add: absp_def emit_def current_term_def)
  have ok: "node_ok M sm i L (emit fx n)" using r by (simp add: runs_def at_run_def node_ok_def emit_def current_term_def)
  have net: "net_ok sm s' i L (emit fx n)"
    unfolding net_ok_def role_view_Inr role_view_Some
  proof (intro conjI allI impI)
    show "\<exists>lg. MVote (current_term (emit fx n)) v i lg \<in> msgs s'"
      if "role (emit fx n) = Candidate vs" "v \<in> vs" for vs v
      using that runsD(13) [OF r, of vs v] assms(2) by (auto simp: emit_def current_term_def)
    show "fx_ok sm s' i e" if "e \<in> set (effects (emit fx n))" for e
      using that assms(3) fx_ok_mono [OF runsD(16) [OF r] assms(2)] by (auto simp: emit_def)
    fix nx mt ts
    assume "\<exists>l. role (emit fx n) = Leader l \<and> nx = next_index l \<and> mt = match_index l \<and> ts = term_start_index l"
    then obtain l where l: "role n = Leader l" "mt = match_index l" by (auto simp: emit_def)
    note D = runsD(14) [OF r l(1)] runsD(17) [OF r l(1)] runsD(15) [OF r l(1)]
    show "MAck (current_term (emit fx n)) i (length L) \<in> msgs s'"
      using D(1) assms(2) by (auto simp: emit_def current_term_def)
    show "MLead (current_term (emit fx n)) i \<in> msgs s'"
      using D(2) assms(2) by (auto simp: emit_def current_term_def)
    show "m = 0 \<or> MAck (current_term (emit fx n)) j m \<in> msgs s'" if "mt j = Some m" for j m
      using D(3) [of j m] that l(2) assms(2) by (auto simp: emit_def current_term_def)
  qed
  have g: "grown n (emit fx n)" by (rule grownI [OF _ _ _ fx]) (simp_all add: emit_def)
  from assms(4) show ?thesis
  proof
    assume "pstep (is_majority M) i (absp L n) s (absp L n) s'"
    with e have "pstep (is_majority M) i (absp L n) s (absp L (emit fx n)) s'" by simp
    from runs_step [OF r this ok net g] show ?thesis .
  next
    assume "s' = s"
    with runs_abs [OF r e ok _ g] net show ?thesis by simp
  qed
qed

lemma plain_take: "plain L \<Longrightarrow> plain (take k L)"
  by (auto simp: plain_def list_all_iff dest: in_set_takeD)

lemma plain_drop: "plain es \<Longrightarrow> plain (drop k es)"
  by (auto simp: plain_def list_all_iff dest: in_set_dropD)

text \<open>The leader ships its snapshot to a peer that is behind the boundary.\<close>

lemma send_install_snapshot_ok:
  assumes r: "runs M sm w i L n s" and l: "role n = Leader l" and b: "0 < snapshot_index (storage n)"
  shows "ok_run M sm w i s (send_install_snapshot n peer) (\<lambda>L' n' s'. L' = L \<and>
    (\<exists>rq. n' = emit [SendRpc peer rq (InstallCtx (current_term n) (snapshot_index (storage n)))] n))"
proof -
  from b obtain z where z: "snapshot (storage n) = Some z" by (cases "snapshot (storage n)") (auto simp: snapshot_index_def)
  let ?b = "last_included_index z"
  have bi: "snapshot_index (storage n) = ?b" "snapshot_term (storage n) = last_included_term z"
    using z by (simp_all add: snapshot_index_def snapshot_term_def)
  note H = holds_logD [OF runsD(6) [OF r], unfolded bi]
  let ?es = "take ?b L"
  let ?fx = "[SendRpc peer (InstallSnapshot \<lparr>is_term = current_term n, is_leader_id = cfg_id (config n),
    is_snapshot = z\<rparr>) (InstallCtx (current_term n) ?b)]"
  let ?s = "s\<lparr>msgs := insert (MAppend (current_term n) 0 0 ?es ?b) (msgs s)\<rparr>"
  have c: "?b \<le> commit_index n" using runsD(9,20) [OF r] bi by simp
  have "pstep (is_majority M) i (absp L n) s (absp L n) ?s"
    using p_send [of "absp L n" "current_term n" 0 ?es ?b ?b _ i s] l c by (simp add: lterm_def)
  moreover have "last_included_term z = lterm ?es ?b"
    using runsD(6) [OF r] bi H(1) lterm_take [of ?b ?b ?es L] by (simp add: holds_log_def)
  moreover have "contiguous_from 1 ?es" "plain ?es"
    using contiguous_from_take [OF runsD(7) [OF r]] plain_take [OF runsD(8) [OF r]] by blast+
  moreover have "snap_ok sm ?es z" by (rule snap_ok_agree [OF runsD(18) [OF r z], of ?b]) simp_all
  ultimately have "runs M sm w i L (emit ?fx n) ?s"
    using runs_id [OF r] runsD(17) [OF r l] H(1) by (intro runs_effects [OF r]) auto
  moreover have "send_install_snapshot n peer = Inr (emit ?fx n)" using z by (simp add: send_install_snapshot_def)
  ultimately show ?thesis by (auto simp: bi intro!: ok_run_ret)
qed

text \<open>A leader asks a peer with the next index \<open>nxt\<close>: the rest of its log from there, up to \<open>k\<close>, or its snapshot.\<close>

definition nxt_of :: "leader_state \<Rightarrow> node_id \<Rightarrow> log_index \<Rightarrow> log_index" where
  "nxt_of l p k = (case next_index l p of Some j \<Rightarrow> j | None \<Rightarrow> Suc k)"

definition asked :: "term_no \<Rightarrow> log_index \<Rightarrow> log_index \<Rightarrow> rpc_ctx \<Rightarrow> bool" where
  "asked t k nxt x \<longleftrightarrow>
     (\<exists>p j q. x = AppendCtx t p j q \<and> p + j = k \<and> nxt = Suc p) \<or> (\<exists>b. x = InstallCtx t b \<and> nxt \<le> b \<and> b \<le> k)"

lemma send_append_asks:
  assumes r: "runs M sm w i L n s"
  shows "ok_run M sm w i s (send_append peer n) (\<lambda>L' n' s'. L' = L \<and> (\<exists>fx. n' = emit fx n \<and>
    (\<forall>l. role n = Leader l \<longrightarrow> peer \<in> M \<longrightarrow>
      (\<exists>rq x. SendRpc peer rq x \<in> set fx \<and> asked (current_term n) (length L) (nxt_of l peer (length L)) x))))"
proof (cases "\<exists>l. role n = Leader l \<and> (bt_contains (members n) peer \<or> is_departing n peer)")
  case False
  then have "send_append peer n = Inr n"
    by (auto simp: send_append_def split: role.splits)
  moreover have "\<exists>fx. n = emit fx n" by (rule exI [of _ "[]"]) (simp add: emit_def)
  moreover have "peer \<notin> M" if "role n = Leader l" for l using False that runsD(4) [OF r] by auto
  ultimately show ?thesis using r by (auto intro!: ok_run_ret)
next
  case True
  then obtain l where l: "role n = Leader l" by blast
  note H = holds_logD [OF runsD(6) [OF r]]
  define nxt where "nxt = (case next_index l peer of Some k \<Rightarrow> k | None \<Rightarrow> last_index (storage n) + 1)"
  have b: "1 \<le> nxt" "nxt \<le> length L + 1"
    using runsD(12) [OF r l, of peer] H(2) by (auto simp: nxt_def split: option.splits)
  have nx: "nxt_of l peer (length L) = nxt" using H(2) by (auto simp: nxt_of_def nxt_def split: option.splits)
  show ?thesis
  proof (cases "nxt \<le> snapshot_index (storage n)")
    case snap: True
    then have "send_append peer n = send_install_snapshot n peer"
      using True l by (auto simp: send_append_def nxt_def [symmetric] Let_def)
    then show ?thesis using snap b(1) H(1) l nx
      by (auto simp: asked_def intro!: ok_run_mono [OF send_install_snapshot_ok [OF r l]])
  next
    case False
    define k where "k = nxt - 1"
    have k: "nxt = Suc k" "k \<le> length L" "snapshot_index (storage n) \<le> k" using b False by (auto simp: k_def)
    let ?es = "drop k L"
    let ?a = "\<lparr>ae_term = current_term n, ae_leader_id = cfg_id (config n), prev_log_index = k,
      prev_log_term = lterm L k, entries = ?es, leader_commit = commit_index n\<rparr>"
    let ?fx = "[SendRpc peer (AppendEntries ?a) (AppendCtx (current_term n) k (length ?es) (heartbeat_seq l))]"
    have eq: "send_append peer n = Inr (emit ?fx n)"
      using True l k H(4) [OF k(3,2)] H(7) [OF k(3)]
      by (auto simp: send_append_def nxt_def [symmetric] Let_def)
    let ?s = "s\<lparr>msgs := insert (MAppend (current_term n) k (lterm L k) ?es (commit_index n)) (msgs s)\<rparr>"
    have "pstep (is_majority M) i (absp L n) s (absp L n) ?s"
      using p_send [of "absp L n" "current_term n" k ?es "length L" "commit_index n" _ i s] l k by simp
    moreover have "contiguous_from (Suc k) ?es"
      using contiguous_from_drop [OF runsD(7) [OF r], of k] by simp
    ultimately have "runs M sm w i L (emit ?fx n) ?s"
      using runs_id [OF r] runsD(17) [OF r l] plain_drop [OF runsD(8) [OF r], of k]
      by (intro runs_effects [OF r]) auto
    moreover have "asked (current_term n) (length L) (nxt_of l peer (length L)) (AppendCtx (current_term n) k (length ?es) (heartbeat_seq l))"
      using k nx by (simp add: asked_def)
    ultimately show ?thesis unfolding eq using l by (intro ok_run_ret) auto
  qed
qed

lemma send_append_ok:
  "runs M sm w i L n s \<Longrightarrow> ok_run M sm w i s (send_append peer n) (\<lambda>L' n' s'. L' = L \<and> (\<exists>fx. n' = emit fx n))"
  by (rule ok_run_mono [OF send_append_asks]) auto

lemma emit_emit [simp]: "emit fx (emit gx n) = emit (gx @ fx) n"
  by (simp add: emit_def)

lemma emit_role [simp]: "role (emit fx n) = role n" "storage (emit fx n) = storage n"
  "config (emit fx n) = config n" "members (emit fx n) = members n" "commit_index (emit fx n) = commit_index n"
  "current_term (emit fx n) = current_term n" "last_applied (emit fx n) = last_applied n"
  "state_machine (emit fx n) = state_machine n" "next_chan (emit fx n) = next_chan n"
  by (simp_all add: emit_def current_term_def)

lemma send_all_asks:
  "runs M sm w i L n s \<Longrightarrow>
     ok_run M sm w i s (seq_r send_append ps n) (\<lambda>L' n' s'. L' = L \<and> (\<exists>fx. n' = emit fx n \<and>
       (\<forall>l p. role n = Leader l \<longrightarrow> p \<in> set ps \<inter> M \<longrightarrow>
         (\<exists>rq x. SendRpc p rq x \<in> set fx \<and> asked (current_term n) (length L) (nxt_of l p (length L)) x))))"
proof (induction ps arbitrary: n s)
  case Nil
  moreover have "n = emit [] n" by (simp add: emit_def)
  ultimately show ?case by (auto intro: ok_run_ret)
next
  case (Cons p ps)
  show ?case unfolding seq_r.simps
  proof (rule ok_run_seq [OF send_append_asks [OF Cons.prems]], elim conjE exE)
    fix L' n' s' fx
    assume r': "runs M sm w i L' n' s'" and n': "L' = L" "n' = emit fx n"
      and fx: "\<forall>l. role n = Leader l \<longrightarrow> p \<in> M \<longrightarrow>
        (\<exists>rq x. SendRpc p rq x \<in> set fx \<and> asked (current_term n) (length L) (nxt_of l p (length L)) x)"
    from r' n' have "runs M sm w i L (emit fx n) s'" by simp
    from Cons.IH [OF this] show "ok_run M sm w i s' (seq_r send_append ps n') (\<lambda>L' n' s'. L' = L \<and> (\<exists>fx. n' = emit fx n \<and>
       (\<forall>l q. role n = Leader l \<longrightarrow> q \<in> set (p # ps) \<inter> M \<longrightarrow>
         (\<exists>rq x. SendRpc q rq x \<in> set fx \<and> asked (current_term n) (length L) (nxt_of l q (length L)) x))))"
      unfolding n'(2)
    proof (rule ok_run_mono, elim conjE exE)
      fix L'' n'' gx
      assume "n'' = emit gx (emit fx n)" "L'' = L" and gx: "\<forall>l q. role (emit fx n) = Leader l \<longrightarrow> q \<in> set ps \<inter> M \<longrightarrow>
         (\<exists>rq x. SendRpc q rq x \<in> set gx \<and> asked (current_term (emit fx n)) (length L) (nxt_of l q (length L)) x)"
      then show "L'' = L \<and> (\<exists>fx. n'' = emit fx n \<and> (\<forall>l q. role n = Leader l \<longrightarrow> q \<in> set (p # ps) \<inter> M \<longrightarrow>
         (\<exists>rq x. SendRpc q rq x \<in> set fx \<and> asked (current_term n) (length L) (nxt_of l q (length L)) x)))"
        using fx by (intro conjI exI [of _ "fx @ gx"]) (auto simp: emit_def current_term_def, blast+)
    qed
  qed
qed

lemma send_all_ok:
  "runs M sm w i L n s \<Longrightarrow>
     ok_run M sm w i s (seq_r send_append ps n) (\<lambda>L' n' s'. L' = L \<and> (\<exists>fx. n' = emit fx n))"
  by (rule ok_run_mono [OF send_all_asks]) auto

subsection \<open>Applying\<close>

text \<open>The loop applies exactly the entries between \<open>last_applied\<close> and \<open>commit_index\<close>, in order.\<close>

lemma apply_loop_ok:
  assumes "storage_ok (storage n)" and "snapshot_index (storage n) \<le> last_applied n"
    and "last_applied n \<le> commit_index n" and "commit_index n \<le> last_index (storage n)"
  shows "apply_loop n = Inr (n\<lparr>last_applied := commit_index n, state_machine := replay (state_machine n)
    (take (commit_index n - last_applied n) (entries_from (storage n) (last_applied n + 1)))\<rparr>)"
  using assms
proof (induction n rule: apply_loop.induct)
  case (1 n)
  let ?la = "last_applied n" and ?es = "entries_from (storage n)"
  show ?case
  proof (cases "?la < commit_index n")
    case False
    with 1 show ?thesis by (simp add: apply_loop.simps [of n] replay_def)
  next
    case True
    have ne: "0 < length (?es (?la + 1))"
      using True 1(3,5) by (simp add: length_entries_from)
    let ?e = "?es (?la + 1) ! 0"
    have e: "entry (storage n) (?la + 1) = Some ?e"
      using entries_from_nth [of "storage n" "?la + 1" 0] ne 1(3) by simp
    have es: "?es (?la + 1) = ?e # ?es (?la + 2)"
      using ne 1(3) by (simp add: entries_from_eq Suc_diff_le Cons_nth_drop_Suc)
    obtain d where d: "commit_index n - ?la = Suc d" "commit_index n - Suc ?la = d"
      using True by (cases "commit_index n - ?la") auto
    have "take (Suc d) (?es (Suc ?la)) = ?es (Suc ?la) ! 0 # take d (?es (Suc (Suc ?la)))"
      using arg_cong [OF es, of "take (Suc d)"] by simp
    then show ?thesis
      using 1(1) [OF True e] True 1(2-5) e d by (simp add: apply_loop.simps [of n] replay_def)
  qed
qed

lemma replay_append: "replay sm (xs @ ys) = replay (replay sm xs) ys"
  by (simp add: replay_def)

lemma replay_sel [simp]:
  "sm_snapshot_fn (replay sm es) = sm_snapshot_fn sm" "sm_restore_fn (replay sm es) = sm_restore_fn sm"
  "sm_apply_fn (replay sm es) = sm_apply_fn sm"
  unfolding replay_def by (induction es rule: rev_induct) (simp_all add: sm_apply_def)

lemma replay_eq: "replay sm es = sm\<lparr>sm_data := sm_data (replay sm es)\<rparr>"
proof -
  have "\<exists>d. replay sm es = sm\<lparr>sm_data := d\<rparr>"
    unfolding replay_def by (induction es rule: rev_induct) (auto simp: sm_apply_def intro: exI [of _ "sm_data sm"])
  then show ?thesis by force
qed

lemma find_config_plain: "plain es \<Longrightarrow> find_config es = None"
  by (induction es) (auto simp: plain_def plain_command_def split: command.splits)

lemma plain_rev: "plain (rev es) = plain es"
  by (simp add: plain_def)

lemma plain_filter: "plain es \<Longrightarrow> plain (filter P es)"
  by (simp add: plain_def list_all_iff)

text \<open>Compaction replaces a prefix of the retained log by a snapshot; the log that is held stays.\<close>

lemma runs_store:
  assumes r: "runs M sm w i L n s" and "holds_log L st" and "hard_state st = hard_state (storage n)"
    and "\<And>z. snapshot st = Some z \<Longrightarrow> snap_ok sm L z" and "snapshot_index st \<le> last_applied n"
    and "\<And>x. sg = Some x \<Longrightarrow> staged_ok sm L (last_applied n) x"
    and fx: "fx = [] \<and> st = storage n \<or> fx = [Stored st] \<and> whole (storage n) st"
  shows "runs M sm w i L (n\<lparr>storage := st, staged_snapshot := sg, effects := effects n @ fx\<rparr>) s"
proof (rule runs_abs [OF r])
  let ?n = "n\<lparr>storage := st, staged_snapshot := sg, effects := effects n @ fx\<rparr>"
  have t: "current_term ?n = current_term n" using assms(3) by (simp add: current_term_def)
  show "absp L ?n = absp L n" using assms(3) t by (simp add: absp_def)
  show "node_ok M sm i L ?n" using r assms(2,4-6) t by (simp add: runs_def at_run_def node_ok_def)
  show "net_ok sm s i L ?n" using r t fx by (auto simp: runs_def at_run_def net_ok_def)
  show "grown n ?n" using fx by (auto intro: grown_same grown_store)
qed

lemma compact_held:
  assumes "holds_log L st" and "snapshot_index st < b" and "b \<le> length L"
  shows "\<exists>t. compact_to st b v m = Inr (st\<lparr>snapshot := Some \<lparr>last_included_index = b, last_included_term = t,
      membership = m, state = v\<rparr>, log := drop (b - snapshot_index st) (log st)\<rparr>) \<and>
    holds_log L (st\<lparr>snapshot := Some \<lparr>last_included_index = b, last_included_term = t,
      membership = m, state = v\<rparr>, log := drop (b - snapshot_index st) (log st)\<rparr>)"
proof -
  note H = holds_logD [OF assms(1)]
  from assms H(2) obtain e where e: "entry st b = Some e" by (cases "entry st b") (auto simp: entry_None_iff)
  have "term_at st b = Some (lterm L b)" using H(4) assms by simp
  with e assms(2) have "entry_term e = lterm L b" by (simp add: term_at_above)
  with compact_to_ok [OF e] H(8) assms show ?thesis by (auto simp: holds_log_def)
qed

lemma maybe_compact_ok:
  assumes r: "runs M sm w i L n s"
  shows "ok_run M sm w i s (maybe_compact n)
    (\<lambda>L' n' s'. L' = L \<and> s' = s \<and> role n' = role n \<and> commit_index n' = commit_index n \<and>
       last_applied n' = last_applied n \<and> current_term n' = current_term n \<and> pending n' = pending n \<and>
       set (effects n) \<subseteq> set (effects n'))"
proof (cases "snapshot_threshold (config n)")
  case None
  then show ?thesis using r by (auto simp: maybe_compact_def intro: ok_run_ret)
next
  case (Some th)
  let ?b = "snapshot_index (storage n)" and ?la = "last_applied n"
  note H = holds_logD [OF runsD(6) [OF r]]
  have law: "lawful sm" using runsD(21) [OF r] Some by simp
  have la: "?b \<le> ?la" "?la \<le> length L" using runsD(9,10,20) [OF r] by simp_all
  define sg1 where "sg1 = (case staged_snapshot n of Some (k, _) \<Rightarrow> if k \<le> ?b then None else staged_snapshot n | None \<Rightarrow> None)"
  have sg1: "staged_ok sm L ?la x \<and> ?b < fst x" if "sg1 = Some x" for x
    using that runsD(19) [OF r, of x] by (auto simp: sg1_def split: option.splits if_splits)
  have mem: "membership_at (storage n) ?la = None"
    using runsD(18) [OF r] find_config_plain [OF plain_filter, of "rev (log (storage n))"] plain_drop [OF runsD(8) [OF r]] H(8)
    by (auto simp: membership_at_def plain_rev snap_ok_def split: option.splits bind_splits)
  define new where "new = (?la, sm_snapshot_fn (state_machine n) (sm_data (state_machine n)), None :: membership option)"
  have new: "staged_ok sm L ?la new"
    using law runsD(11) [OF r] by (simp add: new_def staged_ok_def lawful_def)
  define sg2 where "sg2 = (if sg1 = None \<and> ?la - ?b \<ge> max th 1 then Some new else sg1)"
  have sg2: "staged_ok sm L ?la x \<and> ?b < fst x" if "sg2 = Some x" for x
    using that sg1 new by (auto simp: sg2_def new_def split: if_splits)
  have n1: "(case staged_snapshot n of Some (k, _) \<Rightarrow> if k \<le> ?b then n\<lparr>staged_snapshot := None\<rparr> else n | None \<Rightarrow> n) =
      n\<lparr>staged_snapshot := sg1\<rparr>"
    by (cases n) (auto simp: sg1_def split: option.splits)
  have keep: "runs M sm w i L (n\<lparr>staged_snapshot := sg2\<rparr>) s"
    using runs_store [OF r runsD(6) [OF r] refl runsD(18) [OF r] la(1), of sg2 "[]"] sg2 by simp
  have eq: "maybe_compact n = (case sg2 of None \<Rightarrow> Inr (n\<lparr>staged_snapshot := sg2\<rparr>)
      | Some (k, v, m) \<Rightarrow> if ?la < k then Inl SubtractionUnderflow
          else if ?la - k \<ge> snapshot_trailing (config n)
          then store (compact_to (storage n) k v m) (n\<lparr>staged_snapshot := None\<rparr>)
          else Inr (n\<lparr>staged_snapshot := sg2\<rparr>))"
    using Some la(1) unfolding maybe_compact_def Let_def n1
    by (auto simp: sg2_def new_def mem split: option.splits)
  show ?thesis
  proof (cases sg2)
    case None
    then show ?thesis using keep eq by (auto simp: current_term_def intro!: ok_run_ret)
  next
    case (Some x)
    obtain k v m where x: "x = (k, v, m)" by (cases x)
    with sg2 [OF Some] have k: "?b < k" "k \<le> ?la" "m = None" "restores sm v (take k L)"
      by (auto simp: staged_ok_def)
    from compact_held [OF runsD(6) [OF r] k(1), of v m] k la obtain t st where
      st: "st = (storage n)\<lparr>snapshot := Some \<lparr>last_included_index = k, last_included_term = t,
        membership = m, state = v\<rparr>, log := drop (k - ?b) (log (storage n))\<rparr>"
      and c: "compact_to (storage n) k v m = Inr st" "holds_log L st" by auto
    have "whole (storage n) st" by (rule whole_shorter) (simp add: st)
    then have "runs M sm w i L (n\<lparr>storage := st, staged_snapshot := None, effects := effects n @ [Stored st]\<rparr>) s"
      by (intro runs_store [OF r c(2)]) (use k in \<open>auto simp: st snap_ok_def\<close>)
    moreover have "n\<lparr>storage := st, staged_snapshot := None, effects := effects n @ [Stored st]\<rparr> =
        emit [Stored st] (n\<lparr>staged_snapshot := None, storage := st\<rparr>)" by (simp add: emit_def)
    ultimately have "runs M sm w i L (emit [Stored st] (n\<lparr>staged_snapshot := None, storage := st\<rparr>)) s" by metis
    then show ?thesis using Some x eq k(2) c(1) keep
      by (auto simp: store_def current_term_def st emit_def intro!: ok_run_ret)
  qed
qed

text \<open>A waiter is told that its entry is committed only when it is.\<close>

lemma commit_decided:
  assumes r: "runs M sm w i L n s" and k: "k \<le> commit_index n"
  shows "decided s k (lterm L k)"
proof (cases "k = 0")
  case False
  let ?w = "put w i (absp L n) s"
  have I: "inv_choose (is_majority M) ?w" "inv_commit (is_majority M) ?w" "inv_done (is_majority M) ?w"
    using runs_inv [OF r] by (simp_all add: inv_def)
  have c: "p_commit (procs ?w i) = commit_index n" "lg_of ?w i = L" by simp_all
  with k False have "0 < p_commit (procs ?w i)" by simp
  from inv_doneD(5) [OF I(3) this] obtain u x lg where m: "MCommit u x lg \<in> ms ?w" "k \<le> x" using k c by auto
  note S = inv_commitD(1) [OF I(2), of i, unfolded c] and S' = inv_doneD(2,3) [OF I(3) m(1)]
  have "take k L = take k lg"
    by (rule raft_quorums.settled_prefixes [OF majority_locale [OF runsD(1) [OF r]] I(1) S S'(2) k m(2)])
  from lterm_take [of k k L lg, OF _ _ _ this] S' m(2) k settled_length [OF S] have "lterm L k = lterm lg k" by simp
  with m show ?thesis by (auto simp: decided_def)
qed (simp add: decided_def)

lemma resolve_pending_ok:
  assumes r: "runs M sm w i L n s"
  shows "runs M sm w i L (resolve_pending n) s"
proof -
  note H = holds_logD [OF runsD(6) [OF r]]
  let ?n = "n\<lparr>pending := filter (\<lambda>p. pending_outcome n p = None) (pending n)\<rparr>"
  have r': "runs M sm w i L ?n s" by (rule runs_core [OF _ r]) (simp add: core_def trace_def)
  have "decided s (pp_index p) (pp_term p)" if p: "pending_outcome n p = Some True" for p
  proof -
    from p have t: "term_at (storage n) (pp_index p) = Some (pp_term p)" "pp_index p \<le> commit_index n"
      by (auto simp: pending_outcome_def split: if_splits)
    with H(4,6) [of "pp_index p"] runsD(10) [OF r] have "lterm L (pp_index p) = pp_term p"
      by (cases "pp_index p < snapshot_index (storage n)") auto
    with commit_decided [OF r t(2)] show ?thesis by simp
  qed
  then show ?thesis unfolding resolve_pending_def
    by (intro runs_effects [OF r']) (auto split: option.splits)
qed

text \<open>The waiter \<open>p\<close> waits for an entry of the log \<open>L\<close>; it goes on waiting or is told that the entry is committed.\<close>

definition awaiting :: "'v log_entry list \<Rightarrow> ('v, 'sm) raft_node \<Rightarrow> pending_proposal \<Rightarrow> bool" where
  "awaiting L n p \<longleftrightarrow> p \<in> set (pending n) \<and> commit_index n < pp_index p \<and> pp_index p \<le> length L \<and>
     lterm L (pp_index p) = pp_term p"

definition answers :: "'v log_entry list \<Rightarrow> ('v, 'sm) raft_node \<Rightarrow> ('v, 'sm) raft_node \<Rightarrow> bool" where
  "answers L n n' \<longleftrightarrow> (\<forall>p. awaiting L n p \<longrightarrow> awaiting L n' p \<or> Committed p True \<in> set (effects n'))"

lemma answers_refl [simp]: "answers L n n"
  by (simp add: answers_def)

lemma resolve_pending_settles:
  assumes r: "runs M sm w i L n s" and p: "p \<in> set (pending n)" "snapshot_index (storage n) < pp_index p"
    "pp_index p \<le> length L" "lterm L (pp_index p) = pp_term p"
  shows "if pp_index p \<le> commit_index n then Committed p True \<in> set (effects (resolve_pending n))
    else p \<in> set (pending (resolve_pending n))"
proof -
  have "term_at (storage n) (pp_index p) = Some (pp_term p)"
    using holds_logD(4) [OF runsD(6) [OF r], of "pp_index p"] p by simp
  then have "pending_outcome n p = (if pp_index p \<le> commit_index n then Some True else None)"
    by (simp add: pending_outcome_def)
  then show ?thesis using p(1) by (force simp: resolve_pending_def emit_def)
qed

text \<open>Applying changes neither the role, nor the log that is held, nor the commit index.\<close>

lemma apply_committed_ok:
  fixes n :: "('a, 'b) raft_node"
  assumes r: "runs M sm w i L n s"
  shows "ok_run M sm w i s (apply_committed n)
    (\<lambda>L' n' s'. L' = L \<and> s' = s \<and> role_view (role n') = role_view (role n) \<and>
       sans_reads (role n') = sans_reads (role n) \<and> commit_index n' = commit_index n \<and> last_applied n' = commit_index n \<and>
       current_term n' = current_term n \<and> set (effects n) \<subseteq> set (effects n') \<and>
       (\<forall>p \<in> set (pending n). last_applied n < pp_index p \<longrightarrow> pp_index p \<le> length L \<longrightarrow> lterm L (pp_index p) = pp_term p \<longrightarrow>
          (if pp_index p \<le> commit_index n then Committed p True \<in> set (effects n') else p \<in> set (pending n'))))"
proof -
  note H = holds_logD [OF runsD(6) [OF r]]
  let ?la = "last_applied n" and ?c = "commit_index n"
  let ?n = "n\<lparr>last_applied := ?c, state_machine := replay sm (take ?c L)\<rparr>"
  have "take ?la L @ take (?c - ?la) (drop ?la L) = take ?c L"
    using take_add [of ?la "?c - ?la" L] runsD(9) [OF r] by simp
  then have loop: "apply_loop n = Inr ?n"
    using apply_loop_ok [OF holds_log_storage_ok [OF runsD(6,7) [OF r]] runsD(20,9) [OF r]]
      runsD(10,11) [OF r] H(2) H(7) [OF runsD(20) [OF r]]
    by (simp add: replay_append [symmetric])
  have "runs M sm w i L ?n s"
  proof (rule runs_abs [OF r])
    show "absp L ?n = absp L n" by (simp add: absp_def current_term_def)
    have "staged_ok sm L ?c x" if "staged_snapshot n = Some x" for x
      by (rule staged_ok_agree [OF runsD(19) [OF r that], of ?c]) (use runsD(9) [OF r] in simp_all)
    then show "node_ok M sm i L ?n" using r by (simp add: runs_def at_run_def node_ok_def current_term_def)
    show "net_ok sm s i L ?n" using r by (simp add: runs_def at_run_def net_ok_def current_term_def)
    show "grown n ?n" by (rule grown_same) simp_all
  qed
  note rn = this
  have rr: "pending (resolve_reads m) = pending m" "set (effects m) \<subseteq> set (effects (resolve_reads m))" for m :: "('a, 'b) raft_node"
    by (auto simp: resolve_reads_def emit_def split: role.splits)
  have sett: "if pp_index p \<le> ?c then Committed p True \<in> set (effects (resolve_reads (resolve_pending ?n)))
      else p \<in> set (pending (resolve_reads (resolve_pending ?n)))"
    if "p \<in> set (pending n)" "?la < pp_index p" "pp_index p \<le> length L" "lterm L (pp_index p) = pp_term p" for p
    using resolve_pending_settles [OF rn, of p] rr [of "resolve_pending ?n"] that runsD(20) [OF r] by (auto split: if_splits)
  have fx: "set (effects n) \<subseteq> set (effects (resolve_reads (resolve_pending ?n)))"
    using rr(2) [of "resolve_pending ?n"] by (auto simp: resolve_pending_def emit_def)
  from rn have "runs M sm w i L (resolve_pending ?n) s" by (rule resolve_pending_ok)
  then have r': "runs M sm w i L (resolve_reads (resolve_pending ?n)) s"
    by (rule runs_core [rotated]) simp
  have "core (resolve_reads (resolve_pending ?n)) = core (resolve_pending ?n)" by simp
  then have "role_view (role (resolve_reads (resolve_pending ?n))) = role_view (role n)"
    "sans_reads (role (resolve_reads (resolve_pending ?n))) = sans_reads (role n)"
    "commit_index (resolve_reads (resolve_pending ?n)) = ?c"
    "last_applied (resolve_reads (resolve_pending ?n)) = ?c"
    "current_term (resolve_reads (resolve_pending ?n)) = current_term n" 
    by (simp_all add: core_def current_term_def) (simp add: resolve_reads_def sans_reads_def emit_def split: role.splits)
  moreover have "apply_committed n = maybe_compact (resolve_reads (resolve_pending ?n))"
    using loop by (simp add: apply_committed_def)
  ultimately show ?thesis using sett fx by (auto intro!: ok_run_mono [OF maybe_compact_ok [OF r']])
qed

subsection \<open>Committing\<close>

lemma majority_index_held:
  fixes xs :: "nat list"
  assumes "0 < k" and "k \<le> length xs"
  shows "k \<le> length (filter (\<lambda>x. sort xs ! (length xs - k) \<le> x) xs)"
proof -
  let ?c = "sort xs ! (length xs - k)"
  have "\<forall>x \<in> set (drop (length xs - k) (sort xs)). ?c \<le> x"
  proof
    fix x assume "x \<in> set (drop (length xs - k) (sort xs))"
    then obtain j where "j < k" "x = sort xs ! (length xs - k + j)"
      using assms by (auto simp: in_set_conv_nth)
    then show "?c \<le> x" using assms by (auto intro: sorted_nth_mono)
  qed
  then have "filter (\<lambda>x. ?c \<le> x) (drop (length xs - k) (sort xs)) = drop (length xs - k) (sort xs)"
    by simp
  then have "k \<le> length (filter (\<lambda>x. ?c \<le> x) (take (length xs - k) (sort xs) @ drop (length xs - k) (sort xs)))"
    using assms unfolding filter_append by simp
  then show ?thesis by (simp add: filter_sort)
qed

text \<open>What the leader knows of the log of a member.\<close>

definition known_match :: "('v, 'sm) raft_node \<Rightarrow> leader_state \<Rightarrow> node_id \<Rightarrow> log_index" where
  "known_match n l j = (if j = cfg_id (config n) then last_index (storage n)
     else case match_index l j of Some m \<Rightarrow> m | None \<Rightarrow> 0)"

lemma replicated_known:
  assumes "is_member n"
  shows "length (filter P (replicated n l)) = card {j \<in> fset (fmdom (members n)). P (known_match n l j)}"
    and "length (replicated n l) = bt_len (members n)"
proof -
  let ?i = "cfg_id (config n)" and ?M = "fset (fmdom (members n))"
  let ?f = "\<lambda>j. case match_index l j of Some m \<Rightarrow> m | None \<Rightarrow> 0"
  have i: "?i \<in> ?M" using assms by (simp add: is_member_def)
  have set: "set (peer_ids n) = ?M - {?i}" by (auto simp: peer_ids_def)
  have dist: "distinct (peer_ids n)" by (simp add: peer_ids_def)
  have count: "length (filter P (replicated n l)) =
      card {j \<in> ?M. P (known_match n l j)}" for P
  proof -
    have "length (filter P (map ?f (peer_ids n))) = card {j \<in> ?M - {?i}. P (?f j)}"
      using distinct_card [of "filter (P \<circ> ?f) (peer_ids n)"] dist set
      by (simp add: filter_map o_def)
    moreover have "{j \<in> ?M. P (known_match n l j)} = {j \<in> ?M - {?i}. P (?f j)} \<union>
        (if P (last_index (storage n)) then {?i} else {})"
      using i by (auto simp: known_match_def)
    ultimately show ?thesis using assms by (auto simp: replicated_def)
  qed
  then show "length (filter P (replicated n l)) = card {j \<in> ?M. P (known_match n l j)}" .
  from count [of "\<lambda>_. True"] show "length (replicated n l) = bt_len (members n)"
    by (simp add: bt_len_card)
qed

lemma known_match_acked:
  assumes r: "runs M sm w i L n s" and l: "role n = Leader l" and "0 < c" and "c \<le> known_match n l j"
  shows "\<exists>m \<ge> c. MAck (current_term n) j m \<in> msgs s"
proof (cases "j = i")
  case True
  with assms(4) runsD(14) [OF r l] runs_id [OF r] holds_logD(2) [OF runsD(6) [OF r]] show ?thesis
    by (auto simp: known_match_def)
next
  case False
  with assms(3,4) runs_id [OF r] obtain m where "match_index l j = Some m" "c \<le> m"
    by (auto simp: known_match_def split: option.splits if_splits)
  with runsD(15) [OF r l, of j m] assms(3) show ?thesis by auto
qed

text \<open>What a peer acknowledged to a leader is within the leader's log.\<close>

lemma acked_in_log:
  assumes r: "runs M sm w i L n s" and l: "role n = Leader l" and a: "MAck (current_term n) j m \<in> msgs s"
  shows "m \<le> length L"
proof -
  let ?w = "put w i (absp L n) s"
  from runs_inv [OF r] have I: "inv_led (is_majority M) ?w" "inv_appends ?w" by (simp_all add: inv_def)
  have "ld ?w (trm ?w i) = Some (i, lg_of ?w i)"
    using l by (intro raft_quorums.led_leader [OF majority_locale [OF runsD(1) [OF r]] I(1)]) simp
  with inv_appendsD(3) [OF I(2), of "current_term n" j m] a show ?thesis by simp
qed

lemma known_match_log:
  assumes r: "runs M sm w i L n s" and l: "role n = Leader l"
  shows "known_match n l j \<le> length L"
proof (rule ccontr)
  assume "\<not> ?thesis"
  with known_match_acked [OF r l, of "Suc (length L)" j] obtain m where
    "Suc (length L) \<le> m" "MAck (current_term n) j m \<in> msgs s" by auto
  with acked_in_log [OF r l] show False by fastforce
qed

lemma known_match_same:
  "runs M sm w i L n s \<Longrightarrow> runs M sm w' i L n' s' \<Longrightarrow> match_index l' = match_index l \<Longrightarrow>
     known_match n' l' j = known_match n l j"
  using runs_id holds_logD(2) [OF runsD(6)] by (metis known_match_def)

lemma replicated_members:
  assumes "is_member n" and "x \<in> set (replicated n l)"
  obtains j where "j \<in> fset (fmdom (members n))" and "x = known_match n l j"
  using assms that [of "cfg_id (config n)"] that by (auto simp: replicated_def peer_ids_def known_match_def is_member_def)

text \<open>A leader has committed all of its log once every member is known to hold it and its last entry is of its
  own term. Committing changes nothing else of a leader, and what it commits it applies.\<close>

definition caught_up :: "node_id set \<Rightarrow> ('v, 'sm) raft_node \<Rightarrow> 'v log_entry list \<Rightarrow> bool" where
  "caught_up M n L \<longleftrightarrow> (\<forall>l. role n = Leader l \<longrightarrow> (\<forall>j \<in> M. length L \<le> known_match n l j) \<longrightarrow>
     lterm L (length L) = current_term n \<longrightarrow> length L \<le> commit_index n)"

definition advanced :: "('v, 'sm) raft_node \<Rightarrow> ('v, 'sm) raft_node \<Rightarrow> bool" where
  "advanced n n' \<longleftrightarrow> sans_reads (role n') = sans_reads (role n) \<and> current_term n' = current_term n \<and>
     commit_index n \<le> commit_index n' \<and> set (effects n) \<subseteq> set (effects n') \<and>
     (commit_index n' = commit_index n \<and> last_applied n' = last_applied n \<or> last_applied n' = commit_index n')"

lemma advanced_refl [simp]: "advanced n n"
  by (simp add: advanced_def)

lemma majority_card: "runs M sm w i L n s \<Longrightarrow> majority n = card M div 2 + 1"
  using runsD(4) [of M sm w i L n s] by (simp add: majority_def bt_len_card)

lemma majority_le_card:
  assumes "runs M sm w i L n s"
  shows "majority n \<le> card M"
proof -
  have "0 < card M" using runsD(1,2) [OF assms] by (auto simp: card_gt_0_iff)
  then show ?thesis using majority_card [OF assms] by simp
qed

lemma advance_to_majority_ok:
  fixes n :: "('a, 'b) raft_node"
  assumes r: "runs M sm w i L n s" and l: "role n = Leader l"
  shows "ok_run M sm w i s (advance_to_majority l n)
    (\<lambda>L' n' s'. L' = L \<and> role_view (role n') = role_view (role n) \<and> advanced n n' \<and> caught_up M n' L \<and> answers L n n')"
proof -
  define c where "c = sort (replicated n l) ! (length (replicated n l) - majority n)"
  note H = holds_logD [OF runsD(6) [OF r]]
  have len: "length (replicated n l) = card M"
    using replicated_known(2) [OF runs_member [OF r]] runsD(4) [OF r] by (simp add: bt_len_card)
  have "c \<in> set (sort (replicated n l))"
    unfolding c_def using len majority_le_card [OF r] by (intro nth_mem) (simp add: majority_def)
  then obtain j0 where j0: "j0 \<in> M" "c = known_match n l j0"
    using replicated_members [OF runs_member [OF r], of c l] runsD(4) [OF r] by auto
  show ?thesis
  proof (cases "c > commit_index n \<and> term_at (storage n) c = Some (current_term n)")
    case False
    then have "advance_to_majority l n = Inr n"
      by (auto simp: advance_to_majority_def Let_def c_def [symmetric])
    moreover have "caught_up M n L"
      unfolding caught_up_def
    proof (intro allI impI)
      fix l' assume "role n = Leader l'" and k: "\<forall>j \<in> M. length L \<le> known_match n l' j"
        and t: "lterm L (length L) = current_term n"
      with l j0 known_match_log [OF r l, of j0] have "c = length L" by (auto intro: antisym)
      with False t H(1,4) show "length L \<le> commit_index n" by auto
    qed
    ultimately show ?thesis using r by (auto intro: ok_run_ret)
  next
    case True
    have c: "c \<le> length L" using True H(5) [of c] by (cases "c \<le> length L") auto
    have "snapshot_index (storage n) \<le> c" using True runsD(9,20) [OF r] by simp
    from H(4) [OF this c] True have lt: "lterm L c = current_term n" by simp
    let ?Q = "{j \<in> M. c \<le> known_match n l j}"
    have "0 < majority n" by (simp add: majority_def)
    then have "majority n \<le> card ?Q"
      using majority_index_held [of "majority n" "replicated n l"] majority_le_card [OF r] len
        replicated_known(1) [OF runs_member [OF r], of "\<lambda>x. c \<le> x" l] runsD(4) [OF r]
      unfolding c_def [symmetric] by simp
    then have Q: "is_majority M ?Q" using majority_card [OF r] by (auto simp: is_majority_def)
    let ?n = "n\<lparr>commit_index := c\<rparr>"
    let ?s = "s\<lparr>msgs := insert (MCommit (current_term n) c (take c L)) (msgs s)\<rparr>"
    have "pstep (is_majority M) i (absp L n) s ((absp L n)\<lparr>p_commit := max (p_commit (absp L n)) c\<rparr>) ?s"
      using p_commit_to [of "absp L n" "is_majority M" ?Q c s i] Q True c lt l known_match_acked [OF r l] by auto
    moreover have "(absp L n)\<lparr>p_commit := max (p_commit (absp L n)) c\<rparr> = absp L ?n"
      using True by (simp add: absp_def current_term_def max_def)
    ultimately have "pstep (is_majority M) i (absp L n) s (absp L ?n) ?s" by simp
    moreover have "node_ok M sm i L ?n"
      using r True c runsD(9) [OF r] by (auto simp: runs_def at_run_def node_ok_def current_term_def)
    moreover have "e \<in> set (effects n) \<Longrightarrow> fx_ok sm ?s i e" for e
      by (rule runs_sends [OF r]) auto
    then have "net_ok sm ?s i L ?n"
      using runsD(14,15,17) [OF r l] l by (auto simp: net_ok_def current_term_def)
    moreover have "grown n ?n" by (rule grown_same) simp_all
    ultimately have "runs M sm w i L ?n ?s" by (rule runs_step [OF r])
    moreover have "advance_to_majority l n = apply_committed ?n"
      using True by (simp add: advance_to_majority_def Let_def c_def [symmetric])
    moreover have "answers L n n'"
      if "commit_index n' = c" "\<forall>p \<in> set (pending n). last_applied n < pp_index p \<longrightarrow> pp_index p \<le> length L \<longrightarrow>
        lterm L (pp_index p) = pp_term p \<longrightarrow> (if pp_index p \<le> c then Committed p True \<in> set (effects n') else p \<in> set (pending n'))"
      for n' :: "('a, 'b) raft_node"
      using that runsD(9) [OF r] by (fastforce simp: answers_def awaiting_def split: if_splits)
    moreover have "advanced n n' \<and> caught_up M n' L"
      if r': "runs M sm w i L n' s'" and n': "sans_reads (role n') = sans_reads (role n)" "commit_index n' = c"
        "last_applied n' = c" "current_term n' = current_term n" "set (effects n) \<subseteq> set (effects n')" for n' s'
    proof -
      from n'(1) l obtain l' where l': "role n' = Leader l'" "match_index l' = match_index l"
        by (metis sans_reads_Leader)
      note K = known_match_same [OF r r' l'(2)]
      show ?thesis using n' True l'(1) j0 K [of j0] by (auto simp: advanced_def caught_up_def)
    qed
    moreover have "current_term ?n = current_term n" by (simp add: current_term_def)
    ultimately show ?thesis
      using ok_run_mono [OF ok_run_from [OF apply_committed_ok [of M sm w i L ?n ?s], of s],
        of "\<lambda>L' n' s'. L' = L \<and> role_view (role n') = role_view (role n) \<and> advanced n n' \<and> caught_up M n' L \<and> answers L n n'"]
      by auto
  qed
qed

lemma maybe_advance_commit_ok:
  assumes r: "runs M sm w i L n s"
  shows "ok_run M sm w i s (maybe_advance_commit now n)
    (\<lambda>L' n' s'. L' = L \<and> role_view (role n') = role_view (role n) \<and> advanced n n' \<and> caught_up M n' L \<and> answers L n n')"
proof (cases "role n")
  case (Leader l)
  show ?thesis
  proof (cases "length (replicated n l) < majority n")
    case True
    then show ?thesis
      using replicated_known(2) [OF runs_member [OF r], of l] majority_le_card [OF r] runsD(4) [OF r] by (simp add: bt_len_card)
  next
    case False
    then have eq: "maybe_advance_commit now n = bind_r (advance_to_majority l n)
        (\<lambda>n. if is_leader n \<and> \<not> is_member n \<and> commit_index n \<ge> members_index n
          then become_follower now (current_term n) None n else Inr n)"
      using Leader by (simp add: maybe_advance_commit_def)
    show ?thesis unfolding eq
      by (rule ok_run_seq [OF advance_to_majority_ok [OF r Leader]])
        (auto simp: runs_member intro: ok_run_ret)
  qed
qed (use r in \<open>auto simp: maybe_advance_commit_def caught_up_def intro: ok_run_ret\<close>)

lemma core_heartbeat [simp]: "core (n\<lparr>next_heartbeat := t\<rparr>) = core n"
  by (simp add: core_def trace_def)

text \<open>A leader that does not hear from a majority steps down at the next tick, another one stays.\<close>

lemma on_heartbeat_tick_ok:
  assumes r: "runs M sm w i L n s"
  shows "ok_run M sm w i s (on_heartbeat_tick now n) (\<lambda>L' n' s'. L' = L \<and> current_term n' = current_term n \<and>
    (\<forall>l. role n = Leader l \<longrightarrow> role n' = (if heard now n l < majority n then Follower else Leader l)))"
proof (cases "\<exists>l. role n = Leader l \<and> heard now n l < majority n")
  case True
  then have "on_heartbeat_tick now n = become_follower now (current_term n) None n"
    by (auto simp: on_heartbeat_tick_def)
  then show ?thesis using True by (auto intro!: ok_run_mono [OF become_follower_ok [OF r order_refl]])
next
  case False
  then have eq: "on_heartbeat_tick now n = bind_r (seq_r send_append (replication_targets n) n)
      (\<lambda>n. Inr (n\<lparr>next_heartbeat := now + heartbeat_interval (config n)\<rparr>))"
    by (auto simp: on_heartbeat_tick_def split: role.splits)
  show ?thesis unfolding eq
    by (rule ok_run_seq [OF send_all_ok [OF r]], rule ok_run_ret, rule runs_core [rotated], assumption)
      (use False in \<open>auto simp: current_term_def emit_def\<close>)
qed

lemma heard_all:
  assumes r: "runs M sm w i L n s" and l: "\<And>p. p \<in> M \<Longrightarrow> p \<noteq> i \<Longrightarrow> last_contact l p = Some now"
  shows "majority n \<le> heard now n l"
proof -
  have s: "set (peer_ids n) = M - {i}" "distinct (peer_ids n)"
    using runsD(4) [OF r] runs_id [OF r] by (auto simp: peer_ids_def)
  have "0 < election_timeout_max (config n)" using runsD(3) [OF r] by (simp add: static_config_def)
  then have "filter (\<lambda>i. case last_contact l i of Some at \<Rightarrow> now - at < election_timeout_max (config n) | None \<Rightarrow> False)
      (peer_ids n) = peer_ids n"
    using s l by (intro filter_True) auto
  moreover have "card M = Suc (card (M - {i}))" using card.remove [OF runsD(1,2) [OF r]] .
  ultimately show ?thesis
    using majority_le_card [OF r] runs_member [OF r] distinct_card [OF s(2)] s(1) by (simp add: heard_def)
qed

subsection \<open>Leadership\<close>

text \<open>A leader appends an entry of its own term.\<close>

lemma holds_log_append:
  assumes "holds_log L st"
  shows "holds_log (L @ es) (st\<lparr>log := log st @ es\<rparr>)"
  using assms lterm_take [of "snapshot_index st" "snapshot_index st" L "L @ es"] by (simp add: holds_log_def)

lemma lterm_append: "k \<le> length L \<Longrightarrow> lterm (L @ es) k = lterm L k"
  by (auto simp: lterm_def nth_append)

lemma leader_append_ok:
  assumes r: "runs M sm w i L n s" and l: "role n = Leader l" and p: "plain_command cmd"
  shows "ok_run M sm w i s (store (append (storage n) [\<lparr>entry_term = current_term n,
      index = last_index (storage n) + 1, command = cmd\<rparr>]) n)
    (\<lambda>L' n' s'. L' = L @ [\<lparr>entry_term = current_term n, index = last_index (storage n) + 1, command = cmd\<rparr>] \<and>
       (\<exists>st. hard_state st = hard_state (storage n) \<and> n' = emit [Stored st] (n\<lparr>storage := st\<rparr>)))"
proof -
  let ?e = "\<lparr>entry_term = current_term n, index = last_index (storage n) + 1, command = cmd\<rparr>"
  let ?st = "(storage n)\<lparr>log := log (storage n) @ [?e]\<rparr>"
  let ?n = "emit [Stored ?st] (n\<lparr>storage := ?st\<rparr>)"
  let ?L = "L @ [?e]"
  let ?s = "s\<lparr>msgs := insert (MAck (current_term n) i (length ?L)) (msgs s),
    led := (led s)(current_term n \<mapsto> (i, ?L))\<rparr>"
  note H = holds_logD [OF runsD(6) [OF r]]
  have sends: "e \<in> set (effects n) \<Longrightarrow> fx_ok sm ?s i e" for e
    by (rule runs_sends [OF r]) auto
  have "pstep (is_majority M) i (absp L n) s ((absp L n)\<lparr>p_log := ?L\<rparr>) ?s"
    using l by (intro p_propose [of _ _ ?e]) simp_all
  moreover have "(absp L n)\<lparr>p_log := ?L\<rparr> = absp ?L ?n" by (simp add: absp_def current_term_def emit_def)
  ultimately have "pstep (is_majority M) i (absp L n) s (absp ?L ?n) ?s" by simp
  moreover have "node_ok M sm i ?L ?n"
  proof -
    have "contiguous_from 1 ?L" using runsD(7) [OF r] H(2) by (simp add: contiguous_from_append)
    moreover have "plain ?L" using runsD(8) [OF r] p by (simp add: plain_def)
    moreover have "snap_ok sm ?L z" if "snapshot (storage n) = Some z" for z
      by (rule snap_ok_agree [OF runsD(18) [OF r that], of "snapshot_index (storage n)"])
        (use that H(1) in \<open>auto simp: snapshot_index_def\<close>)
    moreover have "staged_ok sm ?L (last_applied n) x" if "staged_snapshot n = Some x" for x
      by (rule staged_ok_agree [OF runsD(19) [OF r that], of "last_applied n"]) (use runsD(9,10) [OF r] in simp_all)
    moreover have "lterm ?L (Suc (length L)) = current_term n" by (simp add: lterm_def)
    with runsD(22) [OF r l] have "lterm ?L (term_start_index l) = current_term n"
      by (cases "term_start_index l = Suc (length L)") (auto simp: lterm_append)
    ultimately show ?thesis
      using r l runsD(3,4,5,9,10,11,20,21,22) [OF r] runsD(22) [OF r l] runsD(12) [OF r l] holds_log_append [OF runsD(6) [OF r], of "[?e]"]
      by (auto simp: node_ok_def current_term_def le_SucI emit_def)
  qed
  moreover have "net_ok sm ?s i ?L ?n"
    using runsD(15,17) [OF r l] l sends by (auto simp: net_ok_def current_term_def emit_def)
  moreover have "grown n ?n" by (rule grown_store) (simp_all add: emit_def whole_shorter)
  ultimately have "runs M sm w i ?L ?n ?s" by (rule runs_step [OF r])
  moreover have "append (storage n) [?e] = Inr ?st" by (rule append_ok) simp
  moreover have "\<exists>st. hard_state st = hard_state (storage n) \<and> ?n = emit [Stored st] (n\<lparr>storage := st\<rparr>)"
    by (rule exI [of _ ?st]) simp
  ultimately show ?thesis by (auto simp: store_def intro!: ok_run_ret)
qed

lemma finite_votes: "runs M sm w i L n s \<Longrightarrow> finite {v \<in> vs. bt_contains (members n) v}"
  using runsD(1,4) [of M sm w i L n s] by (auto intro: finite_subset [of _ M])

lemma maybe_become_leader_ok:
  assumes r: "runs M sm w i L n s"
  shows "ok_run M sm w i s (maybe_become_leader now n) (\<lambda>L' n' s'. current_term n' = current_term n \<and>
    (\<forall>vs. role n = Candidate vs \<longrightarrow> (if count_member_votes n vs < majority n then n' = n else is_leader n')))"
proof (cases "\<exists>vs. role n = Candidate vs \<and> \<not> count_member_votes n vs < majority n")
  case False
  then have "maybe_become_leader now n = Inr n"
    by (auto simp: maybe_become_leader_def split: role.splits)
  then show ?thesis using r False by (auto intro!: ok_run_ret)
next
  case True
  then obtain vs where vs: "role n = Candidate vs" "majority n \<le> count_member_votes n vs" by auto
  let ?l = "fresh_leader now n"
  let ?n = "n\<lparr>role := Leader ?l, leader_id := Some (cfg_id (config n))\<rparr>"
  let ?s = "s\<lparr>msgs := msgs s \<union> {MAck (current_term n) i (length L), MLead (current_term n) i},
    led := (led s)(current_term n \<mapsto> (i, L))\<rparr>"
  let ?Q = "{v \<in> vs. v \<in> M}"
  have sends: "e \<in> set (effects n) \<Longrightarrow> fx_ok sm ?s i e" for e
    by (rule runs_sends [OF r]) auto
  have "is_majority M ?Q"
    using vs(2) majority_card [OF r] runsD(4) [OF r] by (auto simp: is_majority_def count_member_votes_def)
  moreover have "\<forall>v \<in> ?Q. \<exists>lg. MVote (current_term n) v i lg \<in> msgs s"
    using runsD(13) [OF r vs(1)] by auto
  ultimately have "pstep (is_majority M) i (absp L n) s ((absp L n)\<lparr>p_role := PLeader\<rparr>) ?s"
    using p_win [of "absp L n" "current_term n" "is_majority M" ?Q i s] vs(1) by simp
  moreover have "(absp L n)\<lparr>p_role := PLeader\<rparr> = absp L ?n" by (simp add: absp_def current_term_def)
  ultimately have "pstep (is_majority M) i (absp L n) s (absp L ?n) ?s" by simp
  moreover have "node_ok M sm i L ?n"
    using r holds_logD(2) [OF runsD(6) [OF r]]
    by (auto simp: runs_def at_run_def node_ok_def fresh_leader_def Let_def current_term_def split: if_splits)
  moreover have "net_ok sm ?s i L ?n"
    using sends by (auto simp: net_ok_def current_term_def fresh_leader_def Let_def split: if_splits)
  moreover have "grown n ?n" by (rule grown_same) simp_all
  ultimately have r': "runs M sm w i L ?n ?s" by (rule runs_step [OF r])
  have eq: "maybe_become_leader now n =
      bind_r (store (append (storage ?n) [\<lparr>entry_term = current_term ?n,
        index = last_index (storage ?n) + 1, command = Noop\<rparr>]) ?n)
      (\<lambda>n. bind_r (maybe_advance_commit now n) (on_heartbeat_tick now))"
    using vs by (simp add: maybe_become_leader_def Let_def)
  have tick: "ok_run M sm w i s3 (on_heartbeat_tick now n3) (\<lambda>L' n' s'. current_term n' = current_term n \<and> is_leader n')"
    if r3: "runs M sm w i L3 n3 s3" and n3: "sans_reads (role n3) = sans_reads (Leader ?l)"
      "current_term n3 = current_term n" for L3 n3 s3
  proof -
    from n3(1) obtain l3 where l3: "role n3 = Leader l3" "last_contact l3 = last_contact ?l" by (metis sans_reads_Leader)
    have "majority n3 \<le> heard now n3 l3"
      by (rule heard_all [OF r3])
        (use l3(2) runsD(4) [OF r] runs_id [OF r] in \<open>auto simp: fresh_leader_def Let_def peer_ids_def\<close>)
    with l3(1) n3(2) show ?thesis by (auto simp: is_leader_def intro!: ok_run_mono [OF on_heartbeat_tick_ok [OF r3]])
  qed
  have "ok_run M sm w i ?s (maybe_become_leader now n) (\<lambda>L' n' s'. current_term n' = current_term n \<and> is_leader n')"
    unfolding eq
  proof (rule ok_run_seq [OF leader_append_ok [OF r']])
    fix L2 n2 s2 assume r2: "runs M sm w i L2 n2 s2" and n2: "L2 = L @ [\<lparr>entry_term = current_term ?n,
        index = last_index (storage ?n) + 1, command = Noop\<rparr>] \<and>
        (\<exists>st. hard_state st = hard_state (storage ?n) \<and> n2 = emit [Stored st] (?n\<lparr>storage := st\<rparr>))"
    then have t2: "current_term n2 = current_term n" by (auto simp: current_term_def)
    show "ok_run M sm w i s2 (bind_r (maybe_advance_commit now n2) (on_heartbeat_tick now))
        (\<lambda>L' n' s'. current_term n' = current_term n \<and> is_leader n')"
      by (rule ok_run_seq [OF maybe_advance_commit_ok [OF r2]], rule tick) (use n2 t2 in \<open>auto simp: advanced_def\<close>)
  qed (simp_all add: plain_command_def)
  then show ?thesis using vs by (auto simp: ok_run_def wp_empty_iff)
qed

lemma emit_requests_ok:
  assumes r: "runs M sm w i L n s" and "\<And>p. req_ok sm s i (f p) (g p)"
  shows "runs M sm w i L (emit (map (\<lambda>p. SendRpc p (f p) (g p)) ps) n) s"
  by (rule runs_effects [OF r]) (use assms(2) in auto)

text \<open>A campaign: the next term, in which the node is the leader at once or has asked everyone else for a vote.\<close>

definition campaigns :: "node_id set \<Rightarrow> ('v, 'sm) raft_node \<Rightarrow> ('v, 'sm) raft_node \<Rightarrow> bool" where
  "campaigns M n n' \<longleftrightarrow> current_term n' = current_term n + 1 \<and>
     (if majority n \<le> 1 then is_leader n'
      else role n' = Candidate {cfg_id (config n)} \<and>
       (\<forall>p \<in> M - {cfg_id (config n)}. SendRpc p (RequestVote (vote_args (current_term n + 1) n))
          (VoteCtx (current_term n + 1)) \<in> set (effects n')))"

lemma one_vote: "runs M sm w i L n s \<Longrightarrow> {v \<in> {i}. v \<in> fset (fmdom (members n))} = {i}"
  using runsD(2,4) [of M sm w i L n s] by auto

lemma start_election_ok:
  fixes n :: "('a, 'b) raft_node"
  assumes r: "runs M sm w i L n s"
  shows "ok_run M sm w i s (start_election now n) (\<lambda>L' n' s'. campaigns M n n')"
proof -
  let ?t = "current_term n + 1" and ?lg = L
  let ?st = "(storage n)\<lparr>hard_state := \<lparr>hs_current_term = ?t, voted_for = Some i\<rparr>\<rparr>"
  let ?n = "(emit [Stored ?st] (n\<lparr>storage := ?st\<rparr>))\<lparr>role := Candidate {i}, leader_id := None\<rparr>"
  let ?s = "s\<lparr>msgs := msgs s \<union> {MVoteReq ?t i ?lg, MVote ?t i i ?lg}\<rparr>"
  have sends: "e \<in> set (effects n) \<Longrightarrow> fx_ok sm ?s i e" for e
    by (rule runs_sends [OF r]) auto
  have "pstep (is_majority M) i (absp L n) s
      ((absp L n)\<lparr>p_term := ?t, p_vote := Some i, p_role := PCandidate\<rparr>) ?s"
    using p_campaign [of ?t "absp L n" _ i s] by simp
  moreover have "(absp L n)\<lparr>p_term := ?t, p_vote := Some i, p_role := PCandidate\<rparr> = absp L ?n"
    by (simp add: absp_def current_term_def emit_def)
  ultimately have "pstep (is_majority M) i (absp L n) s (absp L ?n) ?s" by simp
  moreover have "node_ok M sm i L ?n" using r by (auto simp: runs_def at_run_def node_ok_def emit_def)
  moreover have "net_ok sm ?s i L ?n"
    using sends by (auto simp: net_ok_def current_term_def emit_def)
  moreover have "grown n ?n" by (rule grown_store) (simp_all add: emit_def)
  ultimately have r': "runs M sm w i L ?n ?s" by (rule runs_step [OF r])
  from reset_election_timer_ok [OF runsD(3) [OF r'], of now] obtain g d where
    t: "reset_election_timer now ?n = Inr (?n\<lparr>rng := g, election_deadline := d\<rparr>)" by blast
  let ?m = "?n\<lparr>rng := g, election_deadline := d\<rparr>"
  have m: "runs M sm w i L ?m ?s" by (rule runs_core [OF core_timer r'])
  have "req_ok sm ?s i (RequestVote (vote_args ?t ?m)) (VoteCtx ?t)"
    using runs_id [OF r] holds_logD(2,3) [OF runsD(6) [OF r']]
    by (auto simp: vote_args_def emit_def intro!: exI [of _ ?lg])
  note E = emit_requests_ok [OF m this]
  define fx :: "'a effect list" where "fx = map (\<lambda>p. SendRpc p (RequestVote (vote_args ?t ?m)) (VoteCtx ?t)) (peer_ids ?m)"
  have va: "vote_args ?t ?m = vote_args ?t n" by (simp add: vote_args_def emit_def)
  have ps: "set (peer_ids ?m) = M - {i}"
    using runsD(4) [OF r] runs_id [OF r] by (auto simp: peer_ids_def)
  have fx: "SendRpc p (RequestVote (vote_args ?t n)) (VoteCtx ?t) \<in> set fx" if "p \<in> M - {i}" for p
    using that ps va unfolding fx_def by auto
  from maybe_become_leader_ok [OF E [of "peer_ids ?m"]]
  have "ok_run M sm w i ?s (maybe_become_leader now (emit fx ?m)) (\<lambda>L' n' s'. current_term n' = ?t \<and>
      (if count_member_votes (emit fx ?m) {i} < majority (emit fx ?m) then n' = emit fx ?m else is_leader n'))"
    unfolding fx_def by (rule ok_run_mono) (simp add: current_term_def emit_def)
  then have "ok_run M sm w i ?s (maybe_become_leader now (emit fx ?m)) (\<lambda>L' n' s'. campaigns M n n')"
    by (rule ok_run_mono)
      (use fx runs_id [OF r] one_vote [OF r] in \<open>auto simp: campaigns_def emit_def count_member_votes_def majority_def split: if_splits\<close>)
  moreover have "start_election now n = maybe_become_leader now (emit fx ?m)"
    using t runs_id [OF r] by (simp add: start_election_def Let_def store_def save_hard_state_def fx_def)
  ultimately show ?thesis by (auto simp: ok_run_def wp_empty_iff)
qed

lemma maybe_start_election_ok:
  assumes r: "runs M sm w i L n s"
  shows "ok_run M sm w i s (maybe_start_election now n) (\<lambda>L' n' s'.
    \<forall>vs. role n = PreCandidate vs \<longrightarrow> (if count_member_votes n vs \<ge> majority n then campaigns M n n' else n' = n))"
proof (cases "\<exists>vs. role n = PreCandidate vs \<and> count_member_votes n vs \<ge> majority n")
  case True
  then have eq: "maybe_start_election now n = start_election now n" by (auto simp: maybe_start_election_def)
  show ?thesis unfolding eq by (rule ok_run_mono [OF start_election_ok [OF r]]) (use True in auto)
next
  case False
  then have "maybe_start_election now n = Inr n" by (auto simp: maybe_start_election_def split: role.splits)
  then show ?thesis using r False by (auto intro: ok_run_ret)
qed

lemma on_election_timeout_ok:
  fixes n :: "('a, 'b) raft_node"
  assumes r: "runs M sm w i L n s" and "\<not> is_leader n"
  shows "ok_run M sm w i s (on_election_timeout now n) (\<lambda>L' n' s'. if majority n \<le> 1 then campaigns M n n'
    else current_term n' = current_term n \<and> storage n' = storage n \<and> role n' = PreCandidate {i} \<and>
    (\<forall>p \<in> M - {i}. SendRpc p (PreVote (vote_args (current_term n + 1) n)) (PreVoteCtx (current_term n + 1)) \<in> set (effects n')))"
proof -
  let ?n = "n\<lparr>role := PreCandidate {cfg_id (config n)}, leader_id := None\<rparr>"
  have "pstep (is_majority M) i (absp L n) s ((absp L n)\<lparr>p_role := PFollower\<rparr>) s" by (rule p_step_down)
  moreover have "(absp L n)\<lparr>p_role := PFollower\<rparr> = absp L ?n" by (simp add: absp_def current_term_def)
  ultimately have "pstep (is_majority M) i (absp L n) s (absp L ?n) s" by simp
  moreover have "node_ok M sm i L ?n" using r by (auto simp: runs_def at_run_def node_ok_def)
  moreover have "net_ok sm s i L ?n" using runsD(16) [OF r] by (auto simp: net_ok_def)
  moreover have "grown n ?n" by (rule grown_same) simp_all
  ultimately have r': "runs M sm w i L ?n s" by (rule runs_step [OF r])
  from reset_election_timer_ok [OF runsD(3) [OF r'], of now] obtain g d where
    t: "reset_election_timer now ?n = Inr (?n\<lparr>rng := g, election_deadline := d\<rparr>)" by blast
  let ?m = "?n\<lparr>rng := g, election_deadline := d\<rparr>"
  have m: "runs M sm w i L ?m s" by (rule runs_core [OF core_timer r'])
  let ?t = "current_term n + 1"
  have "req_ok sm s i (PreVote (vote_args ?t ?m)) (PreVoteCtx ?t)" by simp
  note E = emit_requests_ok [OF m this]
  define fx :: "'a effect list" where "fx = map (\<lambda>p. SendRpc p (PreVote (vote_args ?t ?m)) (PreVoteCtx ?t)) (peer_ids ?m)"
  have va: "vote_args ?t ?m = vote_args ?t n" by (simp add: vote_args_def)
  have "set (peer_ids ?m) = M - {i}" using runsD(4) [OF r] runs_id [OF r] by (auto simp: peer_ids_def)
  then have fx: "SendRpc p (PreVote (vote_args ?t n)) (PreVoteCtx ?t) \<in> set fx" if "p \<in> M - {i}" for p
    using that va unfolding fx_def by auto
  have c: "campaigns M (emit fx ?m) n' = campaigns M n n'" for n'
    by (simp add: campaigns_def vote_args_def emit_def current_term_def majority_def)
  have v: "count_member_votes (emit fx ?m) {cfg_id (config n)} = 1" "majority (emit fx ?m) = majority n"
    using one_vote [OF r] runs_id [OF r] by (simp_all add: count_member_votes_def emit_def majority_def)
  have "on_election_timeout now n = maybe_start_election now (emit fx ?m)"
    using t runs_member [OF r] by (simp add: on_election_timeout_def Let_def fx_def)
  then show ?thesis
    using maybe_start_election_ok [OF E [of "peer_ids ?m"], folded fx_def, of now] fx runs_id [OF r]
    by (auto elim!: ok_run_mono simp: c v) (auto simp: emit_def current_term_def)
qed

end
