(* ===== verification/Turn_Refine.thy ===== *)
theory Turn_Refine
  imports Node_Refine
begin

section \<open>Every turn of the event loop refines the protocol\<close>

text \<open>
  The handlers of \<^verbatim>\<open>Node_Handlers\<close>: proposals, reads, the inbound RPCs, the replies. Each lemma says
  that the handler, started in a run of the protocol and given a request or reply that the protocol
  knows of, does not panic, ends in a run of the protocol, and that what it answers is true of the
  protocol.
\<close>

subsection \<open>Proposals and reads\<close>

lemma core_waiter [simp]: "core (n\<lparr>next_chan := c, pending := ps\<rparr>) = core n"
  by (simp add: core_def trace_def)

lemma emit_reply_ok:
  "runs M sm w i L n s \<Longrightarrow> (\<And>e. e \<in> set fx \<Longrightarrow> \<not> relevant e) \<Longrightarrow> runs M sm w i L (emit fx n) s"
  by (rule runs_core [OF core_emit])

text \<open>What a leader with the log \<open>L\<close>, whose last entry is its own, keeps true; that it has asked the peer \<open>p\<close>,
  whose next index it takes to be \<open>nxt\<close>; and that it knows the peer to hold its log up to \<open>m\<close>.\<close>

definition holding :: "node_id set \<Rightarrow> ('v, 'sm) raft_node \<Rightarrow> 'v log_entry list \<Rightarrow> bool" where
  "holding M n L \<longleftrightarrow> is_leader n \<and> lterm L (length L) = current_term n \<and> caught_up M n L \<and>
     (commit_index n < length L \<or> length L \<le> last_applied n)"

definition requested :: "('v, 'sm) raft_node \<Rightarrow> 'v log_entry list \<Rightarrow> node_id \<Rightarrow> log_index \<Rightarrow> bool" where
  "requested n L p nxt \<longleftrightarrow> (\<exists>l rq x. role n = Leader l \<and> nxt = nxt_of l p (length L) \<and>
     SendRpc p rq x \<in> set (effects n) \<and> asked (current_term n) (length L) nxt x)"

definition matched :: "('v, 'sm) raft_node \<Rightarrow> node_id \<Rightarrow> log_index \<Rightarrow> bool" where
  "matched n p m \<longleftrightarrow> (\<exists>l. role n = Leader l \<and> m \<le> entry_or (match_index l) p 0)"

lemma caught_up_emit [simp]: "caught_up M (emit fx n) L = caught_up M n L"
  by (simp add: caught_up_def known_match_def)

lemma advanced_applied:
  "advanced n n' \<Longrightarrow> last_applied n \<le> commit_index n \<Longrightarrow> commit_index n < k \<or> k \<le> last_applied n \<Longrightarrow>
     commit_index n' < k \<or> k \<le> last_applied n'"
  by (auto simp: advanced_def)

text \<open>The waiter of an accepted proposal waits for its entry, or was told that the entry is committed.\<close>

definition waiter_of :: "proposal \<Rightarrow> pending_proposal" where
  "waiter_of p = \<lparr>pp_term = proposal_term p, pp_index = proposal_index p, pp_committed = proposal_committed p\<rparr>"

definition told :: "'v log_entry list \<Rightarrow> proposal \<Rightarrow> ('v, 'sm) raft_node \<Rightarrow> bool" where
  "told L p n \<longleftrightarrow> awaiting L n (waiter_of p) \<or> Committed (waiter_of p) True \<in> set (effects n)"

lemma emit_fields: "effects (emit fx n) = effects n @ fx" "pending (emit fx n) = pending n"
  by (simp_all add: emit_def)

lemma told_emit: "told L p n \<Longrightarrow> told L p (emit fx n)"
  by (auto simp: told_def awaiting_def emit_def)

lemma accept_proposal_ok:
  assumes r: "runs M sm w i L n s" and l: "role n = Leader l" and p: "plain_command cmd"
  shows "ok_run M sm w i s (accept_proposal now cmd reply n)
    (\<lambda>L' n' s'. L' = L @ [\<lparr>entry_term = current_term n, index = last_index (storage n) + 1, command = cmd\<rparr>] \<and>
       current_term n' = current_term n \<and> holding M n' L' \<and> (\<forall>p \<in> M - {i}. \<exists>nxt. requested n' L' p nxt) \<and>
       (\<exists>p. ReplyPropose reply (Inr p) \<in> set (effects n') \<and> proposal_index p = length L' \<and> told L' p n'))"
proof -
  let ?L = "L @ [\<lparr>entry_term = current_term n, index = last_index (storage n) + 1, command = cmd\<rparr>]"
  let ?P = "\<lambda>L' n' s'. L' = ?L \<and> current_term n' = current_term n \<and> holding M n' L' \<and>
    (\<forall>p \<in> M - {i}. \<exists>nxt. requested n' L' p nxt) \<and>
    (\<exists>p. ReplyPropose reply (Inr p) \<in> set (effects n') \<and> proposal_index p = length L' \<and> told L' p n')"
  have send: "ok_run M sm w i s' (replicate_all n') ?P"
    if r': "runs M sm w i ?L n' s'" and n': "sans_reads (role n') = sans_reads (Leader l)"
      "current_term n' = current_term n" "caught_up M n' ?L" "commit_index n' < length ?L \<or> length ?L \<le> last_applied n'"
      "ReplyPropose reply (Inr pr) \<in> set (effects n')" "proposal_index pr = length ?L" "told ?L pr n'" for n' s' pr
  proof -
    from n'(1) obtain l' where l': "role n' = Leader l'" by (metis sans_reads_Leader)
    have ps: "M - {i} \<subseteq> set (replication_targets n')"
      using runsD(4) [OF r'] runs_id [OF r'] by (auto simp: replication_targets_def peer_ids_def)
    have "lterm ?L (length ?L) = current_term n" by (simp add: lterm_def)
    then have h: "holding M (emit fx n') ?L" for fx
      using l' n' by (simp add: holding_def caught_up_emit is_leader_def)
    have "requested (emit fx n') ?L p (nxt_of l' p (length ?L))"
      if "\<exists>rq x. SendRpc p rq x \<in> set fx \<and> asked (current_term n') (length ?L) (nxt_of l' p (length ?L)) x" for p fx
      using that l' unfolding requested_def by (auto simp: emit_def current_term_def)
    then have q: "\<exists>nxt. requested (emit fx n') ?L p nxt"
      if "p \<in> M - {i}" "\<forall>l p. role n' = Leader l \<longrightarrow> p \<in> set (replication_targets n') \<inter> M \<longrightarrow>
        (\<exists>rq x. SendRpc p rq x \<in> set fx \<and> asked (current_term n') (length ?L) (nxt_of l p (length ?L)) x)" for p fx
      using that l' ps by blast
    show ?thesis unfolding replicate_all_def
      by (rule ok_run_mono [OF send_all_asks [OF r']]) (use h q n'(2,5,6) told_emit [OF n'(7)] in \<open>auto simp: emit_fields\<close>)
  qed
  have cfg: "(case cmd of ConfigChange m \<Rightarrow> f m | _ \<Rightarrow> x) = x" for f and x :: "('v, 'sm) raft_node"
    using p by (auto simp: plain_command_def split: command.splits)
  have len: "last_index (storage n) + 1 = length ?L" using holds_logD(2) [OF runsD(6) [OF r]] by simp
  have *: "ok_run M sm w i s' (bind_r (maybe_advance_commit now (emit [ReplyPropose reply (Inr \<lparr>proposal_term = current_term n,
      proposal_index = last_index (storage n) + 1, proposal_committed = ch\<rparr>)] (n'\<lparr>next_chan := c, pending := ps @
        [\<lparr>pp_term = current_term n, pp_index = last_index (storage n) + 1, pp_committed = ch\<rparr>]\<rparr>)))
      replicate_all) ?P"
    if n': "runs M sm w i ?L n' s'" "role n' = Leader l" "current_term n' = current_term n" "commit_index n' = commit_index n"
      for n' s' c ps ch
  proof -
    let ?pr = "\<lparr>proposal_term = current_term n, proposal_index = last_index (storage n) + 1, proposal_committed = ch\<rparr>"
    let ?n = "emit [ReplyPropose reply (Inr ?pr)] (n'\<lparr>next_chan := c, pending := ps @
        [\<lparr>pp_term = current_term n, pp_index = last_index (storage n) + 1, pp_committed = ch\<rparr>]\<rparr>)"
    from n' have r': "runs M sm w i ?L ?n s'"
      by (intro emit_reply_ok runs_core [OF core_waiter]) auto
    have c: "commit_index ?n < length ?L" using n'(4) runsD(10) [OF r] by simp
    have n0: "sans_reads (role ?n) = sans_reads (Leader l)" "current_term ?n = current_term n"
      using n'(2,3) by (simp_all add: current_term_def emit_def)
    have "lterm ?L (length ?L) = current_term n" by (simp add: lterm_def)
    then have "awaiting ?L ?n (waiter_of ?pr)"
      using c len by (simp add: awaiting_def waiter_of_def) (simp add: emit_def)
    then have w: "told ?L ?pr m" if "answers ?L ?n m" for m using that by (auto simp: told_def answers_def)
    show ?thesis
      by (rule ok_run_seq [OF maybe_advance_commit_ok [OF r']], rule send [OF _ _ _ _ _ _ _ w])
        (use advanced_applied [OF _ runsD(9) [OF r']] c n0 w len in \<open>auto simp: advanced_def emit_def\<close>)
  qed
  show ?thesis
    unfolding accept_proposal_def Let_def cfg
    by (rule ok_run_seq [OF leader_append_ok [OF r l p]]) (rule *, use l in \<open>auto simp: current_term_def\<close>)
qed

lemma propose_accepts:
  "role n = Leader l \<Longrightarrow> plain_command cmd \<Longrightarrow> handle_propose now cmd reply n = accept_proposal now cmd reply n"
  by (auto simp: handle_propose_def is_leader_def plain_command_def split: command.splits)

lemma handle_propose_ok:
  assumes r: "runs M sm w i L n s" and p: "plain_command cmd"
  shows "ok_run M sm w i s (handle_propose now cmd reply n) (\<lambda>L' n' s'. True)"
proof (cases "role n")
  case (Leader l)
  show ?thesis unfolding propose_accepts [OF Leader p] by (rule ok_run_mono [OF accept_proposal_ok [OF r Leader p]]) simp
qed (use r in \<open>auto simp: handle_propose_def is_leader_def intro!: ok_run_ret emit_reply_ok\<close>)

lemma handle_read_ok:
  assumes r: "runs M sm w i L n s"
  shows "ok_run M sm w i s (handle_read reply n) (\<lambda>L' n' s'. True)"
proof (cases "role n")
  case (Leader l)
  define l' where "l' = l\<lparr>heartbeat_seq := heartbeat_seq l + 1,
    pending_reads := pending_reads l @ [\<lparr>needed_seq = heartbeat_seq l + 1,
      read_index = max (commit_index n) (term_start_index l), granted = next_chan n\<rparr>]\<rparr>"
  define n1 where "n1 = emit [ReplyRead reply (Inr (next_chan n))]
    (n\<lparr>role := Leader l', next_chan := next_chan n + 1\<rparr>)"
  have "core (n\<lparr>role := Leader l', next_chan := next_chan n + 1\<rparr>) = core n"
    using Leader by (simp add: core_def trace_def l'_def)
  then have r1: "runs M sm w i L n1 s"
    unfolding n1_def by (intro emit_reply_ok runs_core [OF _ r]) auto
  have eq: "handle_read reply n = bind_r (seq_r send_append (peer_ids n1) n1) (\<lambda>n. Inr (resolve_reads n))"
    using Leader by (simp add: handle_read_def Let_def n1_def l'_def)
  show ?thesis unfolding eq
    by (rule ok_run_seq [OF send_all_ok [OF r1]], rule ok_run_ret, rule runs_core [OF core_resolve_reads])
      auto
qed (use r in \<open>auto simp: handle_read_def intro!: ok_run_ret emit_reply_ok\<close>)

subsection \<open>Votes\<close>

lemma handle_request_vote_ok:
  assumes r: "runs M sm w i L n s" and q: "req_ok sm s c (RequestVote a) (VoteCtx t)"
  shows "wp {} (handle_request_vote now a n) (\<lambda>(n', rep). \<exists>L' s'. runs M sm w i L' n' s' \<and> msgs s \<subseteq> msgs s' \<and>
    (vote_granted rep \<longrightarrow> (\<exists>lg. MVote t i c lg \<in> msgs s')))"
proof -
  from q obtain lg where a: "t = rv_term a" "candidate_id a = c" "MVoteReq t c lg \<in> msgs s"
    "last_log_index a = length lg" "last_log_term a = lterm lg (length lg)" by auto
  have 1: "ok_run M sm w i s (if rv_term a > current_term n then become_follower now (rv_term a) None n
      else Inr n) (\<lambda>L' n' s'. s' = s \<and> t \<le> current_term n')"
  proof (cases "rv_term a > current_term n")
    case True
    then show ?thesis using a(1) by (auto intro: ok_run_mono [OF become_follower_ok [OF r]])
  next
    case False
    then show ?thesis using a(1) r by (auto intro: ok_run_ret)
  qed
  show ?thesis unfolding handle_request_vote_def
  proof (rule ok_run_bind [OF 1])
    fix L' n' s' assume r': "runs M sm w i L' n' s'" and "msgs s \<subseteq> msgs s'" and s': "s' = s \<and> t \<le> current_term n'"
    let ?vf = "voted_for (hard_state (storage n'))"
    let ?grant = "t = current_term n' \<and> ?vf \<in> {None, Some c} \<and> log_up_to_date a n'"
    let ?st = "(storage n')\<lparr>hard_state := \<lparr>hs_current_term = t, voted_for = Some c\<rparr>\<rparr>"
    let ?n = "emit [Stored ?st] (n'\<lparr>storage := ?st\<rparr>)"
    let ?s = "s\<lparr>msgs := insert (MVote t i c L') (msgs s)\<rparr>"
    show "wp {} (let t = current_term n'
          in if rv_term a < t then Inr (n', \<lparr>rvr_term = t, vote_granted = False\<rparr>)
             else
               let vf = voted_for (hard_state (storage n'));
                   can_vote = (vf = None \<or> vf = Some (candidate_id a))
               in if can_vote \<and> log_up_to_date a n' then
                    bind_r (store (save_hard_state (storage n')
                        \<lparr>hs_current_term = t, voted_for = Some (candidate_id a)\<rparr>) n')
                      (\<lambda>n. bind_r (reset_election_timer now n)
                        (\<lambda>n. Inr (n, \<lparr>rvr_term = t, vote_granted = True\<rparr>)))
                  else Inr (n', \<lparr>rvr_term = t, vote_granted = False\<rparr>))
       (\<lambda>(n', rep). \<exists>L' s'. runs M sm w i L' n' s' \<and> msgs s \<subseteq> msgs s' \<and>
          (vote_granted rep \<longrightarrow> (\<exists>lg. MVote t i c lg \<in> msgs s')))"
    proof (cases ?grant)
      case False
      with r' s' a(1,2) show ?thesis by (auto simp: wp_rules Let_def)
    next
      case True
      note H = holds_logD [OF runsD(6) [OF r']]
      have "up_to_date lg L'"
        using True a(4,5) H(2,3) by (simp add: log_up_to_date_def up_to_date_def)
      then have "pstep (is_majority M) i (absp L' n') s ((absp L' n')\<lparr>p_vote := Some c\<rparr>) ?s"
        using p_grant [of t c lg s "absp L' n'"] a(3) True by simp
      moreover have "(absp L' n')\<lparr>p_vote := Some c\<rparr> = absp L' ?n"
        using True by (simp add: absp_def current_term_def emit_def)
      ultimately have "pstep (is_majority M) i (absp L' n') s (absp L' ?n) ?s" by simp
      moreover have "node_ok M sm i L' ?n" using r' True by (auto simp: runs_def at_run_def node_ok_def current_term_def emit_def)
      moreover have "e \<in> set (effects n') \<Longrightarrow> fx_ok sm ?s i e" for e
        using s' by (intro runs_sends [OF r']) auto
      then have "net_ok sm ?s i L' ?n"
        using r' s' True by (auto simp: runs_def at_run_def net_ok_def current_term_def emit_def) blast+
      moreover have "grown n' ?n" by (rule grown_store) (simp_all add: emit_def)
      ultimately have r2: "runs M sm w i L' ?n ?s" using runs_step [of M sm w i L' n' s L' ?n ?s] r' s' by blast
      from reset_election_timer_ok [OF runsD(3) [OF r2], of now] obtain g d where
        t: "reset_election_timer now ?n = Inr (?n\<lparr>rng := g, election_deadline := d\<rparr>)" by blast
      have "runs M sm w i L' (?n\<lparr>rng := g, election_deadline := d\<rparr>) ?s" by (rule runs_core [OF core_timer r2])
      with t True a(1,2) show ?thesis
        by (auto simp: wp_rules Let_def store_def save_hard_state_def intro!: exI [of _ L'] exI [of _ ?s])
    qed
  qed
qed

subsection \<open>Log replication\<close>

text \<open>The walk over the batch, its truncation and its append compute \<open>merge_log\<close>, and \<open>merge_part\<close> when they are
  interrupted. The walk skips what is
  at or below the boundary \<open>b\<close> of the snapshot, where the batch agrees with the log.\<close>

lemma walk_merge:
  assumes "contiguous_from (p + 1) es" and "p \<le> length lg"
    and "\<And>k. b \<le> k \<Longrightarrow> tm k = (if k \<le> length lg then Some (lterm lg k) else None)" and "b \<le> length lg"
    and "\<And>k. k < length es \<Longrightarrow> p + k < b \<Longrightarrow> entry_term (lg ! (p + k)) = entry_term (es ! k)"
  shows "case walk_entries b tm es of
      AllHeld \<Rightarrow> merge_part z p es lg = lg
    | Missing j \<Rightarrow> j = length lg + 1 \<and> p < j \<and> j - p - 1 \<le> length es \<and>
        merge_part z p es lg = lg @ take z (drop (j - p - 1) es)
    | Conflict j \<Rightarrow> p < j \<and> b < j \<and> j \<le> length lg \<and> j - p - 1 < length es \<and>
        merge_part z p es lg = take (j - 1) lg @ take z (drop (j - p - 1) es) \<and>
        entry_term (lg ! (j - 1)) \<noteq> entry_term (es ! (j - p - 1))"
  using assms(1,2,5)
proof (induction es arbitrary: p)
  case Nil
  then show ?case by simp
next
  case (Cons e es)
  have i: "index e = p + 1" "contiguous_from (p + 1 + 1) es" using Cons.prems(1) by simp_all
  have below: "entry_term (lg ! (p + 1 + k)) = entry_term (es ! k)" if "k < length es" "p + 1 + k < b" for k
    using Cons.prems(3) [of "Suc k"] that by simp
  show ?case
  proof (cases "p < length lg")
    case False
    then show ?thesis using Cons.prems i assms(3) [of "p + 1"] assms(4) by simp
  next
    case True
    then have p1: "p + 1 \<le> length lg" by simp
    note IH = Cons.IH [OF i(2) p1 below]
    show ?thesis
    proof (cases "p + 1 \<le> b \<or> entry_term (lg ! p) = entry_term e")
      case False
      then show ?thesis using True i assms(3) [of "p + 1"] by (simp add: lterm_def)
    next
      case eq: True
      then have t: "entry_term (lg ! p) = entry_term e" using Cons.prems(3) [of 0] by auto
      have "walk_entries b tm (e # es) = walk_entries b tm es"
        using t True i assms(3) [of "p + 1"] by (simp add: lterm_def)
      with IH True t show ?thesis
        by (auto simp: Suc_diff_Suc split: walk.splits)
          (auto simp: Suc_diff_Suc nth_Cons' diff_Suc split: nat.splits)
    qed
  qed
qed

lemma merge_contiguous:
  "contiguous_from (p + 1) es \<Longrightarrow> contiguous_from 1 lg \<Longrightarrow> p \<le> length lg \<Longrightarrow> contiguous_from 1 (merge_part z p es lg)"
proof (induction z p es lg rule: merge_part.induct)
  case (2 z p e es lg)
  show ?case
  proof (cases "p < length lg \<and> entry_term (lg ! p) = entry_term e")
    case False
    have "contiguous_from (Suc p) (take z (e # es))" using contiguous_from_take [OF 2(2)] by simp
    with 2(3,4) contiguous_from_take [of 1 lg p] show ?thesis
      unfolding merge_part.simps if_not_P [OF False] by (simp add: contiguous_from_append min_def)
  qed (use 2 in auto)
qed simp

lemma merge_plain: "plain es \<Longrightarrow> plain lg \<Longrightarrow> plain (merge_part z p es lg)"
proof (induction z p es lg rule: merge_part.induct)
  case (2 z p e es lg)
  show ?case
  proof (cases "p < length lg \<and> entry_term (lg ! p) = entry_term e")
    case False
    from plain_take [OF 2(2), of z] plain_take [OF 2(3), of p] show ?thesis
      unfolding merge_part.simps if_not_P [OF False] by (simp add: plain_def)
  qed (use 2 in \<open>auto simp: plain_def\<close>)
qed simp

lemma merge_held:
  "p + length es \<le> length lg \<Longrightarrow> (\<And>k. k < length es \<Longrightarrow> entry_term (lg ! (p + k)) = entry_term (es ! k)) \<Longrightarrow>
     merge_log p es lg = lg"
proof (induction p es lg rule: merge_log.induct)
  case (2 p e es lg)
  have "entry_term (lg ! p) = entry_term e" using 2(3) [of 0] by simp
  moreover have "entry_term (lg ! (Suc p + k)) = entry_term (es ! k)" if "k < length es" for k
    using 2(3) [of "Suc k"] that by simp
  ultimately show ?case using 2(1,2) by simp
qed simp

lemma merge_cut: "p \<le> length lg \<Longrightarrow> merge_log p es lg = lg \<and> p + length es \<le> length lg \<or>
    length (merge_log p es lg) = p + length es"
  by (induction p es lg rule: merge_log.induct) auto

text \<open>A batch the protocol knows of is a piece of the leader's log, which agrees with every committed entry.\<close>

lemma known_batch:
  assumes r: "runs M sm w i L n s" and a: "MAppend (current_term n) p kt es c \<in> msgs s"
  obtains d Lt where "led s (current_term n) = Some (d, Lt)" and "p + length es \<le> length Lt"
    and "es = take (length es) (drop p Lt)" and "kt = lterm Lt p" and "commit_index n \<le> length Lt"
    and "take (commit_index n) Lt = take (commit_index n) L" and "wf_log (led s) Lt" and "wf_log (led s) L"
proof -
  let ?w = "put w i (absp L n) s"
  from runs_inv [OF r] have I: "inv_logs ?w" "inv_appends ?w" "inv_choose (is_majority M) ?w"
    "inv_commit (is_majority M) ?w" by (simp_all add: inv_def)
  from inv_appendsD(1) [OF I(2), of "current_term n" p kt es c] a obtain d Lt where
    Lt: "ld ?w (trm ?w i) = Some (d, Lt)" "p + length es \<le> length Lt" "es = take (length es) (drop p Lt)"
      "kt = lterm Lt p" by auto
  from raft_quorums.settled_led [OF majority_locale [OF runsD(1) [OF r]] I(3) inv_commitD(1) [OF I(4), of i] Lt(1)]
  have "commit_index n \<le> length Lt" "take (commit_index n) Lt = take (commit_index n) L" by simp_all
  with that Lt inv_logsD(1) [OF I(1), of i] inv_logsD(6) [OF I(1) Lt(1)] show thesis by simp
qed

lemma commit_kept:
  assumes r: "runs M sm w i L n s" and a: "MAppend (current_term n) p kt es c \<in> msgs s"
    and p: "p \<le> length L" "lterm L p = kt"
  shows "commit_index n \<le> length (merge_part z p es L)"
    and "take (commit_index n) (merge_part z p es L) = take (commit_index n) L"
    and "k < length es \<Longrightarrow> p + k < commit_index n \<Longrightarrow> entry_term (L ! (p + k)) = entry_term (es ! k)"
    and "p \<le> length (merge_part z p es L) \<and> lterm (merge_part z p es L) p = kt"
proof -
  from known_batch [OF r a] obtain d Lt where
    Lt: "led s (current_term n) = Some (d, Lt)" "p + length es \<le> length Lt"
    "es = take (length es) (drop p Lt)" "kt = lterm Lt p" "commit_index n \<le> length Lt"
    "take (commit_index n) Lt = take (commit_index n) L" "wf_log (led s) Lt" "wf_log (led s) L" .
  have tp: "take p L = take p Lt"
    using consistency_check [OF Lt(8,7) p(1)] Lt(2,4) p(2) by simp
  note M = merge_part_agrees [OF Lt(8,7) p(1) tp Lt(3,2), where z = z]
  from M(2) [of "commit_index n"] Lt(5,6) runsD(10) [OF r]
  show "commit_index n \<le> length (merge_part z p es L)"
    "take (commit_index n) (merge_part z p es L) = take (commit_index n) L" by simp_all
  from M(2) [of p] tp p Lt(2,4) lterm_take [of p p "merge_part z p es L" Lt]
  show "p \<le> length (merge_part z p es L) \<and> lterm (merge_part z p es L) p = kt" by simp
  assume k: "k < length es" "p + k < commit_index n"
  have "es ! k = Lt ! (p + k)" using Lt(2,3) k(1) by (metis nth_take nth_drop add_leD1)
  also have "\<dots> = L ! (p + k)" using take_eq_nth [OF Lt(6) k(2) Lt(5) runsD(10) [OF r]] .
  finally show "entry_term (L ! (p + k)) = entry_term (es ! k)" by simp
qed

text \<open>The disk of a follower that was interrupted while it took over a batch.\<close>

lemma part_at:
  assumes r: "runs M sm w i L n s" and a: "MAppend (current_term n) p kt es c \<in> msgs s"
    and role: "role n = Follower" and p: "p \<le> length L" "lterm L p = kt"
    and es: "contiguous_from (p + 1) es" "plain es"
    and st: "st = (storage n)\<lparr>log := drop (snapshot_index (storage n)) (merge_part z p es L)\<rparr>"
  shows "at_run M sm w i (merge_part z p es L) (emit [Stored st] (n\<lparr>storage := st\<rparr>)) s"
proof -
  let ?L = "merge_part z p es L" and ?n = "emit [Stored st] (n\<lparr>storage := st\<rparr>)"
  note K = commit_kept [OF r a p, of z]
  have b: "snapshot_index (storage n) \<le> commit_index n" using runsD(9,20) [OF r] by simp
  have "pstep (is_majority M) i (absp L n) s ((absp L n)\<lparr>p_log := ?L\<rparr>) s"
    using p_part [OF a, of "absp L n"] role p by simp
  moreover have "(absp L n)\<lparr>p_log := ?L\<rparr> = absp ?L ?n"
    using st by (simp add: absp_def current_term_def emit_def)
  ultimately have "wstep (is_majority M) (put w i (absp L n) s) (put w i (absp ?L ?n) s)"
    using wstep.intros [of "is_majority M" i "put w i (absp L n) s" "absp ?L ?n" s] by (simp add: put_def)
  moreover have "node_ok M sm i ?L ?n"
  proof -
    have "staged_ok sm ?L (last_applied n) x" if "staged_snapshot n = Some x" for x
      by (rule staged_ok_agree [OF runsD(19) [OF r that] K(2) runsD(9) [OF r] order_refl])
    moreover have "holds_log ?L st"
      using holds_log_replace [OF runsD(6) [OF r]] take_eq_mono [OF K(2) b] K(1) b st by simp
    moreover have "snap_ok sm ?L x" if "snapshot st = Some x" for x
      using snap_ok_agree [OF runsD(18) [OF r], of x "commit_index n"] that st K(2) b by (simp add: snapshot_index_def)
    moreover have "take (last_applied n) ?L = take (last_applied n) L" by (rule take_eq_mono [OF K(2) runsD(9) [OF r]])
    ultimately show ?thesis
      using r role K(1) merge_plain [OF es(2) runsD(8) [OF r]] merge_contiguous [OF es(1) runsD(7) [OF r] p(1)] st
      by (simp add: runs_def at_run_def node_ok_def emit_def)
  qed
  moreover have "net_ok sm s i ?L ?n" using role runsD(16) [OF r] by (auto simp: net_ok_def emit_def)
  ultimately show ?thesis using r by (auto simp: runs_def at_run_def)
qed

text \<open>The append of what is missing: a crash on the way leaves a part of it.\<close>

lemma append_part_ok:
  assumes r: "runs M sm w i L n s" and a: "MAppend (current_term n) p kt es c \<in> msgs s"
    and role: "role n = Follower" and p: "p \<le> length L" "lterm L p = kt"
    and es: "contiguous_from (p + 1) es" "plain es"
    and rest: "\<And>z. merge_part z p es L = L @ take z rest" "contiguous_from (length L + 1) rest"
  shows "\<exists>n'. store (append (storage n) rest) n = Inr n' \<and> runs M sm w i (merge_log p es L) n' s \<and>
    role n' = role n \<and> commit_index n' = commit_index n \<and> current_term n' = current_term n"
proof -
  let ?b = "snapshot_index (storage n)"
  note H = holds_logD [OF runsD(6) [OF r]]
  define st where "st z = (storage n)\<lparr>log := log (storage n) @ take z rest\<rparr>" for z
  have "st z = (storage n)\<lparr>log := drop ?b (merge_part z p es L)\<rparr>" for z
    using H(1,8) by (simp add: st_def rest(1))
  note P = part_at [OF r a role p es this]
  define z where "z = max (length rest) (length es)"
  let ?n = "emit [Stored (st z)] (n\<lparr>storage := st z\<rparr>)"
  have "append (storage n) rest = Inr (st z)"
    using append_ok [of "storage n" rest] rest(2) H(2) by (simp add: st_def z_def)
  then have eq: "store (append (storage n) rest) n = Inr ?n" by (simp add: store_def)
  have sub: "set (trace n) \<subseteq> set (effects n)" by (auto simp: trace_def)
  have a': "at_run M sm w i L n s" and l: "\<And>d. last_stored None (trace n) = Some d \<Longrightarrow> d = storage n"
    using r by (auto simp: runs_def trail_ok_def)
  have "runs M sm w i (merge_part z p es L) ?n s"
  proof (rule trail_step [OF r P])
    show "trace ?n = trace n @ [Stored (st z)]" by (simp add: trace_def emit_def)
    show "left_ok M sm w i (config n) (trace n @ gx) d"
      if e: "[Stored (st z)] = gx @ hx" and lb: "left_whole (trace n @ gx) hx d" for gx hx d
    proof (cases gx)
      case (Cons g gs)
      with e lb have "gx = [Stored (st z)]" "d = st z" by (auto simp: left_whole_def split: option.splits list.splits)
      with left_ok_self [OF P [of z], of "trace n @ gx"] sub show ?thesis by (auto simp: emit_def)
    next
      case Nil
      have "cut_short (storage n) (st z) (st z)" by (auto simp: cut_short_def st_def)
      with Nil e lb l have "d = storage n \<or> cut_short (storage n) (st z) d"
        by (auto simp: left_whole_def split: option.splits)
      then show ?thesis
      proof
        assume "d = storage n"
        then show ?thesis using left_ok_self [OF a' sub] Nil by simp
      next
        assume "cut_short (storage n) (st z) d"
        then obtain es1 es2 where "take z rest = es1 @ es2" "d = (storage n)\<lparr>log := log (storage n) @ es1\<rparr>"
          by (auto simp: cut_short_def st_def)
        then have "d = st (length es1)" by (simp add: st_def z_def)
        with left_ok_self [OF P [of "length es1"], of "trace n"] sub Nil show ?thesis by (auto simp: emit_def)
      qed
    qed
  qed (simp_all add: emit_def)
  moreover have "merge_part z p es L = merge_log p es L" by (rule merge_part_full) (simp add: z_def)
  ultimately show ?thesis using eq by (auto simp: st_def current_term_def)
qed

text \<open>The whole treatment of a batch, up to the commit index.\<close>

definition merge_batch ::
    "instant \<Rightarrow> 'v append_entries_args \<Rightarrow> ('v, 'sm) raft_node \<Rightarrow> panic + ('v, 'sm) raft_node" where
  "merge_batch now args n =
     bind_r (reconcile now args n)
       (\<lambda>(from, n). case from of None \<Rightarrow> Inr n | Some i \<Rightarrow> append_rest now args i n)"

lemma truncate_part_ok:
  assumes r: "runs M sm w i L n s" and a: "MAppend (current_term n) p kt es c \<in> msgs s"
    and role: "role n = Follower" and p: "p \<le> length L" "lterm L p = kt"
    and es: "contiguous_from (p + 1) es" "plain es"
    and j: "snapshot_index (storage n) < j" "j \<le> length L" "merge_part 0 p es L = take (j - 1) L"
  shows "\<exists>n'. truncate_conflict now j n = Inr n' \<and> runs M sm w i (take (j - 1) L) n' s \<and>
    role n' = role n \<and> commit_index n' = commit_index n \<and> current_term n' = current_term n"
proof -
  let ?b = "snapshot_index (storage n)"
  note H = holds_logD [OF runsD(6) [OF r]]
  let ?st = "(storage n)\<lparr>log := drop ?b (take (j - 1) L)\<rparr>"
  let ?m = "emit [Stored ?st] (n\<lparr>storage := ?st\<rparr>)"
  have "commit_index n < j" using commit_kept(1) [OF r a p, of 0] j by simp
  moreover have "take (j - ?b - 1) (log (storage n)) = drop ?b (take (j - 1) L)"
    using j(1) H(8) by (simp add: take_drop)
  moreover have "j > members_index n" using runsD(5) [OF r] j(1) by simp
  ultimately have tr: "truncate_conflict now j n = Inr (resolve_pending ?m)"
    using j truncate_from_ok [OF j(1)] by (simp add: truncate_conflict_def store_def Let_def)
  have "whole (storage n) ?st" using H(8) j by (intro whole_shorter) simp
  then have "runs M sm w i (take (j - 1) L) ?m s"
    using part_at [OF r a role p es refl, of 0] j(3)
    by (intro runs_grown [OF r]) (simp_all add: grown_store emit_def)
  from resolve_pending_ok [OF this] tr show ?thesis by (simp add: current_term_def)
qed

lemma bind_r_ret: "bind_r m Inr = m"
  by (cases m) simp_all

lemma merge_batch_ok:
  assumes r: "runs M sm w i L n s"
    and m: "MAppend (current_term n) (prev_log_index a) kt (entries a) c \<in> msgs s"
    and role: "role n = Follower" and p: "prev_log_index a \<le> length L" "lterm L (prev_log_index a) = kt"
    and es: "contiguous_from (prev_log_index a + 1) (entries a)" "plain (entries a)"
  shows "\<exists>n'. merge_batch now a n = Inr n' \<and> runs M sm w i (merge_log (prev_log_index a) (entries a) L) n' s \<and>
    role n' = role n \<and> commit_index n' = commit_index n \<and> current_term n' = current_term n"
proof -
  let ?p = "prev_log_index a" and ?es = "entries a" and ?b = "snapshot_index (storage n)"
  note H = holds_logD [OF runsD(6) [OF r]]
  have tm: "term_at (storage n) k = (if k \<le> length L then Some (lterm L k) else None)" if "?b \<le> k" for k
    using H(4) [OF that] H(5) [of k] by simp
  have "?b \<le> commit_index n" using runsD(9,20) [OF r] by simp
  then have b: "entry_term (L ! (?p + k)) = entry_term (?es ! k)" if "k < length ?es" "?p + k < ?b" for k
    using commit_kept(3) [OF r m p] that by simp
  have fc: "find_config (rev (drop k ?es)) = None" for k
    by (simp add: find_config_plain plain_rev plain_drop es(2))
  have ap: "append_rest now a j n' = store (append (storage n') (drop (j - ?p - 1) ?es)) n'"
    if "?p < j" "j - ?p - 1 \<le> length ?es" for j n'
    using that fc [of "j - ?p - 1"] by (simp add: append_rest_def Let_def bind_r_ret)
  note W = walk_merge [OF es(1) p(1) tm H(1) b]
  show ?thesis
  proof (cases "walk_entries ?b (term_at (storage n)) ?es")
    case AllHeld
    with W [where z = "length ?es"] r show ?thesis
      by (intro exI [of _ n]) (simp add: merge_batch_def reconcile_def merge_log_part)
  next
    case (Missing j)
    let ?rest = "drop (j - ?p - 1) ?es"
    have j: "j = length L + 1" "?p < j" "j - ?p - 1 \<le> length ?es" "merge_part z ?p ?es L = L @ take z ?rest" for z
      using W [where z = z] Missing by auto
    have "contiguous_from (length L + 1) ?rest"
      using contiguous_from_drop [OF es(1), of "j - ?p - 1"] j(1,2) by simp
    from append_part_ok [OF r m role p es j(4) this] Missing ap [OF j(2,3), of n] show ?thesis
      by (auto simp: merge_batch_def reconcile_def)
  next
    case (Conflict j)
    let ?rest = "drop (j - ?p - 1) ?es" and ?L = "take (j - 1) L"
    have j: "?p < j" "?b < j" "j \<le> length L" "j - ?p - 1 \<le> length ?es" "merge_part z ?p ?es L = ?L @ take z ?rest" for z
      using W [where z = z] Conflict by simp_all
    from j(5) [of 0] have j0: "merge_part 0 ?p ?es L = ?L" by simp
    from truncate_part_ok [OF r m role p es j(2,3) j0, of now] obtain n' where
      n': "truncate_conflict now j n = Inr n'" "runs M sm w i ?L n' s" "role n' = role n"
        "commit_index n' = commit_index n" "current_term n' = current_term n" by blast
    have p': "?p \<le> length ?L" "lterm ?L ?p = kt" using commit_kept(4) [OF r m p, of 0] j0 by simp_all
    have again: "merge_part z ?p ?es ?L = ?L @ take z ?rest" for z
      using merge_part_again [OF p(1), of z ?es 0] j(5) j0 by simp
    have "merge_log ?p ?es ?L = merge_log ?p ?es L" unfolding merge_log_part again j(5) ..
    moreover have "contiguous_from (length ?L + 1) ?rest"
      using contiguous_from_drop [OF es(1), of "j - ?p - 1"] j(1-3) by simp
    ultimately show ?thesis
      using append_part_ok [OF n'(2) _ _ p' es again] m role n' Conflict ap [OF j(1,4), of n']
      by (auto simp: merge_batch_def reconcile_def)
  qed
qed

lemma bind_r_assoc: "bind_r (bind_r m f) g = bind_r m (\<lambda>x. bind_r (f x) g)"
  by (cases m) simp_all

lemma merge_batch_bind:
  "bind_r (reconcile now a n) (\<lambda>(from, n). bind_r (case from of None \<Rightarrow> Inr n | Some i \<Rightarrow> append_rest now a i n) g) =
     bind_r (merge_batch now a n) g"
  by (cases "reconcile now a n") (auto simp: merge_batch_def split: prod.splits)

lemma prev_matches_held:
  assumes r: "runs M sm w i L n s"
    and a: "MAppend (current_term n) (prev_log_index a) (prev_log_term a) es c \<in> msgs s"
    and m: "prev_matches (storage n) a"
  shows "prev_log_index a \<le> length L" and "lterm L (prev_log_index a) = prev_log_term a"
proof -
  let ?p = "prev_log_index a" and ?b = "snapshot_index (storage n)"
  note H = holds_logD [OF runsD(6) [OF r]]
  have "?p \<le> length L \<and> lterm L ?p = prev_log_term a"
  proof (cases "?p < ?b")
    case True
    from known_batch [OF r a] obtain d Lt where
      Lt: "prev_log_term a = lterm Lt ?p" "commit_index n \<le> length Lt"
      "take (commit_index n) Lt = take (commit_index n) L" by metis
    have "?p \<le> commit_index n" using True runsD(9,20) [OF r] by simp
    with lterm_take [of ?p "commit_index n" Lt L] Lt runsD(10) [OF r] show ?thesis by simp
  next
    case False
    then show ?thesis using m H(4) [of ?p] H(5) [of ?p]
      by (cases "?p \<le> length L") (auto simp: prev_matches_def)
  qed
  then show "?p \<le> length L" "lterm L ?p = prev_log_term a" by blast+
qed

text \<open>Accepting a batch of the protocol: the log becomes \<open>L'\<close>, of which the storage keeps everything above its
  boundary, which may have moved up to \<open>b\<close> with the commit index and the applied state.\<close>

lemma accept_ok:
  assumes r: "runs M sm w i L n s" and a: "MAppend t p kt es c \<in> msgs s" and t: "current_term n = t"
    and role: "role n = Follower" and p: "p \<le> length L" "lterm L p = kt"
    and es: "contiguous_from (p + 1) es" "plain es"
    and c': "c' = max (commit_index n) (min c (p + length es))"
    and st: "holds_log (merge_log p es L) st" "hard_state st = hard_state (storage n)"
      "\<And>z. snapshot st = Some z \<Longrightarrow> snap_ok sm (merge_log p es L) z" "snapshot_index st \<le> la"
    and la: "last_applied n \<le> la" "la \<le> c'" "sm' = replay sm (take la (merge_log p es L))"
    and fx: "fx = [] \<and> st = storage n \<or> fx = [Stored st] \<and> whole (storage n) st"
  shows "runs M sm w i (merge_log p es L) (n\<lparr>storage := st, commit_index := c', last_applied := la,
      state_machine := sm', effects := effects n @ fx\<rparr>) (s\<lparr>msgs := insert (MAck t i (p + length es)) (msgs s)\<rparr>)"
proof -
  let ?L = "merge_log p es L" and ?n = "n\<lparr>storage := st, commit_index := c', last_applied := la, state_machine := sm',
    effects := effects n @ fx\<rparr>"
  let ?s = "s\<lparr>msgs := insert (MAck t i (p + length es)) (msgs s)\<rparr>"
  note K = commit_kept(1,2) [OF r a [folded t] p, where z = "length es", folded merge_log_part]
  have "pstep (is_majority M) i (absp L n) s ((absp L n)\<lparr>p_log := ?L, p_commit := c'\<rparr>) ?s"
    using p_accept [OF a, of "absp L n"] t role p c' by simp
  moreover have "(absp L n)\<lparr>p_log := ?L, p_commit := c'\<rparr> = absp ?L ?n"
    using st(2) by (simp add: absp_def current_term_def)
  ultimately have "pstep (is_majority M) i (absp L n) s (absp ?L ?n) ?s" by simp
  moreover have "node_ok M sm i ?L ?n"
  proof -
    have "staged_ok sm ?L la x" if "staged_snapshot n = Some x" for x
      by (rule staged_ok_agree [OF runsD(19) [OF r that] K(2) runsD(9) [OF r] la(1)])
    moreover have "c' \<le> length ?L" using K(1) merge_log_covers [OF p(1), of es] c' by simp
    ultimately show ?thesis
      using r role merge_plain [OF es(2) runsD(8) [OF r]] merge_contiguous [OF es(1) runsD(7) [OF r] p(1)] st la
      unfolding merge_log_part
      by (simp add: runs_def at_run_def node_ok_def)
  qed
  moreover have "e \<in> set (effects n) \<Longrightarrow> fx_ok sm ?s i e" for e
    by (rule runs_sends [OF r]) auto
  then have "net_ok sm ?s i ?L ?n" using role fx by (auto simp: net_ok_def)
  moreover have "grown n ?n" using fx by (auto intro: grown_same grown_store)
  ultimately show ?thesis by (rule runs_step [OF r])
qed

text \<open>Accepting a batch that passed the consistency check.\<close>

lemma accept_batch_ok:
  assumes r: "runs M sm w i L n s" and q: "req_ok sm s c (AppendEntries a) (AppendCtx t p k x)"
    and t: "current_term n = t" and role: "role n = Follower" and prev: "prev_matches (storage n) a"
  shows "ok_run M sm w i s (bind_r (merge_batch now a n)
      (advance_commit_to (min (leader_commit a) (prev_log_index a + length (entries a)))))
    (\<lambda>L' n' s'. MAck t i (p + k) \<in> msgs s' \<and> current_term n' = t)"
proof -
  let ?p = "prev_log_index a" and ?es = "entries a" and ?b = "snapshot_index (storage n)"
  let ?L = "merge_log ?p ?es L" and ?c = "min (leader_commit a) (?p + length ?es)"
  from q have a: "t = ae_term a" "p = ?p" "k = length ?es" "contiguous_from (?p + 1) ?es" "plain ?es"
    "MAppend t ?p (prev_log_term a) ?es (leader_commit a) \<in> msgs s" by auto
  note prev' = prev_matches_held [OF r a(6) [folded t] prev]
  from merge_batch_ok [OF r a(6) [folded t] role prev' a(4,5), of now] obtain n1 where
    n1: "merge_batch now a n = Inr n1" "runs M sm w i ?L n1 s" "role n1 = Follower"
      "commit_index n1 = commit_index n" "current_term n1 = t" using role t by auto
  note K = commit_kept(4) [OF r a(6) [folded t] prev', where z = "length ?es", folded merge_log_part]
  let ?c' = "max (commit_index n) ?c"
  let ?s = "s\<lparr>msgs := insert (MAck t i (?p + length ?es)) (msgs s)\<rparr>"
  note again = merge_log_again [OF prev'(1), of ?es]
  have "runs M sm w i ?L (n1\<lparr>storage := storage n1, commit_index := ?c', last_applied := last_applied n1,
      state_machine := state_machine n1, effects := effects n1 @ []\<rparr>) ?s"
    using accept_ok [OF n1(2) a(6) n1(5,3) _ _ a(4,5), unfolded again, of ?c' "storage n1" "last_applied n1"
      "state_machine n1" "[]"] K n1(4) runsD(6,9,11,18,20) [OF n1(2)] by auto
  then have r': "runs M sm w i ?L (n1\<lparr>commit_index := ?c'\<rparr>) ?s" by simp
  show ?thesis
  proof (cases "?c > commit_index n")
    case True
    with r' have "runs M sm w i ?L (n1\<lparr>commit_index := ?c\<rparr>) ?s" by (simp add: max_def)
    note A = ok_run_from [OF apply_committed_ok [OF this], of s]
    have "ok_run M sm w i s (apply_committed (n1\<lparr>commit_index := ?c\<rparr>))
        (\<lambda>L' n' s'. MAck t i (p + k) \<in> msgs s' \<and> current_term n' = t)"
      by (rule ok_run_mono [OF A]) (use n1(5) in \<open>auto simp: a(2,3) current_term_def\<close>)
    then show ?thesis using n1(1,4) True by (simp add: advance_commit_to_def)
  next
    case False
    then have "?c' = commit_index n1" using n1(4) by auto
    with r' have "runs M sm w i ?L n1 ?s" by simp
    with n1(1,4,5) False show ?thesis
      by (auto simp: advance_commit_to_def a(2,3) intro: ok_run_ret)
  qed
qed

lemma prev_matches_view:
  assumes "snapshot st' = snapshot st" and "log st' = log st"
  shows "prev_matches st' a = prev_matches st a"
proof -
  have s: "snapshot_index st' = snapshot_index st" "snapshot_term st' = snapshot_term st"
    using assms(1) by (simp_all add: snapshot_index_def snapshot_term_def)
  have "entry st' k = entry st k" for k using s assms(2) by (simp add: entry_eq)
  then have "term_at st' (prev_log_index a) = term_at st (prev_log_index a)" using s by (simp add: term_at_def)
  then show ?thesis unfolding prev_matches_def s by (rule ssubst) (rule refl)
qed

lemma handle_append_entries_ok:
  assumes r: "runs M sm w i L n s" and q: "req_ok sm s c (AppendEntries a) (AppendCtx t p k x)"
  shows "wp {} (handle_append_entries now a n) (\<lambda>(n', rep). \<exists>L' s'. runs M sm w i L' n' s' \<and> msgs s \<subseteq> msgs s' \<and>
    (success rep \<longrightarrow> MAck t i (p + k) \<in> msgs s') \<and> (current_term n \<le> t \<longrightarrow> current_term n' = t \<and> aer_term rep = t \<and>
      success rep = prev_matches (storage n) a))"
proof (cases "ae_term a < current_term n")
  case True
  then show ?thesis using r q by (auto simp: handle_append_entries_def wp_rules)
next
  case False
  from q have t: "t = ae_term a" by simp
  have eq: "handle_append_entries now a n =
      bind_r (become_follower now (ae_term a) (Some (ae_leader_id a)) n)
        (\<lambda>n. let n = n\<lparr>last_leader_contact := Some now\<rparr>; t = current_term n
           in if \<not> prev_matches (storage n) a then Inr (n, \<lparr>aer_term = t, success = False\<rparr>)
              else bind_r (bind_r (merge_batch now a n)
                (advance_commit_to (min (leader_commit a) (prev_log_index a + length (entries a)))))
                (\<lambda>n. Inr (n, \<lparr>aer_term = t, success = True\<rparr>)))"
    unfolding handle_append_entries_def Let_def merge_batch_bind bind_r_assoc using False by simp
  show ?thesis unfolding eq Let_def
  proof (rule ok_run_bind [OF become_follower_ok [OF r]])
    show "current_term n \<le> ae_term a" using False by simp
  next
    fix L' n' s'
    assume r': "runs M sm w i L' n' s'"
      and n': "L' = L \<and> s' = s \<and> role n' = Follower \<and> current_term n' = ae_term a \<and>
        commit_index n' = commit_index n \<and> snapshot (storage n') = snapshot (storage n) \<and> log (storage n') = log (storage n)"
    let ?n = "n'\<lparr>last_leader_contact := Some now\<rparr>"
    have pm: "prev_matches (storage ?n) a = prev_matches (storage n) a" by (rule prev_matches_view) (use n' in simp_all)
    have "core ?n = core n'" by (simp add: core_def trace_def)
    from runs_core [OF this r'] n' have r2: "runs M sm w i L ?n s" by simp
    show "wp {} (if \<not> prev_matches (storage ?n) a then Inr (?n, \<lparr>aer_term = current_term ?n, success = False\<rparr>)
        else bind_r (bind_r (merge_batch now a ?n)
          (advance_commit_to (min (leader_commit a) (prev_log_index a + length (entries a)))))
          (\<lambda>n. Inr (n, \<lparr>aer_term = current_term ?n, success = True\<rparr>)))
      (\<lambda>(n', rep). \<exists>L' s'. runs M sm w i L' n' s' \<and> msgs s \<subseteq> msgs s' \<and>
        (success rep \<longrightarrow> MAck t i (p + k) \<in> msgs s') \<and> (current_term n \<le> t \<longrightarrow> current_term n' = t \<and> aer_term rep = t \<and>
          success rep = prev_matches (storage n) a))"
    proof (cases "prev_matches (storage ?n) a")
      case False
      then show ?thesis using r2 n' t pm by (auto simp: wp_rules current_term_def)
    next
      case True
      have "current_term ?n = t" "role ?n = Follower" using n' t by (simp_all add: current_term_def)
      from accept_batch_ok [OF r2 q this True] have
        A: "ok_run M sm w i s (bind_r (merge_batch now a ?n)
          (advance_commit_to (min (leader_commit a) (prev_log_index a + length (entries a)))))
          (\<lambda>L' n' s'. MAck t i (p + k) \<in> msgs s' \<and> current_term n' = t)" .
      from True have eq: "(if \<not> prev_matches (storage ?n) a then x else y) = y" for x y by simp
      show ?thesis unfolding eq
        by (rule ok_run_bind [OF A]) (use True pm n' t in \<open>auto simp: wp_rules current_term_def\<close>)
    qed
  qed
qed

subsection \<open>Snapshots\<close>

lemma bootstrap_dom: "fset (fmdom (bootstrap_membership c)) = insert (cfg_id c) (set (peers c))"
proof -
  have "fset (fmdom (fold (\<lambda>i m. fmupd i (g i) m) ids m0)) = set ids \<union> fset (fmdom m0)" for g ids and m0 :: membership
    by (induction ids arbitrary: m0) auto
  then show ?thesis by (simp add: bootstrap_membership_def)
qed

lemma derive_bootstrap:
  assumes "static_config M i c" and "plain (log st)" and "\<And>z. snapshot st = Some z \<Longrightarrow> membership z = None"
  shows "derive_membership st c = (bootstrap_membership c, 0)" and "fset (fmdom (bootstrap_membership c)) = M"
  using assms by (auto simp: derive_membership_def find_config_plain plain_rev static_config_def bootstrap_dom
      split: bind_splits option.splits)

lemma core_rescan:
  assumes "static_config M i (config n)" and "plain (log (storage n))"
    and "\<And>z. snapshot (storage n) = Some z \<Longrightarrow> membership z = None" and "role n = Follower"
    and "fset (fmdom (members n)) = M" and "members_index n = 0"
  shows "core (rescan_membership now n) = core n"
proof -
  note D = derive_bootstrap [OF assms(1-3)]
  have "fmdom (bootstrap_membership (config n)) = fmdom (members n)"
    using D(2) assms(5) by (simp add: fset_inject [symmetric])
  then show ?thesis
    using D(1) assms(4,6) by (simp add: rescan_membership_def adopt_membership_def) (simp add: core_def trace_def)
qed

text \<open>The snapshot of a leader is the batch of all entries up to its boundary: what \<open>install_snapshot\<close> keeps is
  what the merge keeps.\<close>

lemma installed_log:
  assumes r: "runs M sm w i L n s" and a: "MAppend (current_term n) 0 0 es (length es) \<in> msgs s"
    and z: "last_included_index z = length es" "last_included_term z = lterm es (length es)"
    and c: "commit_index n < length es"
  shows "Storage.install_snapshot (storage n) z = Inr ((storage n)\<lparr>snapshot := Some z,
      log := drop (length es) (merge_log 0 es L)\<rparr>)"
    and "take (length es) (merge_log 0 es L) = es" and "length es \<le> length (merge_log 0 es L)"
proof -
  let ?b = "length es" and ?L = "merge_log 0 es L"
  note H = holds_logD [OF runsD(6) [OF r]]
  from known_batch [OF r a] obtain d Lt where
    Lt: "0 + length es \<le> length Lt" "es = take (length es) (drop 0 Lt)" "wf_log (led s) Lt" "wf_log (led s) L" by metis
  note K = merge_log_agrees [OF Lt(4,3) le0 _ Lt(2,1)]
  have tk: "take ?b ?L = es" "?b \<le> length ?L" using K(2,3) Lt(2) by simp_all
  then show "take ?b ?L = es" "?b \<le> length ?L" by blast+
  have b: "snapshot_index (storage n) < ?b" using runsD(9,20) [OF r] c by simp
  have "retained_suffix (storage n) z = drop ?b ?L"
  proof (cases "?b \<le> length L \<and> lterm L ?b = lterm es ?b")
    case True
    have "lterm L ?b = lterm Lt ?b" using True lterm_take [of ?b ?b es Lt] Lt(1,2) by simp
    from consistency_check [OF Lt(4,3) _ _ this] True Lt(1,2) have "take ?b L = es" by simp
    then have "merge_log 0 es L = L" using True by (intro merge_held) (auto simp: nth_take [symmetric, of _ ?b L] simp del: nth_take)
    moreover have "term_at (storage n) ?b = Some (lterm es ?b)" using H(4) [of ?b] True b by simp
    ultimately show ?thesis using z H(7) [of ?b] b by (simp add: retained_suffix_def)
  next
    case False
    have "term_at (storage n) ?b \<noteq> Some (lterm es ?b)"
      using False H(4,5) [of ?b] b by (cases "?b \<le> length L") auto
    moreover have "length ?L \<le> ?b"
    proof (rule ccontr)
      assume "\<not> length ?L \<le> ?b"
      with merge_cut [of 0 L es] have "?L = L" "?b \<le> length L" by auto
      with tk lterm_take [of ?b ?b L es] False show False by simp
    qed
    ultimately show ?thesis using z by (simp add: retained_suffix_def)
  qed
  then show "Storage.install_snapshot (storage n) z = Inr ((storage n)\<lparr>snapshot := Some z, log := drop ?b ?L\<rparr>)"
    using z(1) b by (simp add: install_snapshot_Inr_iff)
qed

lemma merge_prefix: "take (length es) L = es \<Longrightarrow> length es \<le> length L \<Longrightarrow> merge_log 0 es L = L"
  by (rule merge_held) (auto, metis nth_take)

lemma install_ok:
  assumes r: "runs M sm w i L n s" and q: "req_ok sm s c (InstallSnapshot a) (InstallCtx t b)"
    and t: "current_term n = t" and role: "role n = Follower" and b: "commit_index n < b"
  shows "wp {} (bind_r (store (Storage.install_snapshot (storage n) (is_snapshot a)) n)
      (\<lambda>n. case sm_restore_fn (state_machine n) (sm_data (state_machine n)) (state (is_snapshot a)) of
         None \<Rightarrow> Inl MalformedSnapshot
       | Some d \<Rightarrow>
           let n = n\<lparr>state_machine := (state_machine n)\<lparr>sm_data := d\<rparr>, commit_index := b, last_applied := b\<rparr>;
               n = rescan_membership now n;
               dropped = filter (\<lambda>p. \<not> pp_index p > b) (pending n);
               n = emit (map (\<lambda>p. Closed (pp_committed p)) dropped)
                     (n\<lparr>pending := filter (\<lambda>p. pp_index p > b) (pending n)\<rparr>)
           in Inr (resolve_pending n, rep)))
    (\<lambda>(n', x). x = rep \<and> current_term n' = t \<and> (\<exists>L' s'. runs M sm w i L' n' s' \<and> msgs s \<subseteq> msgs s' \<and> MAck t i b \<in> msgs s'))"
proof -
  let ?z = "is_snapshot a"
  from q obtain es where es: "b = last_included_index ?z" "length es = b" "MAppend t 0 0 es b \<in> msgs s"
    "contiguous_from 1 es" "plain es" "last_included_term ?z = lterm es b" "snap_ok sm es ?z" by auto
  let ?L = "merge_log 0 es L"
  have a: "MAppend (current_term n) 0 0 es (length es) \<in> msgs s" using es(2,3) t by simp
  note I = installed_log [OF r a, of ?z, unfolded es(2), OF es(1) [symmetric] es(6) b]
  let ?st = "(storage n)\<lparr>snapshot := Some ?z, log := drop b ?L\<rparr>"
  let ?n = "n\<lparr>storage := ?st, commit_index := b, last_applied := b, state_machine := replay sm es,
    effects := effects n @ [Stored ?st]\<rparr>"
  let ?s = "s\<lparr>msgs := insert (MAck t i (0 + length es)) (msgs s)\<rparr>"
  have re: "sm_restore_fn sm d (state ?z) = Some (sm_data (replay sm es))" for d
    using es(1,2,7) by (simp add: snap_ok_def restores_def)
  have sm: "(state_machine n)\<lparr>sm_data := sm_data (replay sm es)\<rparr> = replay sm es"
    using runsD(11) [OF r] replay_eq [of sm es] replay_eq [of sm "take (last_applied n) L"]
    by (metis state_machine.update_convs(1) state_machine.surjective)
  have H: "holds_log ?L ?st"
    using I(2,3) es(1,2,6) lterm_take [of b b ?L es] by (simp add: holds_log_def)
  have "snapshot ?st \<noteq> snapshot (storage n)"
    using b es(1) runsD(9,20) [OF r] by (auto simp: snapshot_index_def split: option.splits)
  note wh = whole_snapshot [OF this]
  have r': "runs M sm w i ?L ?n ?s"
  proof (rule accept_ok [OF r es(3) t role])
    show "snap_ok sm ?L z" if "snapshot ?st = Some z" for z
      using that snap_ok_agree [OF es(7), of b ?L] I(2) es(1,2) by simp
  qed (use es I H b wh runsD(9) [OF r] in \<open>auto simp: lterm_def\<close>)
  define n1 where "n1 = (emit [Stored ?st] (n\<lparr>storage := ?st\<rparr>))\<lparr>state_machine := replay sm es, commit_index := b,
    last_applied := b\<rparr>"
  have "?n = n1" by (simp add: n1_def emit_def)
  with r' have r1: "runs M sm w i ?L n1 ?s" by simp
  define n2 where "n2 = rescan_membership now n1"
  define n3 where "n3 = emit (map (\<lambda>p. Closed (pp_committed p)) (filter (\<lambda>p. \<not> pp_index p > b) (pending n2)))
    (n2\<lparr>pending := filter (\<lambda>p. pp_index p > b) (pending n2)\<rparr>)"
  have "core n2 = core n1" unfolding n2_def
  proof (rule core_rescan [OF runsD(3) [OF r1]])
    show "plain (log (storage n1))"
      using plain_drop [OF runsD(8) [OF r1], of b] by (simp add: n1_def)
  qed (use runsD(4,5) [OF r1] role es(7) in \<open>auto simp: snap_ok_def n1_def\<close>)
  moreover have "core n3 = core n2"
    unfolding n3_def by (subst core_emit) (auto simp: core_def trace_def)
  moreover have "current_term n1 = t" using t by (simp add: n1_def current_term_def emit_def)
  ultimately have t3: "current_term (resolve_pending n3) = t" by (simp add: core_def current_term_def)
  have "runs M sm w i ?L (resolve_pending n3) ?s"
    using \<open>core n2 = core n1\<close> \<open>core n3 = core n2\<close> by (intro resolve_pending_ok runs_core [OF _ r1]) simp
  moreover have re': "sm_restore_fn (state_machine n) (sm_data (state_machine n)) (state ?z) = Some (sm_data (replay sm es))"
    using re unfolding runsD(11) [OF r] by simp
  have "bind_r (store (Storage.install_snapshot (storage n) ?z) n)
      (\<lambda>n. case sm_restore_fn (state_machine n) (sm_data (state_machine n)) (state ?z) of
         None \<Rightarrow> Inl MalformedSnapshot
       | Some d \<Rightarrow>
           let n = n\<lparr>state_machine := (state_machine n)\<lparr>sm_data := d\<rparr>, commit_index := b, last_applied := b\<rparr>;
               n = rescan_membership now n;
               dropped = filter (\<lambda>p. \<not> pp_index p > b) (pending n);
               n = emit (map (\<lambda>p. Closed (pp_committed p)) dropped)
                     (n\<lparr>pending := filter (\<lambda>p. pp_index p > b) (pending n)\<rparr>)
           in Inr (resolve_pending n, rep)) = Inr (resolve_pending n3, rep)"
    using I(1) by (simp add: store_def Let_def re' sm n1_def [symmetric] n2_def [symmetric] n3_def [symmetric])
  ultimately show ?thesis using es(2) t3 by (auto simp: wp_rules intro!: exI [of _ ?L] exI [of _ ?s])
qed

lemma handle_install_snapshot_ok:
  assumes r: "runs M sm w i L n s" and q: "req_ok sm s c (InstallSnapshot a) (InstallCtx t b)"
  shows "wp {} (handle_install_snapshot now a n) (\<lambda>(n', rep). \<exists>L' s'. runs M sm w i L' n' s' \<and> msgs s \<subseteq> msgs s' \<and>
    (isr_term rep \<le> t \<longrightarrow> MAck t i b \<in> msgs s') \<and> (current_term n \<le> t \<longrightarrow> current_term n' = t \<and> isr_term rep = t))"
proof (cases "is_term a < current_term n")
  case True
  then show ?thesis using r q by (auto simp: handle_install_snapshot_def wp_rules)
next
  case False
  from q have t: "t = is_term a" and bd: "b = last_included_index (is_snapshot a)" by simp_all
  show ?thesis using False unfolding handle_install_snapshot_def if_not_P [OF False]
  proof (rule_tac ok_run_bind [OF become_follower_ok [OF r]])
    show "current_term n \<le> is_term a" using False by simp
  next
    fix L' n' s'
    assume r': "runs M sm w i L' n' s'"
      and n': "L' = L \<and> s' = s \<and> role n' = Follower \<and> current_term n' = is_term a \<and> commit_index n' = commit_index n \<and>
        snapshot (storage n') = snapshot (storage n) \<and> log (storage n') = log (storage n)"
    let ?n = "n'\<lparr>last_leader_contact := Some now\<rparr>"
    have "core ?n = core n'" by (simp add: core_def trace_def)
    from runs_core [OF this r'] n' have r2: "runs M sm w i L ?n s" by simp
    have n2: "current_term ?n = t" "role ?n = Follower" using n' t by (simp_all add: current_term_def)
    show "wp {} (let n = ?n; t = current_term n; s = is_snapshot a; boundary = last_included_index s
           in if boundary \<le> commit_index n then Inr (n, \<lparr>isr_term = t\<rparr>)
              else bind_r (store (Storage.install_snapshot (storage n) s) n)
                (\<lambda>n. case sm_restore_fn (state_machine n) (sm_data (state_machine n)) (state s) of
                   None \<Rightarrow> Inl MalformedSnapshot
                 | Some d \<Rightarrow>
                     let n = n\<lparr>state_machine := (state_machine n)\<lparr>sm_data := d\<rparr>,
                               commit_index := boundary, last_applied := boundary\<rparr>;
                         n = rescan_membership now n;
                         dropped = filter (\<lambda>p. \<not> pp_index p > boundary) (pending n);
                         n = emit (map (\<lambda>p. Closed (pp_committed p)) dropped)
                               (n\<lparr>pending := filter (\<lambda>p. pp_index p > boundary) (pending n)\<rparr>)
                     in Inr (resolve_pending n, \<lparr>isr_term = t\<rparr>)))
      (\<lambda>(n', rep). \<exists>L' s'. runs M sm w i L' n' s' \<and> msgs s \<subseteq> msgs s' \<and>
        (isr_term rep \<le> t \<longrightarrow> MAck t i b \<in> msgs s') \<and> (current_term n \<le> t \<longrightarrow> current_term n' = t \<and> isr_term rep = t))"
    proof (cases "b \<le> commit_index ?n")
      case True
      from q obtain es where es: "length es = b" "MAppend t 0 0 es b \<in> msgs s" "contiguous_from 1 es" "plain es"
        by auto
      from known_batch [OF r2 es(2) [folded n2(1)]] obtain d Lt where
        Lt: "0 + length es \<le> length Lt" "es = take (length es) (drop 0 Lt)" "commit_index ?n \<le> length Lt"
        "take (commit_index ?n) Lt = take (commit_index ?n) L" by metis
      have "take b L = es" using take_eq_mono [OF Lt(4) True] Lt(2) es(1) by simp
      then have m: "merge_log 0 es L = L" using True runsD(10) [OF r2] es(1) by (intro merge_prefix) simp_all
      have "runs M sm w i (merge_log 0 es L) (?n\<lparr>storage := storage ?n, commit_index := commit_index ?n,
          last_applied := last_applied ?n, state_machine := state_machine ?n, effects := effects ?n @ []\<rparr>)
          (s\<lparr>msgs := insert (MAck t i (0 + length es)) (msgs s)\<rparr>)"
        by (rule accept_ok [OF r2 es(2) n2])
          (use es True runsD(6,9,11,18,20) [OF r2] in \<open>auto simp: m lterm_def max_def\<close>)
      then have "runs M sm w i L ?n (s\<lparr>msgs := insert (MAck t i b) (msgs s)\<rparr>)" using es(1) by (simp add: m)
      then show ?thesis using True bd n2(1) by (auto simp: wp_rules Let_def intro!: exI [of _ L])
    next
      case no: False
      have c: "commit_index ?n < b" using no by simp
      from install_ok [OF r2 q n2 c, of now "\<lparr>isr_term = current_term ?n\<rparr>"] no n2(1) show ?thesis
        unfolding bd Let_def by (auto elim!: wp_mono) blast
    qed
  qed
qed

subsection \<open>Replies\<close>

lemma runs_leader:
  assumes "runs M sm w i L n s" and "role n = Leader l"
  shows "\<forall>p k. next_index l p = Some k \<longrightarrow> 1 \<le> k \<and> k \<le> length L + 1"
    and "\<forall>j m. match_index l j = Some m \<longrightarrow> m = 0 \<or> MAck (current_term n) j m \<in> msgs s"
  using runsD(12,15) [OF assms] by blast+

text \<open>Replacing the bookkeeping of a role by one that still fits the messages.\<close>

lemma role_update_ok:
  assumes r: "runs M sm w i L n s" and a: "abs_role ro = abs_role (role n)"
    and l: "\<And>l. ro = Leader l \<Longrightarrow>
      (\<forall>p k. next_index l p = Some k \<longrightarrow> 1 \<le> k \<and> k \<le> length L + 1) \<and>
      (\<forall>j m. match_index l j = Some m \<longrightarrow> m = 0 \<or> MAck (current_term n) j m \<in> msgs s)"
    and ts: "\<And>l l0. ro = Leader l \<Longrightarrow> role n = Leader l0 \<Longrightarrow> term_start_index l = term_start_index l0"
    and c: "\<And>vs. ro = Candidate vs \<Longrightarrow> \<forall>v \<in> vs. \<exists>lg. MVote (current_term n) v i lg \<in> msgs s"
  shows "runs M sm w i L (n\<lparr>role := ro\<rparr>) s"
proof (rule runs_abs [OF r])
  show "absp L (n\<lparr>role := ro\<rparr>) = absp L n" using a by (simp add: absp_def current_term_def)
  have "node_ok M sm i L (n\<lparr>role := ro\<rparr>) \<and> net_ok sm s i L (n\<lparr>role := ro\<rparr>)"
  proof (cases ro)
    case (Leader l')
    then obtain l0 where l0: "role n = Leader l0" using a by (cases "role n") auto
    from runsD(14,17) [OF r l0] runsD(16) [OF r] l [OF Leader] Leader
    have "net_ok sm s i L (n\<lparr>role := ro\<rparr>)" by (simp add: net_ok_def current_term_def)
    moreover have "node_ok M sm i L (n\<lparr>role := ro\<rparr>)"
      using r l [OF Leader] ts [OF Leader l0] runsD(22) [OF r l0] Leader
      by (simp add: runs_def at_run_def node_ok_def current_term_def)
    ultimately show ?thesis by blast
  next
    case (Candidate vs)
    with r runsD(16) [OF r] c [OF Candidate] show ?thesis by (simp add: runs_def at_run_def node_ok_def net_ok_def current_term_def)
  qed (use r runsD(16) [OF r] in \<open>simp_all add: runs_def at_run_def node_ok_def net_ok_def\<close>)
  then show "node_ok M sm i L (n\<lparr>role := ro\<rparr>)" "net_ok sm s i L (n\<lparr>role := ro\<rparr>)" by blast+
  show "grown n (n\<lparr>role := ro\<rparr>)" by (rule grown_same) simp_all
qed

lemma votes_card: "runs M sm w i L n s \<Longrightarrow> count_member_votes (n\<lparr>role := ro\<rparr>) vs = card (vs \<inter> M)"
  using runsD(4) [of M sm w i L n s] by (simp add: count_member_votes_def Int_def)

text \<open>A pre-vote that counts: the node campaigns once a majority would vote for it.\<close>

lemma pre_vote_counts:
  assumes r: "runs M sm w i L n s" and "\<not> rvr_term rep > current_term n" and "t = current_term n + 1"
    and "vote_granted rep" and "role n = PreCandidate vs"
  shows "ok_run M sm w i s (on_pre_vote_reply now t from rep n) (\<lambda>L' n' s'.
    if card (insert from vs \<inter> M) \<ge> majority n then campaigns M n n' else n' = n\<lparr>role := PreCandidate (insert from vs)\<rparr>)"
proof -
  let ?n = "n\<lparr>role := PreCandidate (insert from vs)\<rparr>"
  have eq: "on_pre_vote_reply now t from rep n = maybe_start_election now ?n"
    using assms by (simp add: on_pre_vote_reply_def)
  have r': "runs M sm w i L ?n s" using assms(5) by (intro role_update_ok [OF r]) auto
  have "campaigns M ?n n' = campaigns M n n'" "majority ?n = majority n" for n'
    by (simp_all add: campaigns_def vote_args_def current_term_def majority_def)
  then show ?thesis unfolding eq using votes_card [OF r]
    by (auto intro!: ok_run_mono [OF maybe_start_election_ok [OF r']] split: if_splits)
qed

lemma on_pre_vote_reply_ok:
  assumes r: "runs M sm w i L n s"
  shows "ok_run M sm w i s (on_pre_vote_reply now t from rep n) (\<lambda>L' n' s'. rvr_term rep > current_term n \<longrightarrow>
    L' = L \<and> role n' = Follower \<and> current_term n' = rvr_term rep)"
proof -
  have "ok_run M sm w i s (become_follower now (rvr_term rep) None n)
      (\<lambda>L' n' s'. L' = L \<and> role n' = Follower \<and> current_term n' = rvr_term rep)"
    if "rvr_term rep > current_term n"
    using that by (intro ok_run_mono [OF become_follower_ok [OF r]]) simp_all
  moreover have "ok_run M sm w i s (on_pre_vote_reply now t from rep n) (\<lambda>L' n' s'. True)"
    if "\<not> rvr_term rep > current_term n" "t = current_term n + 1" "vote_granted rep" "role n = PreCandidate vs" for vs
    using that by (intro ok_run_mono [OF pre_vote_counts [OF r]]) simp_all
  ultimately show ?thesis using r
    by (cases "rvr_term rep > current_term n") (auto simp: on_pre_vote_reply_def intro: ok_run_ret split: role.splits)
qed

text \<open>A vote that counts: the node leads once a majority voted for it.\<close>

lemma vote_counts:
  assumes r: "runs M sm w i L n s" and e: "event_ok s i (VoteReply t from (Inr (RequestVoteR rep)))"
    and "\<not> rvr_term rep > current_term n" and "t = current_term n" and "vote_granted rep" and "role n = Candidate vs"
  shows "ok_run M sm w i s (on_vote_reply now t from rep n) (\<lambda>L' n' s'. current_term n' = current_term n \<and>
    (if card (insert from vs \<inter> M) < majority n then n' = n\<lparr>role := Candidate (insert from vs)\<rparr> else is_leader n'))"
proof -
  let ?n = "n\<lparr>role := Candidate (insert from vs)\<rparr>"
  have eq: "on_vote_reply now t from rep n = maybe_become_leader now ?n"
    using assms by (simp add: on_vote_reply_def)
  have r': "runs M sm w i L ?n s"
    using assms(4-6) e runsD(13) [OF r assms(6)] by (intro role_update_ok [OF r]) auto
  have "majority ?n = majority n" "current_term ?n = current_term n" by (simp_all add: majority_def current_term_def)
  then show ?thesis unfolding eq using votes_card [OF r]
    by (auto intro!: ok_run_mono [OF maybe_become_leader_ok [OF r']] split: if_splits)
qed

lemma on_vote_reply_ok:
  assumes r: "runs M sm w i L n s" and e: "event_ok s i (VoteReply t from (Inr (RequestVoteR rep)))"
  shows "ok_run M sm w i s (on_vote_reply now t from rep n) (\<lambda>L' n' s'. True)"
proof -
  have "ok_run M sm w i s (become_follower now (rvr_term rep) None n) (\<lambda>L' n' s'. True)"
    if "rvr_term rep > current_term n"
    using that by (intro ok_run_mono [OF become_follower_ok [OF r]]) simp_all
  moreover have "ok_run M sm w i s (on_vote_reply now t from rep n) (\<lambda>L' n' s'. True)"
    if "\<not> rvr_term rep > current_term n" "role n = Candidate vs" "t = current_term n" "vote_granted rep" for vs
    using that e by (intro ok_run_mono [OF vote_counts [OF r]]) simp_all
  ultimately show ?thesis using r
    by (cases "rvr_term rep > current_term n") (auto simp: on_vote_reply_def intro: ok_run_ret split: role.splits)
qed

lemma append_success_ok:
  assumes r: "runs M sm w i L n s" and l: "role n = Leader l" and a: "MAck (current_term n) from c \<in> msgs s"
    and u: "on_append_success from c li l = (l', rs, dp)"
  shows "runs M sm w i L (n\<lparr>role := Leader l'\<rparr>) s"
proof -
  let ?old = "entry_or (match_index l) from 0"
  have l': "match_index l' = (match_index l)(from \<mapsto> if c > ?old then c else ?old)"
    "next_index l' = (if c > ?old then (next_index l)(from \<mapsto> c + 1) else next_index l)"
    "term_start_index l' = term_start_index l"
    using u by (auto simp: on_append_success_def Let_def split: if_splits option.splits)
  have "?old = 0 \<or> MAck (current_term n) from ?old \<in> msgs s"
    using runsD(15) [OF r l, of "from"] by (auto simp: entry_or_def split: option.splits)
  then show ?thesis
    using l a runs_leader [OF r l] acked_in_log [OF r l a]
    by (intro role_update_ok [OF r]) (auto simp: l' split: if_splits, blast+)
qed

lemma append_rejected_ok:
  assumes r: "runs M sm w i L n s" and l: "role n = Leader l"
  shows "runs M sm w i L (n\<lparr>role := Leader (on_append_rejected from p l)\<rparr>) s"
  using l runs_leader [OF r l]
  by (intro role_update_ok [OF r])
    (auto simp: on_append_rejected_def entry_or_def min_le_iff_disj split: if_splits option.splits,
      blast+)

lemma note_ack_ok:
  assumes r: "runs M sm w i L n s" and l: "role n = Leader l"
  shows "runs M sm w i L (n\<lparr>role := Leader (note_ack now from q l)\<rparr>) s"
  using l runs_leader [OF r l] by (intro role_update_ok [OF r]) (auto simp: note_ack_def, blast)

text \<open>What a reply of the peer \<open>from\<close> changes of a leader.\<close>

definition replied where
  "replied M L from n n' \<longleftrightarrow> current_term n' = current_term n \<and> answers L n n' \<and> (holding M n L \<longrightarrow> holding M n' L) \<and>
     (\<exists>l l'. role n = Leader l \<and> role n' = Leader l' \<and> (\<forall>j. j \<noteq> from \<longrightarrow> next_index l' j = next_index l j) \<and>
       (\<forall>j. entry_or (match_index l) j 0 \<le> entry_or (match_index l') j 0))"

lemma caught_up_same:
  assumes "runs M sm w i L n s" and "runs M sm w i L n' s'" and "role n = Leader l" and "role n' = Leader l'"
    and "match_index l' = match_index l" and "current_term n' = current_term n" and "commit_index n \<le> commit_index n'"
    and "caught_up M n L"
  shows "caught_up M n' L"
  using known_match_same [OF assms(1,2,5)] assms(3-) by (auto simp: caught_up_def)

lemma resolve_reads_keeps:
  assumes "role n = Leader l"
  obtains l' fx where "resolve_reads n = emit fx (n\<lparr>role := Leader l'\<rparr>)" and "next_index l' = next_index l"
    and "match_index l' = match_index l"
  using assms that by (auto simp: resolve_reads_def)

text \<open>The end of the handlers of both kinds of replies: commit what can be, and ask for more.\<close>

lemma after_reply:
  assumes r: "runs M sm w i L n s" and l: "role n = Leader l" and r3: "runs M sm w i L n3 s" and l2: "role n3 = Leader l2"
    and n3: "current_term n3 = current_term n" "commit_index n3 = commit_index n" "last_applied n3 = last_applied n"
      "pending n3 = pending n"
    and nx: "\<forall>j. j \<noteq> from \<longrightarrow> next_index l2 j = next_index l j"
    and mt: "\<forall>j. entry_or (match_index l) j 0 \<le> entry_or (match_index l2) j 0"
    and adv: "adv \<or> match_index l2 = match_index l"
  shows "ok_run M sm w i s (bind_r (if adv then maybe_advance_commit now n3 else Inr n3)
      (\<lambda>n. if resend then send_append from n else Inr n))
    (\<lambda>L' n' s'. L' = L \<and> replied M L from n n' \<and>
      (\<exists>l'. role n' = Leader l' \<and> next_index l' = next_index l2 \<and> match_index l' = match_index l2) \<and>
      (resend \<longrightarrow> from \<in> M \<longrightarrow> requested n' L from (nxt_of l2 from (length L))))"
proof -
  have a3: "answers L n n'" if "answers L n3 n'" for n' using that n3(2,4) by (simp add: answers_def awaiting_def)
  have 1: "ok_run M sm w i s (if adv then maybe_advance_commit now n3 else Inr n3)
      (\<lambda>L' n' s'. L' = L \<and> advanced n3 n' \<and> (holding M n L \<longrightarrow> caught_up M n' L) \<and> answers L n n')"
  proof (cases adv)
    case True
    then show ?thesis using a3 by (auto intro: ok_run_mono [OF maybe_advance_commit_ok [OF r3]])
  next
    case False
    with adv have "holding M n L \<longrightarrow> caught_up M n3 L"
      using caught_up_same [OF r r3 l l2 _ n3(1)] n3(2) by (simp add: holding_def)
    with False r3 a3 show ?thesis by (auto intro: ok_run_ret)
  qed
  show ?thesis
  proof (rule ok_run_seq [OF 1], elim conjE)
    fix L' n' s' assume r': "runs M sm w i L' n' s'" and n': "L' = L" "advanced n3 n'" "holding M n L \<longrightarrow> caught_up M n' L"
      and an: "answers L n n'"
    from n'(2) l2 obtain l' where l': "role n' = Leader l'" "next_index l' = next_index l2" "match_index l' = match_index l2"
      using sans_reads_Leader [of "role n'" l2] by (auto simp: advanced_def)
    have t: "current_term n' = current_term n" using n'(2) n3(1) by (simp add: advanced_def)
    have h: "holding M (emit fx n') L" if "holding M n L" for fx
      using that n'(3) advanced_applied [OF n'(2) runsD(9) [OF r3], of "length L"] n3 t l'(1)
      by (simp add: holding_def is_leader_def)
    have R: "replied M L from n (emit fx n')" for fx
      unfolding replied_def using h t l l' nx mt an by (auto simp: answers_def awaiting_def emit_fields)
    have nxt: "nxt_of l' from (length L) = nxt_of l2 from (length L)" using l'(2) by (simp add: nxt_of_def)
    have e: "emit [] n' = n'" by (simp add: emit_def)
    have q: "requested (emit fx n') L from (nxt_of l2 from (length L))"
      if "\<exists>rq x. SendRpc from rq x \<in> set fx \<and> asked (current_term n') (length L) (nxt_of l2 from (length L)) x" for fx
      using that l'(1) nxt by (auto simp: requested_def emit_def current_term_def)
    show "ok_run M sm w i s' (if resend then send_append from n' else Inr n') (\<lambda>L' n' s'. L' = L \<and> replied M L from n n' \<and>
      (\<exists>l'. role n' = Leader l' \<and> next_index l' = next_index l2 \<and> match_index l' = match_index l2) \<and>
      (resend \<longrightarrow> from \<in> M \<longrightarrow> requested n' L from (nxt_of l2 from (length L))))"
    proof (cases resend)
      case False
      then show ?thesis using r' n'(1) R [of "[]"] l' e by (auto intro!: ok_run_ret)
    next
      case True
      have "ok_run M sm w i s' (send_append from n') (\<lambda>L' n' s'. L' = L \<and> replied M L from n n' \<and>
        (\<exists>l'. role n' = Leader l' \<and> next_index l' = next_index l2 \<and> match_index l' = match_index l2) \<and>
        (from \<in> M \<longrightarrow> requested n' L from (nxt_of l2 from (length L))))"
        by (rule ok_run_mono [OF send_append_asks [OF r']]) (use R q l' n'(1) nxt in auto)
      with True show ?thesis by simp
    qed
  qed
qed

lemma append_reply_counts:
  assumes r: "runs M sm w i L n s" and e: "event_ok s i (AppendReply t from p k q (Inr (AppendEntriesR rep)))"
    and leader: "\<not> aer_term rep > current_term n" "t = current_term n" "role n = Leader l"
  shows "ok_run M sm w i s (on_append_reply now t from p k q rep n) (\<lambda>L' n' s'. L' = L \<and> replied M L from n n' \<and>
    (if success rep then matched n' from (p + k)
     else from \<in> M \<longrightarrow> requested n' L from (min (entry_or (next_index l) from 1) (max p 1))))"
proof -
  define l1 where "l1 = note_ack now from q l"
  define n1 where "n1 = n\<lparr>role := Leader l1\<rparr>"
  have l1: "next_index l1 = next_index l" "match_index l1 = match_index l" by (simp_all add: l1_def note_ack_def)
  have r1: "runs M sm w i L n1 s" unfolding n1_def l1_def by (rule note_ack_ok [OF r leader(3)])
  obtain l2 resend departed where l2: "(if success rep
      then on_append_success from (p + k) (last_index (storage n)) l1
      else (on_append_rejected from p l1, True, False)) = (l2, resend, departed)"
    by (metis prod_cases3)
  have "runs M sm w i L (n1\<lparr>role := Leader l2\<rparr>) s"
  proof (cases "success rep")
    case True
    then show ?thesis
      using append_success_ok [OF r1, of l1 "from" "p + k" "last_index (storage n)" l2 resend departed]
        e leader(2) l2 by (simp add: n1_def current_term_def)
  next
    case False
    then show ?thesis using append_rejected_ok [OF r1, of l1 "from" p] l2 by (simp add: n1_def)
  qed
  then have r2: "runs M sm w i L (n\<lparr>role := Leader l2\<rparr>) s" by (simp add: n1_def)
  define n3 where "n3 = (if departed then publish_membership (n\<lparr>role := Leader l2\<rparr>) else n\<lparr>role := Leader l2\<rparr>)"
  have r3: "runs M sm w i L n3 s" unfolding n3_def by (rule runs_core [OF _ r2]) simp
  have n3: "role n3 = Leader l2" "current_term n3 = current_term n" "commit_index n3 = commit_index n"
    "last_applied n3 = last_applied n" "pending n3 = pending n"
    by (simp_all add: n3_def publish_membership_def Let_def current_term_def)
  have eq: "on_append_reply now t from p k q rep n =
      bind_r (bind_r (if success rep then maybe_advance_commit now n3 else Inr n3)
        (\<lambda>n. if resend then send_append from n else Inr n)) (\<lambda>n. Inr (resolve_reads n))"
    using leader l2 by (simp add: on_append_reply_def Let_def l1_def [symmetric] n3_def bind_r_assoc)
  let ?old = "entry_or (match_index l) from 0"
  have s: "match_index l2 = (match_index l)(from \<mapsto> if p + k > ?old then p + k else ?old)"
    "next_index l2 = (if p + k > ?old then (next_index l)(from \<mapsto> p + k + 1) else next_index l)" if "success rep"
    using l2 that l1 by (auto simp: on_append_success_def Let_def split: if_splits option.splits)
  have f: "match_index l2 = match_index l" "next_index l2 = (next_index l)(from \<mapsto> min (entry_or (next_index l) from 1) (max p 1))"
    "resend" if "\<not> success rep"
    using l2 that l1 by (auto simp: on_append_rejected_def)
  have nx: "\<forall>j. j \<noteq> from \<longrightarrow> next_index l2 j = next_index l j" using s f by (cases "success rep") auto
  have mt: "\<forall>j. entry_or (match_index l) j 0 \<le> entry_or (match_index l2) j 0"
    using s f by (cases "success rep") (auto simp: entry_or_def)
  have c: "p + k \<le> entry_or (match_index l2) from 0" if "success rep" using s(1) [OF that] by (simp add: entry_or_def)
  have x: "nxt_of l2 from (length L) = min (entry_or (next_index l) from 1) (max p 1)" if "\<not> success rep"
    using f(2) [OF that] by (simp add: nxt_of_def)
  have adv: "success rep \<or> match_index l2 = match_index l" using f(1) by blast
  note A = after_reply [OF r leader(3) r3 n3 nx mt adv]
  show ?thesis unfolding eq
  proof (rule ok_run_seq [OF A], elim conjE exE)
    fix L' n' s' l' assume r': "runs M sm w i L' n' s'" and n': "L' = L" "replied M L from n n'" "role n' = Leader l'"
      "match_index l' = match_index l2" "resend \<longrightarrow> from \<in> M \<longrightarrow> requested n' L from (nxt_of l2 from (length L))"
    from resolve_reads_keeps [OF n'(3)] obtain l'' fx where
      n'': "resolve_reads n' = emit fx (n'\<lparr>role := Leader l''\<rparr>)" "next_index l'' = next_index l'"
        "match_index l'' = match_index l'" .
    have r'': "runs M sm w i L (resolve_reads n') s'" using runs_core [OF core_resolve_reads r'] n'(1) by simp
    have t: "current_term (n'\<lparr>role := ro\<rparr>) = current_term n'" for ro by (simp add: current_term_def)
    have "answers L n n'" using n'(2) by (simp add: replied_def)
    then have an: "answers L n (resolve_reads n')"
      unfolding n''(1) by (auto simp: answers_def awaiting_def emit_fields)
    have "replied M L from n (resolve_reads n')"
      using n'(2,3) n'' t an by (auto simp: replied_def holding_def caught_up_def known_match_def is_leader_def)
    moreover have "matched (resolve_reads n') from (p + k)" if "success rep"
      using c [OF that] n'(4) n'' by (auto simp: matched_def)
    moreover have "requested (resolve_reads n') L from (min (entry_or (next_index l) from 1) (max p 1))"
      if "\<not> success rep" "from \<in> M"
      using n'(3,5) x [OF that(1)] f(3) [OF that(1)] that(2) n'' t
      by (auto simp: requested_def nxt_of_def emit_def current_term_def) blast
    ultimately show "ok_run M sm w i s' (Inr (resolve_reads n')) (\<lambda>L' n' s'. L' = L \<and> replied M L from n n' \<and>
      (if success rep then matched n' from (p + k)
       else from \<in> M \<longrightarrow> requested n' L from (min (entry_or (next_index l) from 1) (max p 1))))"
      using r'' by (auto intro: ok_run_ret)
  qed
qed

lemma on_append_reply_ok:
  assumes r: "runs M sm w i L n s" and e: "event_ok s i (AppendReply t from p k q (Inr (AppendEntriesR rep)))"
  shows "ok_run M sm w i s (on_append_reply now t from p k q rep n) (\<lambda>L' n' s'. True)"
proof -
  consider (higher) "aer_term rep > current_term n"
    | (skip) "\<not> aer_term rep > current_term n" "t \<noteq> current_term n \<or> \<not> is_leader n"
    | (leader) l where "\<not> aer_term rep > current_term n" "t = current_term n" "role n = Leader l"
    by (cases "role n") (auto simp: is_leader_def)
  then show ?thesis
  proof cases
    case higher
    then show ?thesis
      by (auto simp: on_append_reply_def intro!: ok_run_mono [OF become_follower_ok [OF r]])
  next
    case skip
    then have "on_append_reply now t from p k q rep n = Inr n"
      by (auto simp: on_append_reply_def is_leader_def split: role.splits)
    then show ?thesis using r by (auto intro: ok_run_ret)
  next
    case (leader l)
    show ?thesis by (rule ok_run_mono [OF append_reply_counts [OF r e leader]]) simp
  qed
qed

lemma install_reply_counts:
  assumes r: "runs M sm w i L n s" and e: "event_ok s i (InstallSnapshotReply t from b (Inr (InstallSnapshotR rep)))"
    and leader: "\<not> isr_term rep > current_term n" "t = current_term n" "role n = Leader l"
  shows "ok_run M sm w i s (on_install_snapshot_reply now t from b rep n) (\<lambda>L' n' s'. L' = L \<and> replied M L from n n' \<and>
    matched n' from b \<and>
    (b < length L \<longrightarrow> from \<in> M \<longrightarrow> requested n' L from (max (entry_or (next_index l) from 1) (b + 1))))"
proof -
  define l1 where "l1 = l\<lparr>last_contact := (last_contact l)(from \<mapsto> now),
    match_index := (match_index l)(from \<mapsto> max (entry_or (match_index l) from 0) b),
    next_index := (next_index l)(from \<mapsto> max (entry_or (next_index l) from 1) (b + 1))\<rparr>"
  define gone where "gone = (case fmlookup (departing l1) from of Some (removal, _) \<Rightarrow> b \<ge> removal | None \<Rightarrow> False)"
  define l2 where "l2 = (if gone then l1\<lparr>departing := fmdrop from (departing l1)\<rparr> else l1)"
  define n1 where "n1 = (if gone then publish_membership (n\<lparr>role := Leader l2\<rparr>) else n\<lparr>role := Leader l2\<rparr>)"
  have a: "MAck (current_term n) from b \<in> msgs s" using e leader(1,2) by simp
  have l2: "next_index l2 = (next_index l)(from \<mapsto> max (entry_or (next_index l) from 1) (b + 1))"
    "match_index l2 = (match_index l)(from \<mapsto> max (entry_or (match_index l) from 0) b)"
    "term_start_index l2 = term_start_index l" by (simp_all add: l2_def l1_def)
  have m: "entry_or (match_index l) from 0 = 0 \<or> MAck (current_term n) from (entry_or (match_index l) from 0) \<in> msgs s"
    using runsD(15) [OF r leader(3), of "from"] by (auto simp: entry_or_def split: option.splits)
  have x: "entry_or (next_index l) from 1 \<le> length L + 1"
    using runsD(12) [OF r leader(3), of "from"] by (auto simp: entry_or_def split: option.splits)
  have "runs M sm w i L (n\<lparr>role := Leader l2\<rparr>) s"
    using leader(3) a m x runs_leader [OF r leader(3)] acked_in_log [OF r leader(3) a]
    by (intro role_update_ok [OF r]) (auto simp: l2 max_def split: if_splits, blast+)
  then have r1: "runs M sm w i L n1 s" unfolding n1_def by (auto intro: runs_core [rotated])
  have n1: "role n1 = Leader l2" "current_term n1 = current_term n" "commit_index n1 = commit_index n"
    "last_applied n1 = last_applied n" "pending n1 = pending n"
    by (simp_all add: n1_def publish_membership_def Let_def current_term_def)
  have eq: "on_install_snapshot_reply now t from b rep n =
      bind_r (if True then maybe_advance_commit now n1 else Inr n1)
        (\<lambda>n'. if b < length L then send_append from n' else Inr n')"
    using leader holds_logD(2) [OF runsD(6) [OF r]]
    by (simp add: on_install_snapshot_reply_def Let_def n1_def l2_def gone_def l1_def)
  have nx: "\<forall>j. j \<noteq> from \<longrightarrow> next_index l2 j = next_index l j"
    and mt: "\<forall>j. entry_or (match_index l) j 0 \<le> entry_or (match_index l2) j 0"
    and c: "b \<le> entry_or (match_index l2) from 0"
    and y: "nxt_of l2 from (length L) = max (entry_or (next_index l) from 1) (b + 1)"
    by (simp_all add: l2 entry_or_def nxt_of_def)
  note A = after_reply [OF r leader(3) r1 n1 nx mt, where adv = True, OF disjI1 [OF TrueI]]
  show ?thesis unfolding eq
    by (rule ok_run_mono [OF A]) (use c y in \<open>auto simp: matched_def\<close>)
qed

lemma on_install_snapshot_reply_ok:
  assumes r: "runs M sm w i L n s" and e: "event_ok s i (InstallSnapshotReply t from b (Inr (InstallSnapshotR rep)))"
  shows "ok_run M sm w i s (on_install_snapshot_reply now t from b rep n) (\<lambda>L' n' s'. True)"
proof -
  consider (higher) "isr_term rep > current_term n"
    | (skip) "\<not> isr_term rep > current_term n" "t \<noteq> current_term n \<or> \<not> is_leader n"
    | (leader) l where "\<not> isr_term rep > current_term n" "t = current_term n" "role n = Leader l"
    by (cases "role n") (auto simp: is_leader_def)
  then show ?thesis
  proof cases
    case higher
    then show ?thesis
      by (auto simp: on_install_snapshot_reply_def intro!: ok_run_mono [OF become_follower_ok [OF r]])
  next
    case skip
    then have "on_install_snapshot_reply now t from b rep n = Inr n"
      by (auto simp: on_install_snapshot_reply_def is_leader_def split: role.splits)
    then show ?thesis using r by (auto intro: ok_run_ret)
  next
    case (leader l)
    show ?thesis by (rule ok_run_mono [OF install_reply_counts [OF r e leader]]) simp
  qed
qed

lemma handle_event_ok:
  assumes r: "runs M sm w i L n s" and e: "event_ok s i ev"
  shows "ok_run M sm w i s (handle_event now ev n) (\<lambda>L' n' s'. True)"
proof -
  have *: "ok_run M sm w i s (Inr n) (\<lambda>L' n' s'. True)" using r by (auto intro: ok_run_ret)
  show ?thesis
    using e ok_run_mono [OF on_pre_vote_reply_ok [OF r], where Q = "\<lambda>L' n' s'. True"] on_vote_reply_ok [OF r] on_append_reply_ok [OF r]
      on_install_snapshot_reply_ok [OF r] *
    by (cases "(s, i, ev)" rule: event_ok.cases)
      (simp_all add: handle_event_def split: sum.splits rpc_response.splits)
qed

end
