(* ===== verification/Steady.thy ===== *)
theory Steady
  imports Turn_Refine
begin

section \<open>What a turn keeps of clients' waiters and of heartbeat rounds\<close>

text \<open>
  The coupling of \<^verbatim>\<open>Node_Refine\<close> forgets the client side of a node: waiting proposals, pending reads, the heartbeat
  sequence numbers a read waits for. \<open>steady K n\<close> is an invariant of single nodes about these, relative to a list
  \<open>K\<close> of things to watch: the rounds of AppendEntries sent so far, a read that was registered in some term with some
  sequence number, with the peers that may acknowledge that number, and a proposal that waits on some channel.
  Every handler keeps it. Nothing here depends on the other nodes.
\<close>

record watchlist =
  wl_self :: node_id
  wl_members :: "node_id set"
  wl_floor :: term_no
  wl_sent :: "(term_no \<times> nat) set"
  wl_term :: term_no
  wl_seq :: nat
  wl_fresh :: "node_id set"
  wl_read :: "chan option"
  wl_index :: log_index
  wl_write :: "chan option"
  wl_entry :: "log_index \<times> term_no"

definition appends :: "('v, 'sm) raft_node \<Rightarrow> (term_no \<times> nat) set" where
  "appends n = {(t, q). \<exists>p r a k. SendRpc p r (AppendCtx t a k q) \<in> set (effects n)}"

text \<open>Whether a node in this role can have sent round \<open>q\<close> in its current term.\<close>

definition sent_by :: "role \<Rightarrow> nat \<Rightarrow> bool" where
  "sent_by r q = (case r of Leader l \<Rightarrow> q \<le> heartbeat_seq l | Candidate _ \<Rightarrow> False | _ \<Rightarrow> True)"

definition wl_quorum :: "watchlist \<Rightarrow> bool" where
  "wl_quorum K \<longleftrightarrow> is_majority (wl_members K)
     {j \<in> wl_members K. j = wl_self K \<or> j \<in> wl_fresh K}"

definition leader_steady :: "watchlist \<Rightarrow> term_no \<Rightarrow> chan \<Rightarrow> leader_state \<Rightarrow> bool" where
  "leader_steady K t c l \<longleftrightarrow>
     (\<forall>j q. acked_seq l j = Some q \<longrightarrow> q \<le> heartbeat_seq l \<and>
        (t = wl_term K \<longrightarrow> wl_seq K \<le> q \<longrightarrow> j \<in> wl_fresh K)) \<and>
     (\<forall>r \<in> set (pending_reads l). granted r < c \<and>
        (wl_read K = Some (granted r) \<longrightarrow> t = wl_term K \<and> wl_seq K \<le> needed_seq r \<and> wl_index K \<le> read_index r))"

definition steady :: "watchlist \<Rightarrow> ('v, 'sm) raft_node \<Rightarrow> bool" where
  "steady K n \<longleftrightarrow>
     cfg_id (config n) = wl_self K \<and> (role n = Follower \<or> fset (fmdom (members n)) = wl_members K) \<and>
     wl_floor K \<le> current_term n \<and> last_applied n \<le> commit_index n \<and>
     (\<forall>t q. (t, q) \<in> wl_sent K \<union> appends n \<longrightarrow>
        t \<le> current_term n \<and> (t = current_term n \<longrightarrow> sent_by (role n) q)) \<and>
     (\<forall>l. role n = Leader l \<longrightarrow> leader_steady K (current_term n) (next_chan n) l) \<and>
     (\<forall>g. wl_read K = Some g \<or> wl_write K = Some g \<longrightarrow> g < next_chan n) \<and>
     (\<forall>g. wl_read K = Some g \<longrightarrow> Granted g \<in> set (effects n) \<longrightarrow> wl_index K \<le> last_applied n \<and> wl_quorum K) \<and>
     (\<forall>p \<in> set (pending n). pp_committed p < next_chan n \<and>
        (wl_write K = Some (pp_committed p) \<longrightarrow> wl_entry K = (pp_index p, pp_term p))) \<and>
     (\<forall>p b. Committed p b \<in> set (effects n) \<longrightarrow>
        wl_write K = Some (pp_committed p) \<longrightarrow> wl_entry K = (pp_index p, pp_term p))"

definition keeps :: "watchlist \<Rightarrow> 'e + ('v, 'sm) raft_node \<Rightarrow> bool" where
  "keeps K m \<longleftrightarrow> wp UNIV m (steady K)"

text \<open>What matters of a node for this.\<close>

definition sview :: "('v, 'sm) raft_node \<Rightarrow> _" where
  "sview n = (cfg_id (config n), role n, members n, current_term n, last_applied n, commit_index n, next_chan n,
     effects n, pending n)"

lemma steady_view: "sview n' = sview n \<Longrightarrow> steady K n \<Longrightarrow> steady K n'"
  unfolding steady_def sview_def appends_def by simp

lemma keeps_ret: "steady K n \<Longrightarrow> keeps K (Inr n)"
  by (simp add: keeps_def wp_rules)

lemma keeps_err: "keeps K (Inl e)"
  by (simp add: keeps_def wp_rules)

lemma keeps_bind: "keeps K m \<Longrightarrow> (\<And>n. steady K n \<Longrightarrow> keeps K (f n)) \<Longrightarrow> keeps K (bind_r m f)"
  unfolding keeps_def wp_bind by (erule wp_mono)

lemma keeps_seq: "(\<And>x n. steady K n \<Longrightarrow> keeps K (f x n)) \<Longrightarrow> steady K n \<Longrightarrow> keeps K (seq_r f xs n)"
  unfolding keeps_def by (rule wp_seq_r)

lemma keeps_view:
  assumes "steady K n" and "\<And>n'. m = Inr n' \<Longrightarrow> sview n' = sview n"
  shows "keeps K m"
  using assms steady_view [OF _ assms(1)] by (cases m) (auto simp: keeps_def wp_rules)

subsection \<open>Parts of a turn\<close>

lemma steady_publish: "steady K n \<Longrightarrow> steady K (publish_membership n)"
  by (rule steady_view) (simp_all add: sview_def publish_membership_def current_term_def Let_def)

lemma keeps_timer: "steady K n \<Longrightarrow> keeps K (reset_election_timer now n)"
  by (rule keeps_view)
    (auto simp: reset_election_timer_def sview_def current_term_def Let_def split: if_splits option.splits)

text \<open>Effects that answer no waiter and send no batch.\<close>

fun quiet :: "'v effect \<Rightarrow> bool" where
  "quiet (SendRpc p r (AppendCtx t a k q)) = False"
| "quiet (Granted g) = False"
| "quiet (Committed p b) = False"
| "quiet e = True"

lemma steady_emit:
  assumes "steady K n" and "\<And>e. e \<in> set fx \<Longrightarrow> quiet e"
  shows "steady K (emit fx n)"
proof -
  have "appends (emit fx n) = appends n" using assms(2) by (fastforce simp: appends_def emit_def)
  moreover have "Granted g \<in> set (effects (emit fx n)) \<longleftrightarrow> Granted g \<in> set (effects n)"
    "Committed p b \<in> set (effects (emit fx n)) \<longleftrightarrow> Committed p b \<in> set (effects n)" for g p b
    using assms(2) by (fastforce simp: emit_def)+
  ultimately show ?thesis using assms(1) unfolding steady_def by (simp add: emit_def current_term_def)
qed

text \<open>A storage mutation that keeps the term.\<close>

lemma steady_stored: "steady K n \<Longrightarrow> steady K (emit [Stored st] n)"
  by (rule steady_emit) simp_all

lemma keeps_store:
  assumes "steady K n" and "\<And>st. m = Inr st \<Longrightarrow> hard_state st = hard_state (storage n)"
  shows "keeps K (store m n)"
proof (cases m)
  case (Inr st)
  have "steady K (n\<lparr>storage := st\<rparr>)"
    by (rule steady_view [OF _ assms(1)]) (use assms(2) [OF Inr] in \<open>simp add: sview_def current_term_def\<close>)
  then show ?thesis using Inr by (simp add: store_def keeps_ret steady_stored)
qed (simp add: store_def keeps_err)

lemma steadyD:
  assumes "steady K n"
  shows "cfg_id (config n) = wl_self K" and "role n \<noteq> Follower \<Longrightarrow> fset (fmdom (members n)) = wl_members K"
    and "wl_floor K \<le> current_term n" and "last_applied n \<le> commit_index n"
    and "(t, q) \<in> wl_sent K \<union> appends n \<Longrightarrow> t \<le> current_term n"
    and "(t, q) \<in> wl_sent K \<union> appends n \<Longrightarrow> t = current_term n \<Longrightarrow> sent_by (role n) q"
    and "role n = Leader l \<Longrightarrow> leader_steady K (current_term n) (next_chan n) l"
    and "wl_read K = Some g \<or> wl_write K = Some g \<Longrightarrow> g < next_chan n"
    and "wl_read K = Some g \<Longrightarrow> Granted g \<in> set (effects n) \<Longrightarrow> wl_index K \<le> last_applied n \<and> wl_quorum K"
    and "p \<in> set (pending n) \<Longrightarrow> pp_committed p < next_chan n \<and>
      (wl_write K = Some (pp_committed p) \<longrightarrow> wl_entry K = (pp_index p, pp_term p))"
    and "Committed p b \<in> set (effects n) \<Longrightarrow> wl_write K = Some (pp_committed p) \<Longrightarrow>
      wl_entry K = (pp_index p, pp_term p)"
  using assms unfolding steady_def by blast+

lemma steadyI:
  assumes "cfg_id (config n) = wl_self K" and "role n = Follower \<or> fset (fmdom (members n)) = wl_members K"
    and "wl_floor K \<le> current_term n" and "last_applied n \<le> commit_index n"
    and "\<And>t q. (t, q) \<in> wl_sent K \<union> appends n \<Longrightarrow> t \<le> current_term n \<and> (t = current_term n \<longrightarrow> sent_by (role n) q)"
    and "\<And>l. role n = Leader l \<Longrightarrow> leader_steady K (current_term n) (next_chan n) l"
    and "\<And>g. wl_read K = Some g \<or> wl_write K = Some g \<Longrightarrow> g < next_chan n"
    and "\<And>g. wl_read K = Some g \<Longrightarrow> Granted g \<in> set (effects n) \<Longrightarrow> wl_index K \<le> last_applied n \<and> wl_quorum K"
    and "\<And>p. p \<in> set (pending n) \<Longrightarrow> pp_committed p < next_chan n \<and>
      (wl_write K = Some (pp_committed p) \<longrightarrow> wl_entry K = (pp_index p, pp_term p))"
    and "\<And>p b. Committed p b \<in> set (effects n) \<Longrightarrow> wl_write K = Some (pp_committed p) \<Longrightarrow>
      wl_entry K = (pp_index p, pp_term p)"
  shows "steady K n"
  using assms unfolding steady_def by blast

text \<open>Changes of role and term only.\<close>

lemma steady_move:
  assumes "steady K n" and "config n' = config n" "next_chan n' = next_chan n" "effects n' = effects n"
      "pending n' = pending n" "last_applied n' = last_applied n" "commit_index n' = commit_index n"
    and "role n' = Follower \<or> fset (fmdom (members n')) = wl_members K" and "wl_floor K \<le> current_term n'"
    and "\<And>t q. (t, q) \<in> wl_sent K \<union> appends n \<Longrightarrow> t \<le> current_term n' \<and> (t = current_term n' \<longrightarrow> sent_by (role n') q)"
    and "\<And>l. role n' = Leader l \<Longrightarrow> leader_steady K (current_term n') (next_chan n') l"
  shows "steady K n'"
proof -
  have "appends n' = appends n" using assms(4) by (simp add: appends_def)
  then show ?thesis using assms(1,8-11) unfolding steady_def assms(2-7) by blast
qed

lemma steady_calm:
  assumes "steady K n" and "r = Follower \<or> (\<exists>vs. r = PreCandidate vs) \<and> fset (fmdom (members n)) = wl_members K"
  shows "steady K (n\<lparr>role := r\<rparr>)"
proof (rule steady_move [OF assms(1)])
  note D = steadyD [OF assms(1)]
  have c: "current_term (n\<lparr>role := r\<rparr>) = current_term n" by (simp add: current_term_def)
  show "wl_floor K \<le> current_term (n\<lparr>role := r\<rparr>)" using c D(3) by simp
  show "t \<le> current_term (n\<lparr>role := r\<rparr>) \<and> (t = current_term (n\<lparr>role := r\<rparr>) \<longrightarrow> sent_by (role (n\<lparr>role := r\<rparr>)) q)"
    if "(t, q) \<in> wl_sent K \<union> appends n" for t q
    using D(5) [OF that] c assms(2) by (auto simp: sent_by_def)
qed (use assms(2) in auto)

lemma steady_leader:
  assumes "steady K n" and "role n = Leader l" and "heartbeat_seq l \<le> heartbeat_seq l'"
    and "leader_steady K (current_term n) (next_chan n) l'"
  shows "steady K (n\<lparr>role := Leader l'\<rparr>)"
proof -
  note D = steadyD [OF assms(1)]
  have c: "current_term (n\<lparr>role := Leader l'\<rparr>) = current_term n" by (simp add: current_term_def)
  have "sent_by (Leader l') q" if "sent_by (Leader l) q" for q using that assms(3) by (simp add: sent_by_def)
  then show ?thesis
    by (intro steady_move [OF assms(1)]) (use D(2,3,5,6) assms(2,4) c in auto)
qed

lemma leader_steady_mono:
  assumes "leader_steady K t c l" and "acked_seq l' = acked_seq l" and "heartbeat_seq l \<le> heartbeat_seq l'"
    and "set (pending_reads l') \<subseteq> set (pending_reads l)"
  shows "leader_steady K t c l'"
  using assms(1,3,4) unfolding leader_steady_def assms(2) by (meson order_trans subsetD)

text \<open>Moving to a later term, as a follower or a candidate.\<close>

lemma steady_term:
  assumes "steady K n" and "current_term n < t" and "r = Follower \<or> (\<exists>vs. r = Candidate vs) \<and> fset (fmdom (members n)) = wl_members K"
  shows "steady K (n\<lparr>storage := (storage n)\<lparr>hard_state := \<lparr>hs_current_term = t, voted_for = v\<rparr>\<rparr>, role := r\<rparr>)"
    (is "steady K ?n")
proof (rule steady_move [OF assms(1)])
  note D = steadyD [OF assms(1)]
  have c: "current_term ?n = t" by (simp add: current_term_def)
  show "wl_floor K \<le> current_term ?n" using c D(3) assms(2) by simp
  show "t' \<le> current_term ?n \<and> (t' = current_term ?n \<longrightarrow> sent_by (role ?n) q)" if "(t', q) \<in> wl_sent K \<union> appends n" for t' q
    using D(5) [OF that] c assms(2) by simp
qed (use assms(3) in auto)

lemma quiet_dropped: "e \<in> set (dropped_reads r) \<Longrightarrow> quiet e"
  by (auto simp: dropped_reads_def split: role.splits)

lemma keeps_become_follower:
  assumes "steady K n"
  shows "keeps K (become_follower now t lid n)"
proof (cases "t < current_term n")
  case True
  then show ?thesis by (simp add: become_follower_def keeps_err)
next
  case False
  define n1 where "n1 = (if t > current_term n
    then emit [Stored ((storage n)\<lparr>hard_state := \<lparr>hs_current_term = t, voted_for = None\<rparr>\<rparr>)]
      (n\<lparr>storage := (storage n)\<lparr>hard_state := \<lparr>hs_current_term = t, voted_for = None\<rparr>\<rparr>\<rparr>) else n)"
  define n2 where "n2 = (emit (dropped_reads (role n1)) n1)\<lparr>role := Follower, leader_id := lid\<rparr>"
  have "steady K (n1\<lparr>role := Follower\<rparr>)"
  proof (cases "current_term n < t")
    case True
    let ?st = "(storage n)\<lparr>hard_state := \<lparr>hs_current_term = t, voted_for = None\<rparr>\<rparr>"
    from steady_stored [OF steady_term [OF assms True, of Follower None], of ?st] True show ?thesis
      by (auto simp: n1_def sview_def emit_def current_term_def elim!: steady_view [rotated])
  qed (simp add: n1_def steady_calm [OF assms])
  from steady_emit [OF this, of "dropped_reads (role n1)"]
  have "steady K (emit (dropped_reads (role n1)) (n1\<lparr>role := Follower\<rparr>))" using quiet_dropped by blast
  then have "steady K n2"
    by (elim steady_view [rotated]) (auto simp: n2_def sview_def emit_def current_term_def)
  then have "keeps K (reset_election_timer now (if b then publish_membership n2 else n2))" for b
    by (simp add: keeps_timer steady_publish)
  moreover have "become_follower now t lid n = reset_election_timer now
      (if (case role n1 of Leader l \<Rightarrow> departing l \<noteq> fmempty | _ \<Rightarrow> False) then publish_membership n2 else n2)"
    using False by (auto simp: become_follower_def Let_def n1_def n2_def store_def save_hard_state_def)
  ultimately show ?thesis by simp
qed

subsection \<open>Replication\<close>

lemma keeps_send_append:
  assumes "steady K n"
  shows "keeps K (send_append p n)"
proof (cases "role n")
  case (Leader l)
  note D = steadyD [OF assms]
  have e: "steady K (emit [SendRpc p r (AppendCtx (current_term n) a k (heartbeat_seq l))] n)" for r a k
  proof (rule steadyI)
    let ?n = "emit [SendRpc p r (AppendCtx (current_term n) a k (heartbeat_seq l))] n"
    have c: "current_term ?n = current_term n" "role ?n = role n" by (simp_all add: emit_def current_term_def)
    show "t \<le> current_term ?n \<and> (t = current_term ?n \<longrightarrow> sent_by (role ?n) q)" if "(t, q) \<in> wl_sent K \<union> appends ?n" for t q
    proof (cases "(t, q) \<in> wl_sent K \<union> appends n")
      case True
      with D(5) [OF True] D(6) [OF True] c show ?thesis by simp
    next
      case False
      with that have "t = current_term n \<and> q = heartbeat_seq l" by (auto simp: appends_def emit_def)
      with Leader c show ?thesis by (simp add: sent_by_def)
    qed
  qed (use D in \<open>auto simp: emit_def current_term_def\<close>)
  have i: "steady K (emit [SendRpc p r (InstallCtx t b)] n)" for r t b
    by (rule steady_emit [OF assms]) auto
  show ?thesis using Leader assms
    by (auto simp: send_append_def send_install_snapshot_def Let_def split: option.splits
        intro!: keeps_ret keeps_err e i)
qed (use assms in \<open>auto simp: send_append_def intro: keeps_ret\<close>)

lemma keeps_send_all: "steady K n \<Longrightarrow> keeps K (seq_r send_append ps n)"
  by (rule keeps_seq [OF keeps_send_append])

subsection \<open>Applying and answering\<close>

lemma hard_state_kept:
  "append st es = Inr st' \<Longrightarrow> hard_state st' = hard_state st"
  "truncate_from st k = Inr st' \<Longrightarrow> hard_state st' = hard_state st"
  "compact_to st k v m = Inr st' \<Longrightarrow> hard_state st' = hard_state st"
  "Storage.install_snapshot st z = Inr st' \<Longrightarrow> hard_state st' = hard_state st"
  by (auto simp: append_def truncate_from_def compact_to_def install_snapshot_def write_snapshot_def rewrite_log_def
      Let_def split: if_splits option.splits)

lemma sview_staged [simp]: "sview (n\<lparr>staged_snapshot := x\<rparr>) = sview n"
  by (simp add: sview_def current_term_def)

lemma keeps_maybe_compact:
  assumes "steady K n"
  shows "keeps K (maybe_compact n)"
proof (cases "snapshot_threshold (config n)")
  case None
  then show ?thesis using assms by (simp add: maybe_compact_def keeps_ret)
next
  case (Some threshold)
  have st: "steady K (m\<lparr>staged_snapshot := x\<rparr>)" if "steady K m" for m :: "('a, 'b) raft_node" and x
    using steady_view [OF sview_staged that] .
  show ?thesis using st [OF assms] assms unfolding maybe_compact_def Some option.case Let_def
    by (intro keeps_bind) (auto split: option.splits prod.splits
        intro!: keeps_ret keeps_err keeps_store st dest: hard_state_kept)
qed

lemma apply_loop_view:
  "apply_loop n = Inr n' \<Longrightarrow> last_applied n \<le> commit_index n \<Longrightarrow>
    last_applied n' = commit_index n \<and> sview n' = sview (n\<lparr>last_applied := commit_index n\<rparr>)"
proof (induction n rule: apply_loop.induct)
  case (1 n)
  show ?case
  proof (cases "last_applied n < commit_index n")
    case True
    with 1(2) obtain e where e: "entry (storage n) (last_applied n + 1) = Some e"
      by (subst (asm) apply_loop.simps) (auto split: option.splits)
    from 1(1) [OF True e] 1(2) True e show ?thesis
      by (subst (asm) apply_loop.simps) (auto simp: sview_def current_term_def)
  next
    case False
    with 1(2,3) show ?thesis by (subst (asm) apply_loop.simps) (auto simp: sview_def current_term_def)
  qed
qed

lemma steady_progress:
  assumes "steady K n" and "last_applied n \<le> la" and "la \<le> c"
  shows "steady K (n\<lparr>commit_index := c, last_applied := la\<rparr>)"
proof -
  have a: "appends (n\<lparr>commit_index := c, last_applied := la\<rparr>) = appends n"
    "current_term (n\<lparr>commit_index := c, last_applied := la\<rparr>) = current_term n"
    by (simp_all add: appends_def current_term_def)
  show ?thesis
    by (rule steadyI, unfold a) (use steadyD [OF assms(1)] assms(2,3) in \<open>auto intro: order_trans\<close>)
qed

lemma keeps_apply_loop:
  assumes "steady K n"
  shows "keeps K (apply_loop n)"
proof -
  have "steady K n'" if "apply_loop n = Inr n'" for n'
  proof -
    note D = steadyD(4) [OF assms]
    have "steady K (n\<lparr>commit_index := commit_index n, last_applied := commit_index n\<rparr>)"
      by (rule steady_progress [OF assms D order_refl])
    moreover have "n\<lparr>commit_index := commit_index n, last_applied := commit_index n\<rparr> = n\<lparr>last_applied := commit_index n\<rparr>"
      by simp
    ultimately show ?thesis using apply_loop_view [OF that D] steady_view by metis
  qed
  then show ?thesis by (simp add: keeps_def wp_UNIV_iff)
qed

lemma steady_resolve_pending:
  assumes "steady K n"
  shows "steady K (resolve_pending n)"
proof -
  let ?n = "resolve_pending n"
  have v: "config ?n = config n" "next_chan ?n = next_chan n" "current_term ?n = current_term n"
    "appends ?n = appends n"
    by (auto simp: resolve_pending_def emit_def current_term_def appends_def split: option.splits if_splits)
  have w: "Granted g \<in> set (effects ?n) \<Longrightarrow> Granted g \<in> set (effects n)"
    "p \<in> set (pending ?n) \<Longrightarrow> p \<in> set (pending n)"
    "Committed p b \<in> set (effects ?n) \<Longrightarrow> Committed p b \<in> set (effects n) \<or> p \<in> set (pending n)" for g p b
    by (auto simp: resolve_pending_def emit_def split: option.splits if_splits)
  show ?thesis using assms w unfolding steady_def v sel_resolve_pending by blast
qed

text \<open>A read is granted only when a majority has acknowledged a round that is recent enough.\<close>

lemma read_ready_quorum:
  assumes st: "steady K n" and l: "role n = Leader l" and r: "r \<in> set (pending_reads l)"
    and g: "wl_read K = Some (granted r)" and ready: "read_ready n l r"
  shows "wl_index K \<le> last_applied n \<and> wl_quorum K"
proof -
  let ?M = "fset (fmdom (members n))" and ?i = "cfg_id (config n)"
  note D = steadyD [OF st]
  from D(7) [OF l] r g have L: "current_term n = wl_term K" "wl_seq K \<le> needed_seq r" "wl_index K \<le> read_index r"
    "\<And>j q. acked_seq l j = Some q \<Longrightarrow> wl_seq K \<le> q \<Longrightarrow> j \<in> wl_fresh K"
    unfolding leader_steady_def by blast+
  have m: "?M = wl_members K" "?i = wl_self K" using D(1,2) l by simp_all
  let ?A = "filter (\<lambda>i. case acked_seq l i of Some q \<Rightarrow> q \<ge> needed_seq r | None \<Rightarrow> False) (peer_ids n)"
  have "distinct ?A" by (simp add: peer_ids_def)
  then have "length ?A = card (set ?A)" by (rule distinct_card [symmetric])
  moreover have sub: "set ?A \<subseteq> {j \<in> ?M - {?i}. j \<in> wl_fresh K}"
    using L(2,4) by (auto simp: peer_ids_def split: option.splits)
  ultimately have A: "length ?A \<le> card {j \<in> ?M - {?i}. j \<in> wl_fresh K}"
    using card_mono [OF _ sub] by simp
  have "read_acks n l r \<le> card {j \<in> ?M. j = ?i \<or> j \<in> wl_fresh K}"
  proof (cases "is_member n")
    case True
    then have "{j \<in> ?M. j = ?i \<or> j \<in> wl_fresh K} = insert ?i {j \<in> ?M - {?i}. j \<in> wl_fresh K}"
      by (auto simp: is_member_def)
    with A True show ?thesis by (simp add: read_acks_def)
  next
    case False
    then have "{j \<in> ?M. j = ?i \<or> j \<in> wl_fresh K} = {j \<in> ?M - {?i}. j \<in> wl_fresh K}"
      by (auto simp: is_member_def)
    with A False show ?thesis by (simp add: read_acks_def)
  qed
  with ready m have "wl_quorum K"
    by (auto simp: read_ready_def majority_def bt_len_card wl_quorum_def is_majority_def)
  with ready L(3) show ?thesis by (simp add: read_ready_def)
qed

lemma steady_resolve_reads:
  assumes "steady K n"
  shows "steady K (resolve_reads n)"
proof (cases "role n")
  case (Leader l)
  let ?l = "l\<lparr>pending_reads := filter (\<lambda>r. \<not> read_ready n l r) (pending_reads l)\<rparr>"
  let ?fx = "map (\<lambda>r. Granted (granted r)) (filter (read_ready n l) (pending_reads l))"
  let ?m = "n\<lparr>role := Leader ?l\<rparr>"
  have m: "steady K ?m"
    by (rule steady_leader [OF assms Leader _ leader_steady_mono [OF steadyD(7) [OF assms Leader]]]) auto
  have v: "config (emit fx k) = config k" "role (emit fx k) = role k" "members (emit fx k) = members k"
    "current_term (emit fx k) = current_term k" "last_applied (emit fx k) = last_applied k"
    "commit_index (emit fx k) = commit_index k" "next_chan (emit fx k) = next_chan k" "pending (emit fx k) = pending k"
    for fx and k :: "('a, 'b) raft_node" by (simp_all add: emit_def current_term_def)
  have a: "appends (emit ?fx ?m) = appends ?m" by (auto simp: appends_def emit_def)
  have w: "Committed p b \<in> set (effects (emit ?fx ?m)) \<Longrightarrow> Committed p b \<in> set (effects ?m)" for p b
    by (auto simp: emit_def)
  have g: "wl_index K \<le> last_applied ?m \<and> wl_quorum K"
    if "wl_read K = Some g" "Granted g \<in> set (effects (emit ?fx ?m))" for g
    using that steadyD(9) [OF assms that(1)] read_ready_quorum [OF assms Leader] by (auto simp: emit_def)
  have "steady K (emit ?fx ?m)" using m w g unfolding steady_def v a by blast
  then show ?thesis using Leader by (simp add: resolve_reads_def)
qed (use assms in \<open>simp_all add: resolve_reads_def\<close>)

lemma keeps_apply_committed: "steady K n \<Longrightarrow> keeps K (apply_committed n)"
  unfolding apply_committed_def
  by (intro keeps_bind keeps_apply_loop keeps_maybe_compact steady_resolve_reads steady_resolve_pending)

lemma keeps_commit:
  assumes "steady K n" and "commit_index n < c"
  shows "keeps K (apply_committed (n\<lparr>commit_index := c\<rparr>))"
proof -
  have "steady K (n\<lparr>commit_index := c, last_applied := last_applied n\<rparr>)"
    by (rule steady_progress [OF assms(1)]) (use steadyD(4) [OF assms(1)] assms(2) in auto)
  then show ?thesis by (intro keeps_apply_committed) simp
qed

lemma keeps_maybe_advance_commit: "steady K n \<Longrightarrow> keeps K (maybe_advance_commit now n)"
  unfolding maybe_advance_commit_def advance_to_majority_def Let_def
  by (auto split: role.splits intro!: keeps_bind keeps_ret keeps_commit keeps_become_follower)

lemma keeps_on_heartbeat_tick:
  assumes "steady K n"
  shows "keeps K (on_heartbeat_tick now n)"
proof -
  have "steady K (m\<lparr>next_heartbeat := t\<rparr>)" if "steady K m" for m :: "('a, 'b) raft_node" and t
    by (rule steady_view [OF _ that]) (simp add: sview_def current_term_def)
  then show ?thesis unfolding on_heartbeat_tick_def
    using assms by (auto intro!: keeps_bind keeps_ret keeps_send_all keeps_become_follower)
qed

subsection \<open>Elections\<close>

lemma keeps_maybe_become_leader:
  assumes "steady K n"
  shows "keeps K (maybe_become_leader now n)"
proof (cases "role n")
  case (Candidate vs)
  let ?n = "n\<lparr>role := Leader (fresh_leader now n), leader_id := Some (cfg_id (config n))\<rparr>"
  have "steady K ?n"
  proof (rule steady_move [OF assms])
    note D = steadyD [OF assms]
    have c: "current_term ?n = current_term n" by (simp add: current_term_def)
    show "wl_floor K \<le> current_term ?n" using c D(3) by simp
    show "t \<le> current_term ?n \<and> (t = current_term ?n \<longrightarrow> sent_by (role ?n) q)" if "(t, q) \<in> wl_sent K \<union> appends n" for t q
      using D(5) [OF that] D(6) [OF that] c Candidate by (auto simp: sent_by_def)
    show "role ?n = Follower \<or> fset (fmdom (members ?n)) = wl_members K" using D(2) Candidate by simp
  qed (auto simp: fresh_leader_def Let_def leader_steady_def)
  then show ?thesis using Candidate assms
    by (auto simp: maybe_become_leader_def Let_def
        intro!: keeps_bind keeps_ret keeps_store keeps_maybe_advance_commit keeps_on_heartbeat_tick dest: hard_state_kept)
qed (use assms in \<open>simp_all add: maybe_become_leader_def keeps_ret\<close>)

lemma keeps_start_election:
  assumes "steady K n" and "fset (fmdom (members n)) = wl_members K"
  shows "keeps K (start_election now n)"
proof -
  let ?n = "n\<lparr>storage := (storage n)\<lparr>hard_state := \<lparr>hs_current_term = current_term n + 1,
    voted_for = Some (cfg_id (config n))\<rparr>\<rparr>, role := Candidate {cfg_id (config n)}\<rparr>"
  have "steady K ?n" by (rule steady_term [OF assms(1)]) (use assms(2) in auto)
  from steady_stored [OF this, of "storage ?n"]
  have "steady K ((emit [Stored (storage ?n)] (n\<lparr>storage := storage ?n\<rparr>))\<lparr>role := role ?n, leader_id := None\<rparr>)"
    by (rule steady_view [rotated]) (simp add: sview_def current_term_def emit_def)
  then show ?thesis
    by (auto simp: start_election_def Let_def store_def save_hard_state_def
        intro!: keeps_bind keeps_timer keeps_maybe_become_leader steady_emit)
qed

lemma keeps_maybe_start_election: "steady K n \<Longrightarrow> keeps K (maybe_start_election now n)"
  using steadyD(2) [of K n]
  by (auto simp: maybe_start_election_def split: role.splits intro!: keeps_ret keeps_start_election)

lemma keeps_on_election_timeout:
  assumes "steady K n" and "fset (fmdom (members n)) = wl_members K"
  shows "keeps K (on_election_timeout now n)"
proof -
  have "steady K (n\<lparr>role := PreCandidate {cfg_id (config n)}\<rparr>)"
    by (rule steady_calm [OF assms(1)]) (use assms(2) in simp)
  then have "steady K (n\<lparr>role := PreCandidate {cfg_id (config n)}, leader_id := None\<rparr>)"
    by (rule steady_view [rotated]) (simp add: sview_def current_term_def)
  then show ?thesis using assms
    by (auto simp: on_election_timeout_def Let_def intro!: keeps_bind keeps_timer keeps_maybe_start_election steady_emit)
qed

subsection \<open>Proposals and reads\<close>

lemma steady_grow:
  assumes "steady K n" and "config n' = config n" "members n' = members n" "current_term n' = current_term n"
      "last_applied n' = last_applied n" "commit_index n' = commit_index n" "effects n' = effects n"
    and "role n = Follower \<longleftrightarrow> role n' = Follower" "\<And>q. sent_by (role n) q \<Longrightarrow> sent_by (role n') q"
    and "\<And>l. role n' = Leader l \<Longrightarrow> leader_steady K (current_term n) (next_chan n') l"
    and "next_chan n \<le> next_chan n'"
    and "\<And>p. p \<in> set (pending n') \<Longrightarrow> pp_committed p < next_chan n' \<and>
      (wl_write K = Some (pp_committed p) \<longrightarrow> wl_entry K = (pp_index p, pp_term p))"
  shows "steady K n'"
proof -
  have a: "appends n' = appends n" using assms(7) by (simp add: appends_def)
  have g: "g < next_chan n'" if "wl_read K = Some g \<or> wl_write K = Some g" for g
    using steadyD(8) [OF assms(1) that] assms(11) by simp
  have s: "t \<le> current_term n \<and> (t = current_term n \<longrightarrow> sent_by (role n') q)" if "(t, q) \<in> wl_sent K \<union> appends n" for t q
    using steadyD(5,6) [OF assms(1) that] assms(9) [of q] by blast
  show ?thesis using assms(1,8,10,12) g s unfolding steady_def assms(2-7) a by blast
qed

lemma leader_steady_chan: "leader_steady K t c l \<Longrightarrow> c \<le> c' \<Longrightarrow> leader_steady K t c' l"
  unfolding leader_steady_def by (meson less_le_trans)

lemma steady_waiter:
  assumes "steady K n"
  shows "steady K (n\<lparr>next_chan := next_chan n + 1,
    pending := pending n @ [\<lparr>pp_term = t, pp_index = k, pp_committed = next_chan n\<rparr>]\<rparr>)" (is "steady K ?n")
proof -
  note D = steadyD [OF assms]
  have a: "appends ?n = appends n" "current_term ?n = current_term n" by (simp_all add: appends_def current_term_def)
  have p: "pp_committed p < next_chan ?n \<and> (wl_write K = Some (pp_committed p) \<longrightarrow> wl_entry K = (pp_index p, pp_term p))"
    if "p \<in> set (pending ?n)" for p
    using that D(8) [of "next_chan n"] D(10) [of p] by (auto dest: less_SucI)
  have l: "leader_steady K (current_term n) (next_chan ?n) l" if "role n = Leader l" for l
    using leader_steady_chan [OF D(7) [OF that]] by simp
  show ?thesis by (rule steady_grow [OF assms]) (use a p l in auto)
qed

text \<open>The same step, watched: the new waiter itself is what \<open>K\<close> watches from now on.\<close>

lemma quiet_effects:
  assumes "\<forall>e \<in> set (effects n). quiet e"
  shows "appends n = {}" and "Granted g \<notin> set (effects n)" and "Committed p b \<notin> set (effects n)"
  using assms by (force simp: appends_def)+

lemma steady_forget:
  assumes "steady K n" and "\<forall>e \<in> set (effects n). quiet e"
  shows "steady (K\<lparr>wl_read := None, wl_write := None\<rparr>) n"
  using assms unfolding steady_def leader_steady_def by simp

lemma steady_watch_write:
  assumes "steady K n" and "\<forall>e \<in> set (effects n). quiet e"
  shows "steady (K\<lparr>wl_write := Some (next_chan n), wl_entry := (k, t)\<rparr>) (n\<lparr>next_chan := next_chan n + 1,
    pending := pending n @ [\<lparr>pp_term = t, pp_index = k, pp_committed = next_chan n\<rparr>]\<rparr>)" (is "steady ?K ?n")
proof -
  note D = steadyD [OF assms(1)]
  have a: "appends ?n = {}" "current_term ?n = current_term n" using quiet_effects(1) [OF assms(2)] by (simp_all add: appends_def current_term_def)
  have p: "pp_committed p < next_chan ?n \<and> (wl_write ?K = Some (pp_committed p) \<longrightarrow> wl_entry ?K = (pp_index p, pp_term p))"
    if "p \<in> set (pending ?n)" for p
    using that D(10) [of p] by (auto dest: less_SucI)
  have g: "g < next_chan ?n" if "wl_read ?K = Some g \<or> wl_write ?K = Some g" for g using D(8) [of g] that by auto
  have l: "leader_steady ?K (current_term n) (next_chan ?n) l" if "role n = Leader l" for l
    using leader_steady_chan [OF D(7) [OF that], of "next_chan n + 1"] by (simp add: leader_steady_def)
  show ?thesis
  proof (rule steadyI)
    show "t' \<le> current_term ?n \<and> (t' = current_term ?n \<longrightarrow> sent_by (role ?n) q)" if "(t', q) \<in> wl_sent ?K \<union> appends ?n" for t' q
      using D(5) [of t' q] D(6) [of t' q] that a by auto
    show "leader_steady ?K (current_term ?n) (next_chan ?n) l'" if "role ?n = Leader l'" for l' using l [of l'] that a by simp
    show "role ?n = Follower \<or> fset (fmdom (members ?n)) = wl_members ?K" using D(2) by auto
  qed (fact g p | use D(1,3,4) a quiet_effects(2,3) [OF assms(2)] in simp)+
qed

text \<open>What a proposal does after the waiter is there.\<close>

lemma keeps_proposed:
  assumes "steady K n"
  shows "keeps K (bind_r (maybe_advance_commit now (emit [ReplyPropose reply x] n)) replicate_all)"
  unfolding replicate_all_def
  by (intro keeps_bind keeps_maybe_advance_commit keeps_send_all steady_emit [OF assms]) auto

lemma keeps_accept_proposal:
  assumes "steady K n" and "plain_command cmd"
  shows "keeps K (accept_proposal now cmd reply n)"
proof -
  have cfg: "(case cmd of ConfigChange m \<Rightarrow> f m | _ \<Rightarrow> x) = x" for f and x :: "('a, 'b) raft_node"
    using assms(2) by (auto simp: plain_command_def split: command.splits)
  show ?thesis unfolding accept_proposal_def Let_def cfg
    by (intro keeps_bind [OF keeps_store [OF assms(1)]] keeps_proposed steady_waiter) (auto dest: hard_state_kept)
qed

lemma keeps_watched_proposal:
  assumes "steady K n" and "plain_command cmd" and "\<forall>e \<in> set (effects n). quiet e"
  shows "keeps (K\<lparr>wl_write := Some (next_chan n), wl_entry := (last_index (storage n) + 1, current_term n)\<rparr>)
    (accept_proposal now cmd reply n)"
proof -
  have cfg: "(case cmd of ConfigChange m \<Rightarrow> f m | _ \<Rightarrow> x) = x" for f and x :: "('a, 'b) raft_node"
    using assms(2) by (auto simp: plain_command_def split: command.splits)
  have "keeps (K\<lparr>wl_write := Some (next_chan n), wl_entry := (last_index (storage n) + 1, current_term n)\<rparr>)
      (bind_r (store (append (storage n) es) n) (\<lambda>m. bind_r (maybe_advance_commit now
        (emit [ReplyPropose reply (x m)] (m\<lparr>next_chan := next_chan m + 1, pending := pending m @
          [\<lparr>pp_term = current_term n, pp_index = last_index (storage n) + 1, pp_committed = next_chan m\<rparr>]\<rparr>))) replicate_all))"
    for es x
  proof (cases "append (storage n) es")
    case (Inr st)
    let ?m = "emit [Stored st] (n\<lparr>storage := st\<rparr>)"
    have "steady K ?m" "\<forall>e \<in> set (effects ?m). quiet e" "next_chan ?m = next_chan n"
      using keeps_store [OF assms(1), of "Inr st"] hard_state_kept(1) [OF Inr] assms(3)
      by (simp_all add: store_def keeps_def wp_rules emit_def)
    from keeps_proposed [OF steady_watch_write [OF this(1,2)]] this(3) Inr show ?thesis by (simp add: store_def)
  qed (simp add: store_def keeps_err)
  then show ?thesis unfolding accept_proposal_def Let_def cfg by simp
qed

definition new_read :: "('v, 'sm) raft_node \<Rightarrow> leader_state \<Rightarrow> leader_state" where
  "new_read n l = l\<lparr>heartbeat_seq := heartbeat_seq l + 1, pending_reads := pending_reads l @
     [\<lparr>needed_seq = heartbeat_seq l + 1, read_index = max (commit_index n) (term_start_index l), granted = next_chan n\<rparr>]\<rparr>"

lemma steady_read:
  assumes "steady K n" and "role n = Leader l"
  shows "steady K (n\<lparr>role := Leader (new_read n l), next_chan := next_chan n + 1\<rparr>)" (is "steady K ?n")
proof -
  note D = steadyD [OF assms(1)]
  have a: "appends ?n = appends n" "current_term ?n = current_term n" by (simp_all add: appends_def current_term_def)
  have l: "leader_steady K (current_term n) (next_chan ?n) (new_read n l)"
    using leader_steady_chan [OF D(7) [OF assms(2)], of "next_chan n + 1"] D(8) [of "next_chan n"]
    by (auto simp: leader_steady_def new_read_def le_SucI)
  have s: "sent_by (role ?n) q" if "sent_by (role n) q" for q using that assms(2) by (simp add: sent_by_def new_read_def)
  have p: "pp_committed p < next_chan ?n \<and> (wl_write K = Some (pp_committed p) \<longrightarrow> wl_entry K = (pp_index p, pp_term p))"
    if "p \<in> set (pending ?n)" for p
    using that D(10) [of p] by (auto dest: less_SucI)
  show ?thesis by (rule steady_grow [OF assms(1)]) (use a l p s assms(2) in auto)
qed

lemma steady_watch_read:
  assumes "steady K n" and "role n = Leader l" and "\<forall>e \<in> set (effects n). quiet e"
  shows "steady (K\<lparr>wl_term := current_term n, wl_seq := heartbeat_seq l + 1, wl_fresh := F,
      wl_read := Some (next_chan n), wl_index := max (commit_index n) (term_start_index l)\<rparr>)
    (n\<lparr>role := Leader (new_read n l), next_chan := next_chan n + 1\<rparr>)" (is "steady ?K ?n")
proof -
  note D = steadyD [OF assms(1)]
  have a: "appends ?n = {}" "current_term ?n = current_term n" using quiet_effects(1) [OF assms(3)] by (simp_all add: appends_def current_term_def)
  have g: "g < next_chan ?n" if "wl_read ?K = Some g \<or> wl_write ?K = Some g" for g using D(8) [of g] that by auto
  from D(7) [OF assms(2)] have L: "\<forall>j q. acked_seq l j = Some q \<longrightarrow> q \<le> heartbeat_seq l"
    "\<forall>r \<in> set (pending_reads l). granted r < next_chan n" unfolding leader_steady_def by blast+
  have l: "leader_steady ?K (current_term n) (next_chan ?n) (new_read n l)"
    using L unfolding leader_steady_def new_read_def by fastforce
  have s: "sent_by (role ?n) q" if "sent_by (role n) q" for q using that assms(2) by (simp add: sent_by_def new_read_def)
  have p: "pp_committed p < next_chan ?n \<and> (wl_write ?K = Some (pp_committed p) \<longrightarrow> wl_entry ?K = (pp_index p, pp_term p))"
    if "p \<in> set (pending ?n)" for p
    using that D(10) [of p] by (auto dest: less_SucI)
  show ?thesis
  proof (rule steadyI)
    show "t' \<le> current_term ?n \<and> (t' = current_term ?n \<longrightarrow> sent_by (role ?n) q)" if "(t', q) \<in> wl_sent ?K \<union> appends ?n" for t' q
      using D(5) [of t' q] D(6) [of t' q] s [of q] that a by auto
    show "leader_steady ?K (current_term ?n) (next_chan ?n) l'" if "role ?n = Leader l'" for l' using l that a by simp
    show "role ?n = Follower \<or> fset (fmdom (members ?n)) = wl_members ?K" using D(2) assms(2) by auto
  qed (fact g p | use D(1,3,4) a quiet_effects(2,3) [OF assms(3)] in simp)+
qed

lemma handle_read_eq:
  assumes "role n = Leader l"
  shows "handle_read reply n = bind_r (seq_r send_append (peer_ids n) (emit [ReplyRead reply (Inr (next_chan n))]
      (n\<lparr>role := Leader (new_read n l), next_chan := next_chan n + 1\<rparr>))) (\<lambda>n. Inr (resolve_reads n))"
  using assms by (simp add: handle_read_def new_read_def Let_def peer_ids_def emit_def)

lemma keeps_read_registered:
  assumes "steady K (n\<lparr>role := Leader (new_read n l), next_chan := next_chan n + 1\<rparr>)" and "role n = Leader l"
  shows "keeps K (handle_read reply n)"
  unfolding handle_read_eq [OF assms(2)]
  by (intro keeps_bind keeps_send_all keeps_ret steady_resolve_reads steady_emit [OF assms(1)]) auto

lemma keeps_handle_read:
  assumes "steady K n"
  shows "keeps K (handle_read reply n)"
proof (cases "\<exists>l. role n = Leader l")
  case True
  then show ?thesis using keeps_read_registered [OF steady_read [OF assms]] by blast
next
  case False
  then have "handle_read reply n = Inr (emit [ReplyRead reply (Inl (NotLeader (leader_id n)))] n)"
    by (auto simp: handle_read_def split: role.splits)
  moreover have "steady K (emit [ReplyRead reply (Inl (NotLeader (leader_id n)))] n)"
    by (rule steady_emit [OF assms]) auto
  ultimately show ?thesis by (simp add: keeps_ret)
qed

subsection \<open>Inbound requests\<close>

text \<open>A handler that also answers: the answer satisfies \<open>P\<close>.\<close>

definition serves :: "watchlist \<Rightarrow> ('a \<Rightarrow> bool) \<Rightarrow> 'e + ('v, 'sm) raft_node \<times> 'a \<Rightarrow> bool" where
  "serves K P m \<longleftrightarrow> wp UNIV m (\<lambda>(n, a). steady K n \<and> P a)"

lemma serves_ret: "steady K n \<Longrightarrow> P a \<Longrightarrow> serves K P (Inr (n, a))"
  by (simp add: serves_def wp_rules)

lemma serves_bind: "keeps K m \<Longrightarrow> (\<And>n. steady K n \<Longrightarrow> serves K P (f n)) \<Longrightarrow> serves K P (bind_r m f)"
  unfolding keeps_def serves_def wp_bind by (erule wp_mono)

lemma steady_vote:
  assumes "steady K n" and "current_term n = t"
  shows "steady K (emit [Stored st] (n\<lparr>storage := (storage n)\<lparr>hard_state := \<lparr>hs_current_term = t, voted_for = v\<rparr>\<rparr>\<rparr>))"
  by (intro steady_stored steady_view [OF _ assms(1)]) (use assms(2) in \<open>simp add: sview_def current_term_def\<close>)

lemma serves_request_vote: "steady K n \<Longrightarrow> serves K (\<lambda>_. True) (handle_request_vote now a n)"
  unfolding handle_request_vote_def Let_def
  by (auto simp: store_def save_hard_state_def
      intro!: serves_bind serves_ret keeps_ret keeps_timer keeps_become_follower steady_vote)

lemma steady_contact: "steady K n \<Longrightarrow> steady K (n\<lparr>last_leader_contact := x\<rparr>)"
  by (rule steady_view) (simp_all add: sview_def current_term_def)

text \<open>Adopting another membership as a follower.\<close>

lemma steady_adopt:
  assumes "steady K n" and "role n = Follower"
  shows "steady K (adopt_membership now m i n)" and "role (adopt_membership now m i n) = Follower"
proof -
  let ?n = "n\<lparr>role := Follower, members := m, members_index := i\<rparr>"
  have "steady K ?n" by (rule steady_move [OF assms(1)])
      (use steadyD(3,5,6) [OF assms(1)] assms(2) in \<open>auto simp: current_term_def sent_by_def\<close>)
  then have "steady K (publish_membership ?n)" by (rule steady_publish)
  with assms(2) show "steady K (adopt_membership now m i n)" "role (adopt_membership now m i n) = Follower"
    by (simp_all add: adopt_membership_def)
qed

lemma timer_role: "reset_election_timer now n = Inr n' \<Longrightarrow> role n' = role n"
  by (auto simp: reset_election_timer_def Let_def split: if_splits option.splits)

lemma follower_become: "become_follower now t lid n = Inr n' \<Longrightarrow> role n' = Follower"
  unfolding become_follower_def Let_def by (auto simp: bind_r_Inr_iff dest!: timer_role split: if_splits)

definition follows :: "watchlist \<Rightarrow> ('v, 'sm) raft_node \<Rightarrow> bool" where
  "follows K n \<longleftrightarrow> steady K n \<and> role n = Follower"

lemma wp_become_follower: "steady K n \<Longrightarrow> wp UNIV (become_follower now t lid n) (follows K)"
  using keeps_become_follower [of K n now t lid] follower_become [of now t lid n]
  by (auto simp: keeps_def follows_def wp_UNIV_iff)

lemma serves_demoted:
  assumes "steady K n" and "\<And>m. follows K m \<Longrightarrow> serves K P (f m)"
  shows "serves K P (bind_r (become_follower now t lid n) f)"
  using wp_mono [OF wp_become_follower [OF assms(1)] assms(2) [unfolded serves_def]] unfolding serves_def wp_bind .

lemma follows_contact: "follows K n \<Longrightarrow> follows K (n\<lparr>last_leader_contact := x\<rparr>)"
  using steady_contact by (auto simp: follows_def)

lemma wp_store_follows:
  assumes "follows K n" and "\<And>st. m = Inr st \<Longrightarrow> hard_state st = hard_state (storage n)"
  shows "wp UNIV (store m n) (follows K)"
proof -
  have "keeps K (store m n)" using assms(1) by (intro keeps_store [OF _ assms(2)]) (auto simp: follows_def)
  moreover have "role n' = Follower" if "store m n = Inr n'" for n'
    using that assms(1) by (auto simp: store_def bind_r_Inr_iff follows_def)
  ultimately show ?thesis by (auto simp: keeps_def follows_def wp_UNIV_iff)
qed

lemma follows_adopt: "follows K n \<Longrightarrow> follows K (adopt_membership now m i n)"
  using steady_adopt unfolding follows_def by blast

lemma follows_resolve_pending: "follows K n \<Longrightarrow> follows K (resolve_pending n)"
  using steady_resolve_pending by (auto simp: follows_def)

lemma wp_truncate_conflict: "follows K n \<Longrightarrow> wp UNIV (truncate_conflict now i n) (follows K)"
  unfolding truncate_conflict_def Let_def rescan_membership_def
  by (auto simp: wp_rules split: prod.splits intro!: wp_mono [OF wp_store_follows] follows_resolve_pending follows_adopt
      dest: hard_state_kept)

lemma wp_reconcile: "follows K n \<Longrightarrow> wp UNIV (reconcile now a n) (\<lambda>(from, n). follows K n)"
  unfolding reconcile_def
  by (auto simp: wp_rules split: walk.splits intro!: wp_mono [OF wp_truncate_conflict])

lemma wp_append_rest: "follows K n \<Longrightarrow> wp UNIV (append_rest now a i n) (follows K)"
  unfolding append_rest_def Let_def
  by (auto simp: wp_rules split: option.splits prod.splits intro!: wp_mono [OF wp_store_follows] follows_adopt
      dest: hard_state_kept)

lemma keeps_advance_commit_to: "steady K n \<Longrightarrow> keeps K (advance_commit_to c n)"
  unfolding advance_commit_to_def by (auto intro: keeps_ret keeps_commit)

text \<open>The answer to a batch carries a term the node has reached.\<close>

lemma serves_append_entries:
  assumes "steady K n"
  shows "serves K (\<lambda>r. wl_floor K \<le> aer_term r) (handle_append_entries now a n)"
proof -
  have body: "serves K (\<lambda>r. wl_floor K \<le> aer_term r)
      (bind_r (reconcile now a n) (\<lambda>(from, n). bind_r (case from of None \<Rightarrow> Inr n | Some i \<Rightarrow> append_rest now a i n)
        (\<lambda>n. bind_r (advance_commit_to c n) (\<lambda>n. Inr (n, \<lparr>aer_term = t, success = True\<rparr>)))))"
    if "follows K n" "wl_floor K \<le> t" for n :: "('a, 'b) raft_node" and c t
  proof -
    have k: "wp UNIV (advance_commit_to c n) (\<lambda>n. steady K n \<and> wl_floor K \<le> t)" if "follows K n" for n :: "('a, 'b) raft_node"
      using that \<open>wl_floor K \<le> t\<close> keeps_advance_commit_to [of K n c] by (auto simp: follows_def keeps_def wp_UNIV_iff)
    show ?thesis unfolding serves_def wp_bind
      by (rule wp_mono [OF wp_reconcile [OF that(1)]])
        (auto simp: wp_rules split: option.splits intro!: k wp_mono [OF wp_append_rest])
  qed
  show ?thesis
  proof (cases "ae_term a < current_term n")
    case True
    then show ?thesis using assms steadyD(3) [OF assms] by (simp add: handle_append_entries_def serves_ret)
  next
    case False
    show ?thesis unfolding handle_append_entries_def if_not_P [OF False]
    proof (rule serves_demoted [OF assms])
      fix m :: "('a, 'b) raft_node"
      assume "follows K m"
      then have n: "follows K (m\<lparr>last_leader_contact := Some now\<rparr>)" by (rule follows_contact)
      then have "steady K (m\<lparr>last_leader_contact := Some now\<rparr>)" by (simp add: follows_def)
      note n this steadyD(3) [OF this]
      then show "serves K (\<lambda>r. wl_floor K \<le> aer_term r)
        (let n = m\<lparr>last_leader_contact := Some now\<rparr>; t = current_term n
         in if \<not> prev_matches (storage n) a then Inr (n, \<lparr>aer_term = t, success = False\<rparr>)
            else bind_r (reconcile now a n)
              (\<lambda>(from, n). bind_r (case from of None \<Rightarrow> Inr n | Some i \<Rightarrow> append_rest now a i n)
                 (\<lambda>n. bind_r (advance_commit_to (min (leader_commit a) (prev_log_index a + length (entries a))) n)
                    (\<lambda>n. Inr (n, \<lparr>aer_term = t, success = True\<rparr>)))))"
        unfolding Let_def by (simp add: serves_ret body)
    qed
  qed
qed

lemma steady_drop:
  assumes "steady K n"
  shows "steady K (emit (map (\<lambda>p. Closed (pp_committed p)) ps) (n\<lparr>pending := filter f (pending n)\<rparr>))"
proof (rule steady_emit)
  have "appends (n\<lparr>pending := filter f (pending n)\<rparr>) = appends n"
    "current_term (n\<lparr>pending := filter f (pending n)\<rparr>) = current_term n"
    by (simp_all add: appends_def current_term_def)
  then show "steady K (n\<lparr>pending := filter f (pending n)\<rparr>)" using assms unfolding steady_def by simp
qed auto

lemma serves_install_snapshot:
  assumes "steady K n"
  shows "serves K (\<lambda>_. True) (handle_install_snapshot now a n)"
proof -
  have r: "steady K (resolve_pending (emit (map (\<lambda>p. Closed (pp_committed p)) ps)
      (rescan_membership now (m\<lparr>state_machine := d, commit_index := b, last_applied := b\<rparr>)
        \<lparr>pending := filter f (pending (rescan_membership now (m\<lparr>state_machine := d, commit_index := b, last_applied := b\<rparr>)))\<rparr>)))"
    if "follows K m" "commit_index m \<le> b" for m :: "('a, 'b) raft_node" and b d f ps
  proof -
    let ?m = "m\<lparr>state_machine := d, commit_index := b, last_applied := b\<rparr>"
    have m: "steady K m" "role m = Follower" using that(1) by (auto simp: follows_def)
    have "steady K (m\<lparr>commit_index := b, last_applied := b\<rparr>)"
      by (rule steady_progress [OF m(1)]) (use steadyD(4) [OF m(1)] that(2) in auto)
    then have "steady K ?m" by (rule steady_view [rotated]) (simp add: sview_def current_term_def)
    then have "steady K (rescan_membership now ?m)" using m(2)
      by (auto simp: rescan_membership_def Let_def split: prod.splits intro!: steady_adopt(1))
    then show ?thesis by (intro steady_resolve_pending steady_drop)
  qed
  have c: "commit_index n' = commit_index m" if "store x m = Inr n'" for x n' and m :: "('a, 'b) raft_node"
    using that by (auto simp: store_def bind_r_Inr_iff)
  have s: "wp UNIV (store (Storage.install_snapshot (storage m) z) m) (\<lambda>n. follows K n \<and> commit_index n = commit_index m)"
    if "follows K m" for m :: "('a, 'b) raft_node" and z
  proof -
    have "wp UNIV (store (Storage.install_snapshot (storage m) z) m) (follows K)"
      by (rule wp_store_follows [OF that]) (rule hard_state_kept(4))
    then show ?thesis using c [of _ m] unfolding wp_UNIV_iff by blast
  qed
  have b: "serves K (\<lambda>_. True) (bind_r (store (Storage.install_snapshot (storage m) z) m)
      (\<lambda>n. case sm_restore_fn (state_machine n) (sm_data (state_machine n)) (state z) of
         None \<Rightarrow> Inl MalformedSnapshot
       | Some d \<Rightarrow>
           let n = n\<lparr>state_machine := (state_machine n)\<lparr>sm_data := d\<rparr>, commit_index := k, last_applied := k\<rparr>;
               n = rescan_membership now n;
               dropped = filter (\<lambda>p. \<not> pp_index p > k) (pending n);
               n = emit (map (\<lambda>p. Closed (pp_committed p)) dropped)
                     (n\<lparr>pending := filter (\<lambda>p. pp_index p > k) (pending n)\<rparr>)
           in Inr (resolve_pending n, \<lparr>isr_term = t\<rparr>)))"
    if "follows K m" "\<not> k \<le> commit_index m" for m :: "('a, 'b) raft_node" and z k t
    unfolding serves_def wp_bind Let_def
    by (rule wp_mono [OF s [OF that(1)]]) (use that(2) in \<open>auto simp: wp_rules split: option.splits intro!: r\<close>)
  show ?thesis
  proof (cases "is_term a < current_term n")
    case True
    then show ?thesis using assms by (simp add: handle_install_snapshot_def serves_ret)
  next
    case False
    have g: "serves K (\<lambda>_. True) (if k \<le> commit_index m then Inr (m, x) else y)"
      if "follows K m" "\<not> k \<le> commit_index m \<Longrightarrow> serves K (\<lambda>_. True) y" for m :: "('a, 'b) raft_node" and k x y
      using that by (simp add: serves_ret follows_def)
    show ?thesis unfolding handle_install_snapshot_def if_not_P [OF False]
      by (rule serves_demoted [OF assms], unfold Let_def, rule g, erule follows_contact, rule b [unfolded Let_def], erule follows_contact)
  qed
qed

lemma serves_map: "serves K P m \<Longrightarrow> (\<And>a. P a \<Longrightarrow> Q (f a)) \<Longrightarrow> serves K Q (bind_r m (\<lambda>(n, a). Inr (n, f a)))"
  unfolding serves_def wp_bind by (erule wp_mono) (auto simp: wp_rules)

definition reply_ok :: "watchlist \<Rightarrow> rpc_response \<Rightarrow> bool" where
  "reply_ok K a = (case a of AppendEntriesR r \<Rightarrow> wl_floor K \<le> aer_term r | _ \<Rightarrow> True)"

lemma serves_inbound: "steady K n \<Longrightarrow> serves K (reply_ok K) (handle_inbound now req n)"
  by (cases req) (auto simp: handle_inbound_def handle_pre_vote_def reply_ok_def
      intro: serves_ret serves_map [OF serves_request_vote] serves_map [OF serves_append_entries]
        serves_map [OF serves_install_snapshot])

subsection \<open>Replies\<close>

text \<open>A reply to a batch is about a round this node sent, and a peer that answers the watched round in the watched
  term is one of those that may.\<close>

definition ack_ok :: "watchlist \<Rightarrow> term_no \<Rightarrow> node_id \<Rightarrow> nat \<Rightarrow> term_no \<Rightarrow> bool" where
  "ack_ok K t j q u \<longleftrightarrow> (t, q) \<in> wl_sent K \<and>
     (t = wl_term K \<longrightarrow> wl_seq K \<le> q \<longrightarrow> u \<le> t \<longrightarrow> j \<in> wl_fresh K)"

definition acks_ok :: "watchlist \<Rightarrow> event \<Rightarrow> bool" where
  "acks_ok K ev = (case ev of
     AppendReply t j p k q (Inr (AppendEntriesR r)) \<Rightarrow> ack_ok K t j q (aer_term r) | _ \<Rightarrow> True)"

lemma keeps_on_pre_vote_reply:
  assumes "steady K n"
  shows "keeps K (on_pre_vote_reply now t j r n)"
proof -
  have "steady K (n\<lparr>role := PreCandidate (insert j vs)\<rparr>)" if "role n = PreCandidate vs" for vs
    by (rule steady_calm [OF assms]) (use steadyD(2) [OF assms] that in simp)
  then show ?thesis using assms unfolding on_pre_vote_reply_def
    by (auto split: role.splits intro!: keeps_ret keeps_become_follower keeps_maybe_start_election)
qed

lemma keeps_on_vote_reply:
  assumes "steady K n"
  shows "keeps K (on_vote_reply now t j r n)"
proof -
  have "steady K (n\<lparr>role := Candidate vs'\<rparr>)" if "role n = Candidate vs" for vs vs'
    by (rule steady_move [OF assms])
      (use steadyD(2,3,5) [OF assms] steadyD(6) [OF assms _ refl] that in \<open>auto simp: current_term_def sent_by_def\<close>)
  then show ?thesis using assms unfolding on_vote_reply_def
    by (auto split: role.splits intro!: keeps_ret keeps_become_follower keeps_maybe_become_leader)
qed

lemma leader_steady_ack:
  assumes "leader_steady K t c l" and "ack_ok K t j q u" and "u \<le> t" and "q \<le> heartbeat_seq l"
  shows "leader_steady K t c (note_ack now j q l)"
  using assms unfolding leader_steady_def ack_ok_def note_ack_def entry_or_def
  by (auto simp: max_def split: option.splits)

lemma append_success_view:
  "on_append_success j k i l = (l', b, d) \<Longrightarrow>
    acked_seq l' = acked_seq l \<and> heartbeat_seq l' = heartbeat_seq l \<and> pending_reads l' = pending_reads l"
  by (auto simp: on_append_success_def Let_def split: if_splits)

lemma keeps_on_append_reply:
  assumes "steady K n" and "ack_ok K t j q (aer_term r)"
  shows "keeps K (on_append_reply now t j p k q r n)"
proof (cases "aer_term r > current_term n \<or> t \<noteq> current_term n \<or> \<not> (\<exists>l. role n = Leader l)")
  case True
  then show ?thesis using assms(1)
    by (auto simp: on_append_reply_def split: role.splits intro!: keeps_ret keeps_become_follower)
next
  case False
  then obtain l where l: "role n = Leader l" and t: "t = current_term n" and u: "aer_term r \<le> t" by auto
  from assms(2) have "(t, q) \<in> wl_sent K \<union> appends n" by (simp add: ack_ok_def)
  from steadyD(6) [OF assms(1) this t] l have q: "q \<le> heartbeat_seq l" by (simp add: sent_by_def)
  let ?a = "note_ack now j q l"
  have a: "leader_steady K t (next_chan n) ?a"
    by (rule leader_steady_ack [OF _ assms(2) u q]) (use steadyD(7) [OF assms(1) l] t in simp)
  have m: "steady K (n\<lparr>role := Leader l'\<rparr>)"
    if "acked_seq l' = acked_seq ?a" "heartbeat_seq l' = heartbeat_seq ?a" "pending_reads l' = pending_reads ?a" for l'
  proof (rule steady_leader [OF assms(1) l])
    show "heartbeat_seq l \<le> heartbeat_seq l'" using that(2) by (simp add: note_ack_def)
    show "leader_steady K (current_term n) (next_chan n) l'"
      by (rule leader_steady_mono) (use a t that in auto)
  qed
  have rest: "keeps K (bind_r (if success r then maybe_advance_commit now n' else Inr n')
      (\<lambda>n. bind_r (if b then send_append j n else Inr n) (\<lambda>n. Inr (resolve_reads n))))"
    if "steady K n'" for n' :: "('a, 'b) raft_node" and b
    using that by (auto intro!: keeps_bind keeps_ret keeps_send_append keeps_maybe_advance_commit steady_resolve_reads)
  obtain l' b d where s: "on_append_success j (p + k) (last_index (storage n)) ?a = (l', b, d)" by (metis prod_cases3)
  have n': "steady K (n\<lparr>role := Leader l'\<rparr>)" "steady K (n\<lparr>role := Leader (on_append_rejected j p ?a)\<rparr>)"
    using append_success_view [OF s] by (auto intro!: m simp: on_append_rejected_def)
  show ?thesis
  proof (cases "success r")
    case True
    then show ?thesis using rest [of "if d then publish_membership (n\<lparr>role := Leader l'\<rparr>) else n\<lparr>role := Leader l'\<rparr>" b] n'(1)
        steady_publish [OF n'(1)] l t u s by (auto simp: on_append_reply_def Let_def)
  next
    case False
    then show ?thesis using rest [OF n'(2), of True] l t u by (auto simp: on_append_reply_def Let_def)
  qed
qed

lemma keeps_on_install_snapshot_reply:
  assumes "steady K n"
  shows "keeps K (on_install_snapshot_reply now t j b r n)"
proof (cases "isr_term r > current_term n \<or> t \<noteq> current_term n \<or> \<not> (\<exists>l. role n = Leader l)")
  case True
  then show ?thesis using assms
    by (auto simp: on_install_snapshot_reply_def split: role.splits intro!: keeps_ret keeps_become_follower)
next
  case False
  then obtain l where l: "role n = Leader l" by auto
  have m: "steady K (n\<lparr>role := Leader l'\<rparr>)"
    if "acked_seq l' = acked_seq l" "heartbeat_seq l' = heartbeat_seq l" "pending_reads l' = pending_reads l" for l'
    by (rule steady_leader [OF assms l _ leader_steady_mono [OF steadyD(7) [OF assms l]]]) (use that in auto)
  show ?thesis using False l assms unfolding on_install_snapshot_reply_def Let_def
    by (auto intro!: keeps_bind keeps_ret keeps_send_append keeps_maybe_advance_commit steady_publish m)
qed

lemma keeps_handle_event: "steady K n \<Longrightarrow> acks_ok K ev \<Longrightarrow> keeps K (handle_event now ev n)"
  unfolding handle_event_def acks_ok_def
  by (auto split: event.splits sum.splits rpc_response.splits
      intro!: keeps_ret keeps_on_pre_vote_reply keeps_on_vote_reply keeps_on_append_reply keeps_on_install_snapshot_reply)

subsection \<open>A turn\<close>

lemma keeps_handle_propose:
  assumes "steady K n" and "plain_command cmd"
  shows "keeps K (handle_propose now cmd reply n)"
proof -
  have "handle_propose now cmd reply n = (if \<not> is_leader n then Inr (emit [ReplyPropose reply (Inl (NotLeader (leader_id n)))] n)
      else accept_proposal now cmd reply n)"
    using assms(2) by (auto simp: handle_propose_def plain_command_def split: command.splits)
  then show ?thesis using assms by (auto intro!: keeps_ret keeps_accept_proposal steady_emit)
qed

text \<open>Turns that keep the watch: any but a proposal of a membership change and a reply that breaks the watch.\<close>

definition turn_steady :: "watchlist \<Rightarrow> 'v turn \<Rightarrow> bool" where
  "turn_steady K t = (case t of Ctl (Propose cmd c) \<Rightarrow> plain_command cmd | Ev e \<Rightarrow> acks_ok K e | _ \<Rightarrow> True)"

lemma take_turn_steady:
  assumes "take_turn now t n = Inr (go, a, n')" and "steady K n" and "fset (fmdom (members n)) = wl_members K" and "turn_steady K t"
  shows "steady K n'" and "a = Some (c, rep) \<Longrightarrow> reply_ok K rep"
proof -
  have k: "steady K n'" if "m = Inr n'" "keeps K m" for m :: "panic + ('a, 'b) raft_node"
    using that by (simp add: keeps_def wp_rules)
  have "steady K n' \<and> (\<forall>c rep. a = Some (c, rep) \<longrightarrow> reply_ok K rep)"
  proof (cases t)
    case (Rpc req ch)
    with assms(1) obtain rep where "handle_inbound now req n = Inr (n', rep)" "a = Some (ch, rep)"
      by (auto simp: take_turn_def bind_r_Inr_iff)
    with serves_inbound [OF assms(2), of now req] show ?thesis by (simp add: serves_def wp_rules)
  qed (use assms in \<open>auto simp: take_turn_def bind_r_Inr_iff turn_steady_def split: control.splits
      intro!: k keeps_handle_propose keeps_handle_read keeps_on_election_timeout keeps_on_heartbeat_tick keeps_handle_event\<close>)
  then show "steady K n'" "a = Some (c, rep) \<Longrightarrow> reply_ok K rep" by auto
qed

end
