(* ===== verification/Cluster.thy ===== *)
theory Cluster
  imports Turn_Refine
begin

section \<open>A cluster of nodes\<close>

text \<open>
  The nodes of \<^verbatim>\<open>Node\<close> and \<^verbatim>\<open>Node_Handlers\<close> connected by a network: every request a node ever sent stays on
  the \<open>wire\<close> and every reply in the \<open>mail\<close>, and any of them may be delivered at any later time, repeatedly
  or never. So messages are lost, delayed, duplicated and reordered at will. Timers fire at will, clients
  propose and read at will. A node may crash between two turns, and in the middle of one, after any of its
  effects: it restarts from what the crash left on its disk, and what it had sent by then is out.

  Membership is fixed (\<open>static_config\<close>): no configuration change is proposed. A node whose configuration has
  a snapshot threshold compacts its log and ships its snapshot to peers that are behind; for such a
  configuration the state machine must restore its own snapshots (\<open>lawful\<close>).
\<close>

record ('v, 'sm) cluster =
  nodes :: "node_id \<Rightarrow> ('v, 'sm) raft_node"
  wire :: "(node_id \<times> node_id \<times> 'v rpc_request \<times> rpc_ctx) set"
  mail :: "(node_id \<times> event) set"

text \<open>The effects of the last turn have left the node: the requests among them are put on the wire. The
  effects of the next begin with what is on the disk.\<close>

definition drained :: "('v, 'sm) raft_node \<Rightarrow> ('v, 'sm) raft_node" where
  "drained n = n\<lparr>effects := [Stored (storage n)]\<rparr>"

definition posted :: "node_id \<Rightarrow> ('v, 'sm) raft_node \<Rightarrow> (node_id \<times> node_id \<times> 'v rpc_request \<times> rpc_ctx) set" where
  "posted i n = {(c, p, r, x). c = i \<and> SendRpc p r x \<in> set (effects n)}"

definition turn_enabled :: "('v, 'sm) cluster \<Rightarrow> node_id \<Rightarrow> 'v turn \<Rightarrow> bool" where
  "turn_enabled C i t =
     (case t of
        Ctl (Propose cmd _) \<Rightarrow> plain_command cmd
      | ElectionTimer \<Rightarrow> \<not> is_leader (nodes C i)
      | HeartbeatTimer \<Rightarrow> is_leader (nodes C i)
      | Rpc r _ \<Rightarrow> \<exists>c x. (c, i, r, x) \<in> wire C
      | Ev e \<Rightarrow> (i, e) \<in> mail C
      | _ \<Rightarrow> True)"

text \<open>The steps of the cluster; only nodes in \<open>R\<close> restart. A node that crashes in the middle of a turn starts again from
  \<open>left_whole\<close>: the one outcome of a crash that is not a step is a snapshot over the old log where the two disagree, a
  state that the protocol has no counterpart for.\<close>

inductive cstep_in ::
    "node_id set \<Rightarrow> node_id set \<Rightarrow> ('v, 'sm) state_machine \<Rightarrow> ('v, 'sm) cluster \<Rightarrow> ('v, 'sm) cluster \<Rightarrow> bool"
  for R :: "node_id set" and M :: "node_id set" and sm :: "('v, 'sm) state_machine" and C :: "('v, 'sm) cluster" where
  c_turn: "i \<in> M \<Longrightarrow> turn_enabled C i t \<Longrightarrow>
    take_turn now t (drained (nodes C i)) = Inr (go, None, n) \<Longrightarrow>
    cstep_in R M sm C (C\<lparr>nodes := (nodes C)(i := n), wire := wire C \<union> posted i n\<rparr>)"
| c_rpc: "i \<in> M \<Longrightarrow> (c, i, r, x) \<in> wire C \<Longrightarrow>
    take_turn now (Rpc r ch) (drained (nodes C i)) = Inr (go, Some (ch, a), n) \<Longrightarrow>
    cstep_in R M sm C (C\<lparr>nodes := (nodes C)(i := n), wire := wire C \<union> posted i n,
      mail := insert (c, event_of x i (Inr a)) (mail C)\<rparr>)"
| c_lost: "(c, j, r, x) \<in> wire C \<Longrightarrow>
    cstep_in R M sm C (C\<lparr>mail := insert (c, event_of x j (Inl err)) (mail C)\<rparr>)"
| c_restart: "i \<in> M \<Longrightarrow> i \<in> R \<Longrightarrow> spawn now (config (nodes C i)) (storage (nodes C i)) sm = Inr n \<Longrightarrow>
    cstep_in R M sm C (C\<lparr>nodes := (nodes C)(i := n)\<rparr>)"
| c_crash: "i \<in> M \<Longrightarrow> i \<in> R \<Longrightarrow> turn_enabled C i t \<Longrightarrow>
    take_turn now t (drained (nodes C i)) = Inr (go, rep, n) \<Longrightarrow>
    effects n = fx @ gx \<Longrightarrow> left_whole fx gx d \<Longrightarrow> spawn now' (config n) d sm = Inr n' \<Longrightarrow>
    cstep_in R M sm C (C\<lparr>nodes := (nodes C)(i := n'\<lparr>effects := fx\<rparr>),
      wire := wire C \<union> posted i (n'\<lparr>effects := fx\<rparr>)\<rparr>)"

abbreviation cstep ::
    "node_id set \<Rightarrow> ('v, 'sm) state_machine \<Rightarrow> ('v, 'sm) cluster \<Rightarrow> ('v, 'sm) cluster \<Rightarrow> bool" where
  "cstep \<equiv> cstep_in UNIV"

text \<open>A cluster starts with empty data directories.\<close>

inductive reachable ::
    "node_id set \<Rightarrow> ('v, 'sm) state_machine \<Rightarrow> ('v, 'sm) cluster \<Rightarrow> bool"
  for M :: "node_id set" and sm :: "('v, 'sm) state_machine" where
  r_init: "finite M \<Longrightarrow>
    \<forall>i \<in> M. \<exists>now c. static_config M i c \<and> (snapshot_threshold c \<noteq> None \<longrightarrow> lawful sm) \<and>
      spawn now c empty_storage sm = Inr (nodes C i) \<Longrightarrow>
    wire C = {} \<Longrightarrow> mail C = {} \<Longrightarrow> reachable M sm C"
| r_step: "reachable M sm C \<Longrightarrow> cstep M sm C C' \<Longrightarrow> reachable M sm C'"

subsection \<open>The simulation\<close>

definition related :: "node_id set \<Rightarrow> ('v, 'sm) state_machine \<Rightarrow> ('v, 'sm) cluster \<Rightarrow> 'v world \<Rightarrow> bool" where
  "related M sm C w \<longleftrightarrow>
     finite M \<and> inv (is_majority M) w \<and> (wstep (is_majority M))\<^sup>*\<^sup>* winit w \<and>
     (\<forall>i \<in> M. procs w i = absp (lg_of w i) (nodes C i) \<and> node_ok M sm i (lg_of w i) (nodes C i) \<and>
        net_ok sm (net w) i (lg_of w i) (nodes C i)) \<and>
     (\<forall>c j r x. (c, j, r, x) \<in> wire C \<longrightarrow> req_ok sm (net w) c r x) \<and>
     (\<forall>c e. (c, e) \<in> mail C \<longrightarrow> event_ok (net w) c e)"

lemma handle_inbound_ok:
  assumes r: "runs M sm w i L n s" and q: "req_ok sm s c rq x"
  shows "wp {} (handle_inbound now rq n) (\<lambda>(n', a). \<exists>L' s'. runs M sm w i L' n' s' \<and> msgs s \<subseteq> msgs s' \<and>
    event_ok s' c (event_of x i (Inr a)))"
proof (cases "(sm, s, c, rq, x)" rule: req_ok.cases)
  case (1 sm' s' c' a t)
  with q have "req_ok sm s c (RequestVote a) (VoteCtx t)" by (metis prod.inject)
  from handle_request_vote_ok [OF r this, of now] 1 show ?thesis
    by (fastforce simp: handle_inbound_def wp_rules elim!: wp_mono)
next
  case (2 sm' s' c' a t)
  then show ?thesis using r by (auto simp: handle_inbound_def handle_pre_vote_def wp_rules)
next
  case (3 sm' s' c' a t p k qs)
  with q have "req_ok sm s c (AppendEntries a) (AppendCtx t p k qs)" by (metis prod.inject)
  from handle_append_entries_ok [OF r this, of now] 3 show ?thesis
    by (fastforce simp: handle_inbound_def wp_rules elim!: wp_mono)
next
  case (4 sm' s' c' a t b)
  with q have "req_ok sm s c (InstallSnapshot a) (InstallCtx t b)" by (metis prod.inject)
  from handle_install_snapshot_ok [OF r this, of now] 4 show ?thesis
    by (fastforce simp: handle_inbound_def wp_rules elim!: wp_mono)
qed (use q in auto)

lemma runs_start:
  assumes "related M sm C w" and "i \<in> M"
  shows "runs M sm w i (lg_of w i) (drained (nodes C i)) (net w)"
proof -
  let ?L = "lg_of w i"
  from assms have n: "procs w i = absp ?L (nodes C i)" "node_ok M sm i ?L (nodes C i)"
    "net_ok sm (net w) i ?L (nodes C i)" by (simp_all add: related_def)
  have t: "trace (drained (nodes C i)) = [Stored (storage (nodes C i))]" "storage (drained (nodes C i)) = storage (nodes C i)"
    by (simp_all add: trace_def drained_def)
  have a: "absp ?L (drained (nodes C i)) = procs w i"
    using n(1) by (simp add: absp_def drained_def current_term_def)
  have "put w i (absp ?L (drained (nodes C i))) (net w) = w" unfolding a by (cases w) (simp add: put_def)
  moreover have "node_ok M sm i ?L (drained (nodes C i))"
    using n(2) by (simp add: node_ok_def drained_def current_term_def)
  moreover have "net_ok sm (net w) i ?L (drained (nodes C i))"
    using n(3) by (simp add: net_ok_def drained_def current_term_def)
  ultimately have r: "at_run M sm w i ?L (drained (nodes C i)) (net w)"
    using assms by (simp add: at_run_def related_def)
  have one: "d = storage (nodes C i) \<and> fx = [Stored d]"
    if "[Stored (storage (nodes C i))] = fx @ gx" "left_whole fx gx d" for fx gx d
    using that by (cases fx) (auto simp: left_whole_def)
  have "left_ok M sm w i (config (drained (nodes C i))) fx d"
    if "[Stored (storage (nodes C i))] = fx @ gx" "left_whole fx gx d" for fx gx d
    using one [OF that] left_ok_self [OF r, of fx] t(2) by (simp add: drained_def)
  then have "trail_ok M sm w i (drained (nodes C i))"
    unfolding trail_ok_def t by simp
  with r show ?thesis by (simp add: runs_def)
qed

lemma net_ok_mono:
  assumes "net_ok sm s i L n" and "msgs s \<subseteq> msgs s'"
  shows "net_ok sm s' i L n"
  using assms fx_ok_mono [OF _ assms(2)] unfolding net_ok_def by (meson subsetD)

text \<open>A run of one node's turn, seen from the cluster.\<close>

lemma related_step:
  assumes R: "related M sm C w" and r: "at_run M sm w i L n s" and m: "msgs (net w) \<subseteq> msgs s"
    and C': "nodes C' = (nodes C)(i := n)" "wire C' \<subseteq> wire C \<union> posted i n"
    and e: "\<forall>c e. (c, e) \<in> mail C' \<longrightarrow> (c, e) \<in> mail C \<or> event_ok s c e"
  shows "related M sm C' (put w i (absp L n) s)"
proof -
  let ?w = "put w i (absp L n) s"
  have "\<forall>j \<in> M. procs ?w j = absp (lg_of ?w j) (nodes C' j) \<and> node_ok M sm j (lg_of ?w j) (nodes C' j) \<and>
      net_ok sm s j (lg_of ?w j) (nodes C' j)"
  proof
    fix j assume "j \<in> M"
    show "procs ?w j = absp (lg_of ?w j) (nodes C' j) \<and> node_ok M sm j (lg_of ?w j) (nodes C' j) \<and>
      net_ok sm s j (lg_of ?w j) (nodes C' j)"
    proof (cases "j = i")
      case True
      then show ?thesis using r C'(1) by (simp add: at_run_def)
    next
      case False
      from R \<open>j \<in> M\<close> have n: "procs w j = absp (lg_of w j) (nodes C j)" "node_ok M sm j (lg_of w j) (nodes C j)"
        "net_ok sm (net w) j (lg_of w j) (nodes C j)" by (simp_all add: related_def)
      from net_ok_mono [OF n(3) m] n False C'(1) show ?thesis by simp
    qed
  qed
  moreover have "fx_ok sm s i f" if "f \<in> set (effects n)" for f using that r by (simp add: at_run_def net_ok_def)
  then have "req_ok sm s c rq x" if "(c, j, rq, x) \<in> wire C'" for c j rq x
    using that C'(2) R req_ok_mono [OF _ m] by (fastforce simp: related_def posted_def)
  moreover have "event_ok s c ev" if "(c, ev) \<in> mail C'" for c ev
    using that e R event_ok_mono [OF _ m, of c ev] unfolding related_def by blast
  moreover have "(wstep (is_majority M))\<^sup>*\<^sup>* winit ?w"
    using R r rtranclp_trans by (fastforce simp: related_def at_run_def)
  ultimately show ?thesis using at_run_inv [OF r] r by (simp add: related_def at_run_def)
qed

text \<open>Every enabled turn of every node succeeds and is a run of the protocol.\<close>

lemma take_turn_ok:
  assumes R: "related M sm C w" and i: "i \<in> M" and t: "turn_enabled C i t" and nr: "\<And>r c. t \<noteq> Rpc r c"
  shows "wp {} (take_turn now t (drained (nodes C i)))
    (\<lambda>(go, rep, n). rep = None \<and> (\<exists>L s. runs M sm w i L n s \<and> msgs (net w) \<subseteq> msgs s))"
proof -
  let ?n = "drained (nodes C i)"
  note r = runs_start [OF R i]
  have lift: "wp {} (bind_r m (\<lambda>n. Inr (True, None, n)))
      (\<lambda>(go, rep, n). rep = None \<and> (\<exists>L s. runs M sm w i L n s \<and> msgs (net w) \<subseteq> msgs s))"
    if "ok_run M sm w i (net w) m P" for m P
    by (rule ok_run_bind [OF that]) (auto simp: wp_rules)
  have il: "is_leader ?n = is_leader (nodes C i)" by (simp add: is_leader_def drained_def)
  have ret: "wp {} (Inr (go, None, ?n))
      (\<lambda>(go, rep, n). rep = None \<and> (\<exists>L s. runs M sm w i L n s \<and> msgs (net w) \<subseteq> msgs s))" for go :: bool
    using r by (auto simp: wp_rules)
  show ?thesis
  proof (cases t)
    case (Ctl c)
    show ?thesis
    proof (cases c)
      case Shutdown
      with Ctl ret show ?thesis by (simp add: take_turn_def)
    next
      case (Propose cmd rc)
      with Ctl t have p: "plain_command cmd" by (simp add: turn_enabled_def)
      from lift [OF handle_propose_ok [OF r p]] Ctl Propose show ?thesis by (simp add: take_turn_def)
    next
      case (Read rc)
      from lift [OF handle_read_ok [OF r]] Ctl Read show ?thesis by (simp add: take_turn_def)
    qed
  next
    case ElectionTimer
    with t il have "\<not> is_leader ?n" by (simp add: turn_enabled_def)
    from lift [OF on_election_timeout_ok [OF r this]] ElectionTimer show ?thesis by (simp add: take_turn_def)
  next
    case HeartbeatTimer
    from lift [OF on_heartbeat_tick_ok [OF r]] HeartbeatTimer show ?thesis by (simp add: take_turn_def)
  next
    case (Ev e)
    then have "event_ok (net w) i e" using t R by (simp add: turn_enabled_def related_def)
    from lift [OF handle_event_ok [OF r this]] Ev show ?thesis by (simp add: take_turn_def)
  qed (use ret nr in \<open>simp_all add: take_turn_def\<close>)
qed

lemma take_rpc_ok:
  assumes R: "related M sm C w" and i: "i \<in> M" and q: "(c, i, r, x) \<in> wire C"
  shows "wp {} (take_turn now (Rpc r ch) (drained (nodes C i)))
    (\<lambda>(go, rep, n). \<exists>a. rep = Some (ch, a) \<and> (\<exists>L s. runs M sm w i L n s \<and> msgs (net w) \<subseteq> msgs s \<and>
       event_ok s c (event_of x i (Inr a))))"
proof -
  from R q have "req_ok sm (net w) c r x" by (auto simp: related_def)
  from handle_inbound_ok [OF runs_start [OF R i] this, of now] show ?thesis
    by (fastforce simp: take_turn_def wp_rules elim!: wp_mono)
qed

lemma turn_runs:
  assumes R: "related M sm C w" and i: "i \<in> M" and t: "turn_enabled C i t"
    and n: "take_turn now t (drained (nodes C i)) = Inr (go, rep, n)"
  shows "\<exists>L s. runs M sm w i L n s"
proof (cases "\<exists>r ch. t = Rpc r ch")
  case True
  then obtain r ch where r: "t = Rpc r ch" by blast
  with t obtain c x where "(c, i, r, x) \<in> wire C" by (auto simp: turn_enabled_def)
  from take_rpc_ok [OF R i this, of now ch] n r show ?thesis by (auto simp: wp_rules)
next
  case False
  with take_turn_ok [OF R i t, of now] n show ?thesis by (auto simp: wp_rules)
qed

text \<open>Starting and restarting.\<close>

lemma spawn_eq:
  assumes c: "static_config M i c" and st: "plain (log st)"
    "\<And>z. snapshot st = Some z \<Longrightarrow> membership z = None \<and> restores sm (state z) es" "snapshot st = None \<Longrightarrow> es = []"
  shows "\<exists>n. spawn now c st sm = Inr n \<and> config n = c \<and> storage n = st \<and> state_machine n = replay sm es \<and>
    role n = Follower \<and> commit_index n = snapshot_index st \<and> last_applied n = snapshot_index st \<and>
    fset (fmdom (members n)) = M \<and> members_index n = 0 \<and> staged_snapshot n = None \<and> effects n = []"
proof -
  have d: "derive_membership st c = (bootstrap_membership c, 0)" "fset (fmdom (bootstrap_membership c)) = M"
    using derive_bootstrap [OF c st(1)] st(2) by blast+
  define n where "n = \<lparr>config = c, storage = st, state_machine = replay sm es, role = Follower, leader_id = None,
       commit_index = snapshot_index st, last_applied = snapshot_index st, pending = [],
       staged_snapshot = None, members = bootstrap_membership c, members_index = 0,
       membership_tx = \<lparr>watch_value = \<lparr>view_members = bootstrap_membership c, view_departing = fmempty\<rparr>,
                        watch_version = 0\<rparr>,
       last_leader_contact = None, election_deadline = now, next_heartbeat = now,
       rng = rng_new (timeout_seed c),
       status_tx = \<lparr>watch_value = \<lparr>status_id = cfg_id c,
                      status_term = hs_current_term (hard_state st),
                      status_role = FollowerKind, status_leader_id = None,
                      status_commit_index = snapshot_index st,
                      status_last_log_index = last_index st\<rparr>, watch_version = 0\<rparr>,
       next_chan = 0, effects = []\<rparr>"
  have "(case snapshot st of None \<Rightarrow> Inr sm | Some z \<Rightarrow> (case sm_restore_fn sm (sm_data sm) (state z) of
      None \<Rightarrow> Inl MalformedSnapshot | Some d \<Rightarrow> Inr (sm\<lparr>sm_data := d\<rparr>))) = Inr (replay sm es)"
    using st(2,3) replay_eq [of sm es] by (auto simp: restores_def replay_def split: option.splits)
  then have "spawn now c st sm = reset_election_timer now n"
    using d(1) by (simp add: spawn_def n_def)
  moreover obtain g e where "reset_election_timer now n = Inr (n\<lparr>rng := g, election_deadline := e\<rparr>)"
    using reset_election_timer_ok [of M i n now] c by (auto simp: n_def)
  ultimately show ?thesis using d(2) by (simp add: n_def)
qed

lemma spawn_at:
  assumes a: "at_run M sm w i L n s"
  shows "\<exists>n'. spawn now (config n) (storage n) sm = Inr n' \<and> config n' = config n \<and> storage n' = storage n \<and>
    state_machine n' = replay sm (take (snapshot_index (storage n)) L) \<and> role n' = Follower \<and>
    commit_index n' = snapshot_index (storage n) \<and> last_applied n' = snapshot_index (storage n) \<and>
    fset (fmdom (members n')) = M \<and> members_index n' = 0 \<and> staged_snapshot n' = None \<and> effects n' = []"
proof -
  let ?b = "snapshot_index (storage n)"
  from a have n: "static_config M i (config n)" "holds_log L (storage n)" "plain L"
    "\<And>z. snapshot (storage n) = Some z \<Longrightarrow> snap_ok sm L z" by (simp_all add: at_run_def node_ok_def)
  show ?thesis
  proof (rule spawn_eq [OF n(1)])
    show "plain (log (storage n))" using plain_drop [OF n(3), of ?b] holds_logD(8) [OF n(2)] by simp
    show "membership z = None \<and> restores sm (state z) (take ?b L)" if "snapshot (storage n) = Some z" for z
      using n(4) [OF that] that by (simp add: snap_ok_def snapshot_index_def)
    show "take ?b L = []" if "snapshot (storage n) = None" using that by (simp add: snapshot_index_def)
  qed
qed

lemma restart_at:
  assumes a: "at_run M sm w i L n s" and n: "spawn now (config n) (storage n) sm = Inr n'"
    and fx: "\<forall>e \<in> set fx. fx_ok sm s i e"
  shows "at_run M sm w i L (n'\<lparr>effects := fx\<rparr>) s"
proof -
  let ?b = "snapshot_index (storage n)" and ?n = "n'\<lparr>effects := fx\<rparr>"
  from spawn_at [OF a, of now] n have
    n': "config n' = config n" "storage n' = storage n" "state_machine n' = replay sm (take ?b L)" "role n' = Follower"
    "commit_index n' = ?b" "last_applied n' = ?b" "fset (fmdom (members n')) = M" "members_index n' = 0"
    "staged_snapshot n' = None" by auto
  have ok: "node_ok M sm i L n" using a by (simp add: at_run_def)
  then have "?b \<le> commit_index n" by (simp add: node_ok_def)
  moreover have "absp L ?n = (absp L n)\<lparr>p_role := PFollower, p_commit := ?b\<rparr>"
    using n' by (simp add: absp_def current_term_def)
  ultimately have "pstep (is_majority M) i (absp L n) s (absp L ?n) s" by (simp add: p_restart)
  then have "wstep (is_majority M) (put w i (absp L n) s) (put w i (absp L ?n) s)"
    using wstep.intros [of "is_majority M" i "put w i (absp L n) s" "absp L ?n" s] by (simp add: put_def)
  moreover have "node_ok M sm i L ?n" using n' ok holds_logD(1) [of L "storage n"] by (simp add: node_ok_def)
  moreover have "net_ok sm s i L ?n" using n' fx by (simp add: net_ok_def)
  ultimately show ?thesis using a by (auto simp: at_run_def)
qed

lemma restart_ok:
  assumes R: "related M sm C w" and i: "i \<in> M"
    and n: "spawn now (config (nodes C i)) (storage (nodes C i)) sm = Inr n"
  shows "at_run M sm w i (lg_of w i) n (net w)"
proof -
  have d: "storage (drained (nodes C i)) = storage (nodes C i)" "config (drained (nodes C i)) = config (nodes C i)"
    by (simp_all add: drained_def)
  from runs_start [OF R i] have a: "at_run M sm w i (lg_of w i) (drained (nodes C i)) (net w)" by (simp add: runs_def)
  from spawn_at [OF a, of now] n have "effects n = []" by (simp add: d)
  then have "n\<lparr>effects := []\<rparr> = n" by simp
  with restart_at [OF a n [folded d], of "[]"] show ?thesis by simp
qed

text \<open>Whatever a crash in the middle of a turn left is a disk to start from.\<close>

lemma last_stored_filter: "last_stored d (filter relevant fx) = last_stored d fx"
  by (induction d fx rule: last_stored.induct) auto

lemma left_whole_filter: "left_whole fx gx d \<Longrightarrow> left_whole (filter relevant fx) (filter relevant gx) d"
  by (auto simp: left_whole_def last_stored_filter split: option.splits list.splits effect.splits)

lemma crash_left:
  assumes r: "runs M sm w i L n s" and e: "effects n = fx @ gx" and l: "left_whole fx gx d"
  obtains L' n' s' where "at_run M sm w i L' n' s'" and "storage n' = d" and "config n' = config n"
    and "\<forall>e \<in> set fx. fx_ok sm s' i e" and "msgs (net w) \<subseteq> msgs s'"
proof -
  have "trace n = filter relevant fx @ filter relevant gx" using e by (simp add: trace_def)
  with r left_whole_filter [OF l] have "left_ok M sm w i (config n) (filter relevant fx) d"
    unfolding runs_def trail_ok_def by blast
  then obtain L' n' s' where a: "at_run M sm w i L' n' s'" "storage n' = d" "config n' = config n"
    "\<forall>e \<in> set (filter relevant fx). fx_ok sm s' i e" by (auto simp: left_ok_def)
  from a(4) have "\<forall>e \<in> set fx. fx_ok sm s' i e" using fx_ok_irrelevant by fastforce
  moreover from a(1) have "msgs (net w) \<subseteq> msgs s'"
    using raft_quorums.steps_msgs [OF majority_locale, of M w "put w i (absp L' n') s'"] by (auto simp: at_run_def)
  ultimately show ?thesis using that a by blast
qed

text \<open>So is a snapshot over the old log, although no run of the protocol led there.\<close>

lemma spawn_unrewritten:
  assumes a: "at_run M sm w i L n s" and b: "at_run M sm w i L' n' s'" and z: "snapshot (storage n') = Some z"
  shows "\<exists>m. spawn now (config n) (unrewritten (storage n) z) sm = Inr m \<and> storage m = unrewritten (storage n) z"
proof -
  from a have n: "static_config M i (config n)" "holds_log L (storage n)" "plain L" by (simp_all add: at_run_def node_ok_def)
  from b z have s: "snap_ok sm L' z" by (simp add: at_run_def node_ok_def)
  have "plain (drop k (log (storage n)))" for k
    using plain_drop [OF n(3)] holds_logD(8) [OF n(2)] by (simp add: plain_drop)
  with spawn_eq [OF n(1), of "unrewritten (storage n) z" sm "take (last_included_index z) L'" now] s show ?thesis
    by (fastforce simp: unrewritten_def snap_ok_def)
qed

lemma left_by_spawns:
  assumes r: "runs M sm w i L n s" and e: "effects n = fx @ gx" and l: "left_by fx gx d"
  shows "\<exists>m. spawn now (config n) d sm = Inr m \<and> storage m = d"
  using l unfolding left_by_def
proof
  assume "left_whole fx gx d"
  from crash_left [OF r e this] obtain L' n' s' where "at_run M sm w i L' n' s'" "storage n' = d" "config n' = config n" .
  with spawn_at [of M sm w i L' n' s' now] show ?thesis by auto
next
  assume "case (last_stored None fx, gx) of (Some st, Stored st' # _) \<Rightarrow> half_installed st st' d | _ \<Rightarrow> False"
  then obtain st st' hx where st: "last_stored None fx = Some st" "gx = Stored st' # hx" "half_installed st st' d"
    by (auto split: option.splits list.splits effect.splits)
  have w: "left_whole fx gx st" "left_whole fx gx st'" using st by (simp_all add: left_whole_def)
  from crash_left [OF r e w(1)] obtain L1 n1 s1 where
    a: "at_run M sm w i L1 n1 s1" "storage n1 = st" "config n1 = config n" .
  from crash_left [OF r e w(2)] obtain L2 n2 s2 where b: "at_run M sm w i L2 n2 s2" "storage n2 = st'" .
  from st(3) obtain z where z: "snapshot st' = Some z" "d = unrewritten st z" by (auto simp: half_installed_def)
  from spawn_unrewritten [OF a(1) b(1), of z now] a b z show ?thesis by auto
qed

lemma crash_ok:
  assumes r: "runs M sm w i L n s" and e: "effects n = fx @ gx" and l: "left_whole fx gx d"
    and n: "spawn now (config n) d sm = Inr n'"
  shows "\<exists>L' s'. at_run M sm w i L' (n'\<lparr>effects := fx\<rparr>) s' \<and> msgs (net w) \<subseteq> msgs s'"
proof -
  from crash_left [OF r e l] obtain L' m s' where a: "at_run M sm w i L' m s'" "storage m = d" "config m = config n"
    "\<forall>e \<in> set fx. fx_ok sm s' i e" "msgs (net w) \<subseteq> msgs s'" .
  from restart_at [OF a(1) _ a(4), of now n'] n a show ?thesis by auto
qed

lemma init_related:
  assumes "finite M"
    and "\<forall>i \<in> M. \<exists>now c. static_config M i c \<and> (snapshot_threshold c \<noteq> None \<longrightarrow> lawful sm) \<and>
      spawn now c empty_storage sm = Inr (nodes C i)"
    and "wire C = {}" and "mail C = {}"
  shows "related M sm C winit"
proof -
  have "procs winit i = absp [] (nodes C i) \<and> node_ok M sm i [] (nodes C i) \<and> net_ok sm (net winit) i [] (nodes C i)"
    if i: "i \<in> M" for i
  proof -
    from assms(2) i obtain now c where c: "static_config M i c" "snapshot_threshold c \<noteq> None \<longrightarrow> lawful sm"
      "spawn now c empty_storage sm = Inr (nodes C i)" by blast
    have e: "snapshot_index empty_storage = 0" by (simp add: empty_storage_def snapshot_index_def)
    from spawn_eq [OF c(1), of empty_storage sm "[]" now] c(3) have
      n: "config (nodes C i) = c" "storage (nodes C i) = empty_storage" "state_machine (nodes C i) = sm"
      "role (nodes C i) = Follower" "commit_index (nodes C i) = 0" "last_applied (nodes C i) = 0"
      "fset (fmdom (members (nodes C i))) = M" "members_index (nodes C i) = 0" "staged_snapshot (nodes C i) = None"
      "effects (nodes C i) = []"
      by (auto simp: e empty_storage_def plain_def replay_def snapshot_index_def)
    with c(1,2) e holds_log_empty show ?thesis
      by (simp add: winit_def absp_def node_ok_def net_ok_def current_term_def)
        (simp add: empty_storage_def default_hard_state_def plain_def replay_def)
  qed
  moreover have "lg_of winit i = []" for i by (simp add: winit_def)
  moreover have "inv (is_majority M) winit"
    by (rule raft_quorums.inv_init [OF majority_locale [OF assms(1)]])
  ultimately show ?thesis using assms(1,3,4) by (simp add: related_def)
qed

lemma step_related:
  assumes R: "related M sm C w" and "cstep M sm C C'"
  shows "\<exists>w'. related M sm C' w' \<and> (wstep (is_majority M))\<^sup>*\<^sup>* w w'"
  using assms(2)
proof cases
  case (c_turn i t now go n)
  show ?thesis
  proof (cases "\<exists>r c. t = Rpc r c")
    case True
    then obtain r c where t: "t = Rpc r c" by blast
    then show ?thesis using c_turn(4)
      by (auto simp: take_turn_def bind_r_Inr_iff split: prod.splits)
  next
    case False
    from take_turn_ok [OF R c_turn(2,3), of now] False c_turn(4) obtain L s where
      s: "runs M sm w i L n s" "msgs (net w) \<subseteq> msgs s" by (auto simp: wp_rules)
    from related_step [OF R runs_at [OF s(1)] s(2), of C'] c_turn(1) runs_at [OF s(1)] show ?thesis by (auto simp: at_run_def)
  qed
next
  case (c_rpc i c r x now ch go a n)
  from take_rpc_ok [OF R c_rpc(2,3), of now ch] c_rpc(4) obtain L s where
    s: "runs M sm w i L n s" "msgs (net w) \<subseteq> msgs s" "event_ok s c (event_of x i (Inr a))" by (auto simp: wp_rules)
  from related_step [OF R runs_at [OF s(1)] s(2), of C'] runs_at [OF s(1)] s(3) c_rpc(1) show ?thesis by (auto simp: at_run_def)
next
  case (c_lost c j r x err)
  have "event_ok (net w) c (event_of x j (Inl err))" by (cases x) simp_all
  then have "related M sm C' w" using R c_lost(1) by (auto simp: related_def)
  then show ?thesis by blast
next
  case (c_restart i now n)
  note s = restart_ok [OF R c_restart(2,4)]
  from related_step [OF R s subset_refl, of C'] c_restart(1) s show ?thesis by (auto simp: at_run_def)
next
  case (c_crash i t now go rep n fx gx d now' n')
  from turn_runs [OF R c_crash(2,4,5)] obtain L s where "runs M sm w i L n s" by blast
  from crash_ok [OF this c_crash(6,7,8)] obtain L' s' where
    a: "at_run M sm w i L' (n'\<lparr>effects := fx\<rparr>) s'" "msgs (net w) \<subseteq> msgs s'" by blast
  from related_step [OF R a, of C'] a(1) c_crash(1) show ?thesis by (auto simp: at_run_def)
qed

lemma steps_related:
  assumes "related M sm C w" and "(cstep M sm)\<^sup>*\<^sup>* C C'"
  shows "\<exists>w'. related M sm C' w' \<and> (wstep (is_majority M))\<^sup>*\<^sup>* w w'"
  using assms(2)
proof (induction rule: rtranclp_induct)
  case base
  then show ?case using assms(1) by blast
next
  case (step D D')
  then obtain v where v: "related M sm D v" "(wstep (is_majority M))\<^sup>*\<^sup>* w v" by blast
  from step_related [OF v(1) step(2)] v(2) show ?case by (meson rtranclp_trans)
qed

lemma steps_in: "(cstep_in R M sm)\<^sup>*\<^sup>* C C' \<Longrightarrow> (cstep M sm)\<^sup>*\<^sup>* C C'"
  by (rule rtranclp_mono [THEN predicate2D, rotated], assumption)
    (auto elim!: cstep_in.cases intro: cstep_in.intros)

lemma reachable_steps: "(cstep M sm)\<^sup>*\<^sup>* C C' \<Longrightarrow> reachable M sm C \<Longrightarrow> reachable M sm C'"
  by (induction rule: rtranclp_induct) (auto intro: r_step)

text \<open>Every reachable cluster is the image of a reachable world of the protocol.\<close>

lemma reachable_related: "reachable M sm C \<Longrightarrow> \<exists>w. related M sm C w"
proof (induction rule: reachable.induct)
  case (r_init C)
  then show ?case using init_related by blast
next
  case (r_step C C')
  then show ?case using step_related by blast
qed

lemma relatedD:
  assumes "related M sm C w" and "i \<in> M"
  shows "raft_quorums is_majority M"
    and "inv_votes w" and "inv_led (is_majority M) w" and "inv_logs w" and "inv_choose (is_majority M) w"
    and "inv_commit (is_majority M) w"
    and "procs w i = absp (lg_of w i) (nodes C i)" and "node_ok M sm i (lg_of w i) (nodes C i)"
  using assms majority_locale by (auto simp: related_def inv_def)

end
