(* ===== verification/Store.thy ===== *)
theory Store
  imports Raft_Types
begin

unbundle bit_operations_syntax

section \<open>The key-value state machine and its dedup sessions\<close>

text \<open>
  \<^verbatim>\<open>src/store.rs\<close>. A client's dedup state is a 64-bit window of its most recent sequence numbers;
  the sequence numbers come from request headers, so they keep their width. \<open>session_abs\<close> is the
  abstract reading of a window: the set of sequence numbers that have applied.

  \<^verbatim>\<open>snapshot\<close> and \<^verbatim>\<open>restore\<close> of the \<^verbatim>\<open>StateMachine\<close> implementation go through
  \<^verbatim>\<open>serde_json::to_value\<close> and \<^verbatim>\<open>from_value\<close>, which are parameters here.
\<close>

definition SESSION_WINDOW :: u64 where
  "SESSION_WINDOW = 64"

record session_state =
  max_seq :: u64
  recent :: u64

definition session_new :: "u64 \<Rightarrow> session_state" where
  "session_new q = \<lparr>max_seq = q, recent = 1\<rparr>"

definition contains :: "session_state \<Rightarrow> u64 \<Rightarrow> bool" where
  "contains s q =
     (if q > max_seq s then False
      else
        let offset = max_seq s - q
        in offset \<ge> SESSION_WINDOW \<or> recent s AND push_bit (unat offset) 1 \<noteq> 0)"

text \<open>\<^verbatim>\<open>u64::checked_shl\<close> and \<^verbatim>\<open>u32::try_from(..).unwrap_or(u32::MAX)\<close> of the standard library.\<close>

definition checked_shl :: "u64 \<Rightarrow> nat \<Rightarrow> u64 option" where
  "checked_shl x n = (if n < 64 then Some (push_bit n x) else None)"

definition saturating_u32 :: "u64 \<Rightarrow> nat" where
  "saturating_u32 x = (if unat x < 2 ^ 32 then unat x else 2 ^ 32 - 1)"

definition record_seq :: "session_state \<Rightarrow> u64 \<Rightarrow> session_state" where
  "record_seq s q =
     (if q > max_seq s then
        let shift = q - max_seq s
        in s\<lparr>recent := (case checked_shl (recent s) (saturating_u32 shift) of
                          Some r \<Rightarrow> r | None \<Rightarrow> 0) OR 1,
             max_seq := q\<rparr>
      else if max_seq s - q < SESSION_WINDOW then
        s\<lparr>recent := recent s OR push_bit (unat (max_seq s - q)) 1\<rparr>
      else s)"

record 'v kv_snapshot =
  snap_map :: "string \<rightharpoonup> 'v"
  snap_sessions :: "u64 \<rightharpoonup> session_state"

record 'v kv_store =
  kv_map :: "string \<rightharpoonup> 'v"
  sessions :: "u64 \<rightharpoonup> session_state"

definition kv_new :: "'v kv_store" where
  "kv_new = \<lparr>kv_map = Map.empty, sessions = Map.empty\<rparr>"

definition kv_get :: "'v kv_store \<Rightarrow> string \<Rightarrow> 'v option" where
  "kv_get s k = kv_map s k"

definition kv_put :: "'v kv_store \<Rightarrow> string \<Rightarrow> 'v \<Rightarrow> 'v kv_store" where
  "kv_put s k v = s\<lparr>kv_map := (kv_map s)(k \<mapsto> v)\<rparr>"

definition kv_delete :: "'v kv_store \<Rightarrow> string \<Rightarrow> bool \<times> 'v kv_store" where
  "kv_delete s k = (kv_map s k \<noteq> None, s\<lparr>kv_map := (kv_map s)(k := None)\<rparr>)"

definition export_kv :: "'v kv_store \<Rightarrow> 'v kv_snapshot" where
  "export_kv s = \<lparr>snap_map = kv_map s, snap_sessions = sessions s\<rparr>"

definition import_kv :: "'v kv_store \<Rightarrow> 'v kv_snapshot \<Rightarrow> 'v kv_store" where
  "import_kv s x = s\<lparr>kv_map := snap_map x, sessions := snap_sessions x\<rparr>"

definition already_applied :: "'v kv_store \<Rightarrow> session option \<Rightarrow> bool" where
  "already_applied s tok =
     (case tok of
        None \<Rightarrow> False
      | Some t \<Rightarrow> (case sessions s (client t) of None \<Rightarrow> False | Some w \<Rightarrow> contains w (seq t)))"

definition record_applied :: "'v kv_store \<Rightarrow> session option \<Rightarrow> 'v kv_store" where
  "record_applied s tok =
     (case tok of
        None \<Rightarrow> s
      | Some t \<Rightarrow> s\<lparr>sessions := (sessions s)(client t \<mapsto>
          (case sessions s (client t) of
             Some w \<Rightarrow> record_seq w (seq t) | None \<Rightarrow> session_new (seq t)))\<rparr>)"

definition apply_entry :: "'v kv_store \<Rightarrow> 'v log_entry \<Rightarrow> 'v kv_store" where
  "apply_entry s e =
     (case command e of
        Put k v tok \<Rightarrow>
          if already_applied s tok then s else record_applied (kv_put s k v) tok
      | Delete k tok \<Rightarrow>
          if already_applied s tok then s else record_applied (snd (kv_delete s k)) tok
      | Noop \<Rightarrow> s
      | ConfigChange _ \<Rightarrow> s)"

definition sm_snapshot :: "('v kv_snapshot \<Rightarrow> 'v) \<Rightarrow> 'v kv_store \<Rightarrow> 'v" where
  "sm_snapshot to_value s = to_value (export_kv s)"

definition sm_restore ::
    "('v \<Rightarrow> 'v kv_snapshot option) \<Rightarrow> 'v kv_store \<Rightarrow> 'v \<Rightarrow> 'v kv_store option" where
  "sm_restore from_value s x = map_option (import_kv s) (from_value x)"

text \<open>The token a command carries, and the state after a run of entries.\<close>

fun token :: "'v command \<Rightarrow> session option" where
  "token (Put k v tok) = tok"
| "token (Delete k tok) = tok"
| "token Noop = None"
| "token (ConfigChange m) = None"

definition apply_all :: "'v kv_store \<Rightarrow> 'v log_entry list \<Rightarrow> 'v kv_store" where
  "apply_all s es = foldl apply_entry s es"

text \<open>
  The specification of the state machine: it remembers every token it has ever applied. The
  windowed implementation refines it on logs that respect the documented contract, that a client
  has at most \<open>64\<close> operations outstanding.
\<close>

type_synonym 'v spec_store = "(string \<rightharpoonup> 'v) \<times> session set"

definition spec_apply :: "'v spec_store \<Rightarrow> 'v log_entry \<Rightarrow> 'v spec_store" where
  "spec_apply s e =
     (let D' = (case token (command e) of None \<Rightarrow> snd s | Some t \<Rightarrow> insert t (snd s));
          dup = (case token (command e) of None \<Rightarrow> False | Some t \<Rightarrow> t \<in> snd s)
      in case command e of
           Put k v tok \<Rightarrow> if dup then s else ((fst s)(k \<mapsto> v), D')
         | Delete k tok \<Rightarrow> if dup then s else ((fst s)(k := None), D')
         | Noop \<Rightarrow> s
         | ConfigChange m \<Rightarrow> s)"

definition tokens_of :: "'v log_entry list \<Rightarrow> session set" where
  "tokens_of es = {t. \<exists>e \<in> set es. token (command e) = Some t}"

definition seqs_of :: "'v log_entry list \<Rightarrow> u64 \<Rightarrow> nat set" where
  "seqs_of es c = (\<lambda>t. unat (seq t)) ` {t \<in> tokens_of es. client t = c}"

text \<open>The contract: when an operation reaches the log, no operation of the same client that is
  \<open>64\<close> or more ahead of it is in the log already.\<close>

fun window_ok :: "'v log_entry list \<Rightarrow> 'v log_entry list \<Rightarrow> bool" where
  "window_ok before [] = True"
| "window_ok before (e # es) =
     ((case token (command e) of
         None \<Rightarrow> True
       | Some t \<Rightarrow> (\<forall>x \<in> seqs_of before (client t). x < unat (seq t) + 64)) \<and>
      window_ok (before @ [e]) es)"

subsection \<open>The window as a set of applied sequence numbers\<close>

definition session_abs :: "session_state \<Rightarrow> nat set \<Rightarrow> bool" where
  "session_abs s A \<longleftrightarrow>
     finite A \<and> A \<noteq> {} \<and> Max A = unat (max_seq s) \<and>
     (\<forall>i < 64. i \<le> unat (max_seq s) \<longrightarrow> bit (recent s) i = (unat (max_seq s) - i \<in> A))"

lemma and_push_bit_1: "(w :: u64) AND push_bit n 1 \<noteq> 0 \<longleftrightarrow> n < 64 \<and> bit w n"
proof -
  have "bit (w AND push_bit n 1) m \<longleftrightarrow> m = n \<and> n < 64 \<and> bit w n" for m
    by (auto simp: bit_simps dest: bit_imp_le_length)
  then show ?thesis
    by (metis bit_eq_iff bit_0_eq bot_apply bot_bool_def)
qed

lemma session_abs_new: "session_abs (session_new q) {unat q}"
  by (auto simp: session_abs_def session_new_def bit_simps)

lemma contains_iff:
  "contains s q \<longleftrightarrow>
     unat q \<le> unat (max_seq s) \<and>
     (64 \<le> unat (max_seq s) - unat q \<or> bit (recent s) (unat (max_seq s) - unat q))"
proof (cases "max_seq s < q")
  case True
  then show ?thesis by (simp add: contains_def u64_less_iff)
next
  case False
  then have "unat (max_seq s - q) = unat (max_seq s) - unat q"
    by (simp add: unat_sub)
  with False show ?thesis
    unfolding contains_def Let_def and_push_bit_1
    by (auto simp: SESSION_WINDOW_def u64_le_iff u64_less_iff)
qed

lemma contains_abs:
  assumes "session_abs s A"
  shows "contains s q \<longleftrightarrow> unat q \<in> A \<or> unat q + 64 \<le> Max A"
proof -
  have le: "x \<le> unat (max_seq s)" if "x \<in> A" for x
    using assms that by (metis Max_ge session_abs_def)
  show ?thesis
  proof (cases "unat q \<le> unat (max_seq s)")
    case True
    have "bit (recent s) (unat (max_seq s) - unat q) = (unat q \<in> A)"
      if "unat (max_seq s) - unat q < 64"
      using assms True that by (simp add: session_abs_def)
    with True assms show ?thesis
      by (cases "unat (max_seq s) - unat q < 64") (auto simp: contains_iff session_abs_def)
  next
    case False
    then show ?thesis using assms le by (auto simp: contains_iff session_abs_def)
  qed
qed

lemma record_seq_slide:
  assumes "max_seq s < q"
  shows "max_seq (record_seq s q) = q"
    and "i < 64 \<Longrightarrow> bit (recent (record_seq s q)) i \<longleftrightarrow>
      i = 0 \<or> (unat q - unat (max_seq s) \<le> i \<and> bit (recent s) (i - (unat q - unat (max_seq s))))"
proof -
  show "max_seq (record_seq s q) = q"
    using assms by (simp add: record_seq_def Let_def)
  have "unat (q - max_seq s) = unat q - unat (max_seq s)"
    using assms by (simp add: unat_sub)
  then show "i < 64 \<Longrightarrow> bit (recent (record_seq s q)) i \<longleftrightarrow>
      i = 0 \<or> (unat q - unat (max_seq s) \<le> i \<and> bit (recent s) (i - (unat q - unat (max_seq s))))"
    using assms
    by (auto simp: record_seq_def Let_def checked_shl_def saturating_u32_def bit_simps)
qed

lemma record_seq_in_window:
  assumes "\<not> max_seq s < q"
  shows "max_seq (record_seq s q) = max_seq s"
    and "i < 64 \<Longrightarrow> bit (recent (record_seq s q)) i \<longleftrightarrow>
      bit (recent s) i \<or> unat (max_seq s) - unat q = i"
proof -
  show "max_seq (record_seq s q) = max_seq s"
    using assms by (simp add: record_seq_def)
  have "unat (max_seq s - q) = unat (max_seq s) - unat q"
    using assms by (simp add: unat_sub)
  then show "i < 64 \<Longrightarrow> bit (recent (record_seq s q)) i \<longleftrightarrow>
      bit (recent s) i \<or> unat (max_seq s) - unat q = i"
    using assms
    by (auto simp: record_seq_def SESSION_WINDOW_def u64_less_iff bit_simps)
qed

text \<open>Recording refines insertion, unless the sequence number has fallen out of the window.\<close>

lemma record_seq_abs:
  assumes abs: "session_abs s A"
  shows "session_abs (record_seq s q) (if unat q + 64 \<le> Max A then A else insert (unat q) A)"
proof -
  let ?m = "unat (max_seq s)"
  from abs have fin: "finite A" "A \<noteq> {}" and max: "Max A = ?m"
    and bits: "i < 64 \<Longrightarrow> i \<le> ?m \<Longrightarrow> bit (recent s) i = (?m - i \<in> A)" for i
    by (auto simp: session_abs_def)
  have le: "x \<le> ?m" if "x \<in> A" for x
    using that fin max by (metis Max_ge)
  show ?thesis
  proof (cases "max_seq s < q")
    case True
    then have lt: "?m < unat q" by (simp add: u64_less_iff)
    note slide = record_seq_slide [OF True]
    have "bit (recent (record_seq s q)) i = (unat q - i \<in> insert (unat q) A)"
      if i: "i < 64" "i \<le> unat q" for i
    proof (cases "unat q - ?m \<le> i")
      case True
      then have "i - (unat q - ?m) < 64" "i - (unat q - ?m) \<le> ?m"
        and "?m - (i - (unat q - ?m)) = unat q - i" using i lt by simp_all
      with True i lt show ?thesis by (auto simp: slide bits)
    next
      case False
      then have "unat q - i \<notin> A" using le by fastforce
      with False i show ?thesis by (auto simp: slide)
    qed
    moreover have "Max (insert (unat q) A) = unat q"
      using fin lt max by simp
    ultimately show ?thesis
      using fin lt max by (simp add: session_abs_def slide)
  next
    case False
    then have ge: "unat q \<le> ?m" by (simp add: u64_less_iff)
    note win = record_seq_in_window [OF False]
    show ?thesis
    proof (cases "unat q + 64 \<le> ?m")
      case True
      then have "bit (recent (record_seq s q)) i = bit (recent s) i" if "i < 64" for i
        using that by (auto simp: win)
      with True abs show ?thesis by (simp add: session_abs_def win)
    next
      case in_win: False
      have "bit (recent (record_seq s q)) i = (?m - i \<in> insert (unat q) A)"
        if "i < 64" "i \<le> ?m" for i
        using that ge by (auto simp: win bits)
      moreover have "Max (insert (unat q) A) = ?m"
        using fin ge max by simp
      ultimately show ?thesis
        using in_win fin max by (simp add: session_abs_def win)
    qed
  qed
qed

lemma record_seq_keeps: "contains s p \<Longrightarrow> contains (record_seq s q) p"
proof (cases "max_seq s < q")
  case True
  assume c: "contains s p"
  let ?d = "unat q - unat (max_seq s)"
  from True have lt: "unat (max_seq s) < unat q" by (simp add: u64_less_iff)
  from c have le: "unat p \<le> unat (max_seq s)" by (simp add: contains_iff)
  show ?thesis
  proof (cases "unat q - unat p < 64")
    case in_win: True
    then have "unat q - unat p - ?d = unat (max_seq s) - unat p" using lt le by simp
    with c in_win lt le show ?thesis
      by (auto simp: contains_iff record_seq_slide [OF True])
  next
    case False
    with lt le show ?thesis by (simp add: contains_iff record_seq_slide [OF True])
  qed
next
  case False
  assume c: "contains s p"
  show ?thesis
  proof (cases "unat (max_seq s) - unat p < 64")
    case True
    with c show ?thesis by (simp add: contains_iff record_seq_in_window [OF False])
  next
    case out: False
    with c show ?thesis by (simp add: contains_iff record_seq_in_window [OF False])
  qed
qed

lemma record_seq_contains: "contains (record_seq s q) q"
proof (cases "max_seq s < q")
  case True
  then show ?thesis by (simp add: contains_iff record_seq_slide)
next
  case False
  then have "unat q \<le> unat (max_seq s)" by (simp add: u64_less_iff)
  then show ?thesis
    by (cases "unat (max_seq s) - unat q < 64")
      (simp_all add: contains_iff record_seq_in_window [OF False])
qed

lemma session_new_contains: "contains (session_new q) q"
  by (simp add: contains_iff session_new_def)

subsection \<open>Exactly-once application\<close>

lemma session_ext: "client t = client t' \<Longrightarrow> seq t = seq t' \<Longrightarrow> t = (t' :: session)"
  by simp

lemma already_applied_record:
  "already_applied s tok \<Longrightarrow> already_applied (record_applied s tok') tok"
  by (auto simp: already_applied_def record_applied_def record_seq_keeps split: option.splits)

lemma already_applied_map [simp]:
  "already_applied (s\<lparr>kv_map := m\<rparr>) = already_applied s"
  by (auto simp: already_applied_def fun_eq_iff split: option.splits)

lemma record_applied_applied: "already_applied (record_applied s (Some t)) (Some t)"
  by (auto simp: already_applied_def record_applied_def record_seq_contains session_new_contains
      split: option.splits)

lemma apply_entry_keeps:
  "already_applied s tok \<Longrightarrow> already_applied (apply_entry s e) tok"
  by (auto simp: apply_entry_def kv_put_def kv_delete_def already_applied_record
      split: command.splits)

lemma apply_entry_marks:
  "token (command e) = Some t \<Longrightarrow> already_applied (apply_entry s e) (Some t)"
  by (cases "command e") (auto simp: apply_entry_def record_applied_applied)

lemma apply_entry_duplicate:
  "token (command e) = Some t \<Longrightarrow> already_applied s (Some t) \<Longrightarrow> apply_entry s e = s"
  by (cases "command e") (auto simp: apply_entry_def)

lemma apply_all_simps [simp]:
  "apply_all s [] = s"
  "apply_all s (e # es) = apply_all (apply_entry s e) es"
  "apply_all s (es @ es') = apply_all (apply_all s es) es'"
  by (simp_all add: apply_all_def)

lemma apply_all_keeps: "already_applied s tok \<Longrightarrow> already_applied (apply_all s es) tok"
  by (induction es arbitrary: s) (auto intro: apply_entry_keeps)

lemma apply_all_marks:
  "e \<in> set es \<Longrightarrow> token (command e) = Some t \<Longrightarrow> already_applied (apply_all s es) (Some t)"
  by (induction es arbitrary: s) (auto intro: apply_all_keeps apply_entry_marks)

subsection \<open>The windowed store refines the specification\<close>

lemma tokens_of_simps [simp]:
  "tokens_of [] = {}"
  "tokens_of (es @ es') = tokens_of es \<union> tokens_of es'"
  "tokens_of (e # es) = set_option (token (command e)) \<union> tokens_of es"
  by (auto simp: tokens_of_def)

lemma finite_tokens_of [simp]: "finite (tokens_of es)"
  by (induction es) simp_all

lemma seqs_of_snoc:
  "seqs_of (es @ [e]) c =
     (case token (command e) of
        None \<Rightarrow> seqs_of es c
      | Some t \<Rightarrow> if client t = c then insert (unat (seq t)) (seqs_of es c) else seqs_of es c)"
  by (auto simp: seqs_of_def split: option.splits)

lemma finite_seqs_of [simp]: "finite (seqs_of es c)"
  by (simp add: seqs_of_def)

lemma seqs_of_iff: "unat (seq t) \<in> seqs_of es (client t) \<longleftrightarrow> t \<in> tokens_of es"
  by (auto simp: seqs_of_def word_unat_eq_iff [symmetric] dest: session_ext)

text \<open>The sessions table stands for the tokens of the log applied so far.\<close>

definition sessions_abs :: "'v kv_store \<Rightarrow> 'v log_entry list \<Rightarrow> bool" where
  "sessions_abs s es \<longleftrightarrow>
     (\<forall>c. sessions s c = None \<longrightarrow> seqs_of es c = {}) \<and>
     (\<forall>c w. sessions s c = Some w \<longrightarrow> session_abs w (seqs_of es c))"

lemma session_abs_Max_less: "session_abs w A \<Longrightarrow> \<forall>x \<in> A. x < n \<Longrightarrow> Max A < n"
  by (metis Max_in session_abs_def)

lemma already_applied_abs:
  assumes "sessions_abs s es" and "\<forall>x \<in> seqs_of es (client t). x < unat (seq t) + 64"
  shows "already_applied s (Some t) \<longleftrightarrow> t \<in> tokens_of es"
proof (cases "sessions s (client t)")
  case None
  with assms(1) have "seqs_of es (client t) = {}"
    by (simp add: sessions_abs_def)
  with None show ?thesis by (auto simp: already_applied_def simp flip: seqs_of_iff)
next
  case (Some w)
  with assms(1) have abs: "session_abs w (seqs_of es (client t))"
    by (simp add: sessions_abs_def)
  then have "Max (seqs_of es (client t)) < unat (seq t) + 64"
    using assms(2) by (rule session_abs_Max_less)
  with Some show ?thesis
    by (simp add: already_applied_def contains_abs [OF abs] seqs_of_iff)
qed

lemma record_applied_abs:
  assumes abs: "sessions_abs s es" and tok: "token (command e) = Some t"
    and win: "\<forall>x \<in> seqs_of es (client t). x < unat (seq t) + 64"
  shows "sessions_abs (record_applied s (Some t)) (es @ [e])"
proof -
  let ?s' = "record_applied s (Some t)"
  have "sessions ?s' c = None \<Longrightarrow> seqs_of (es @ [e]) c = {}" for c
    using abs tok
    by (auto simp: sessions_abs_def record_applied_def seqs_of_snoc split: if_splits)
  moreover have "session_abs w (seqs_of (es @ [e]) c)" if "sessions ?s' c = Some w" for c w
  proof (cases "c = client t")
    case False
    with abs tok that show ?thesis
      by (simp add: sessions_abs_def record_applied_def seqs_of_snoc)
  next
    case True
    show ?thesis
    proof (cases "sessions s c")
      case None
      with abs True have "seqs_of es (client t) = {}" by (simp add: sessions_abs_def)
      with None True tok that show ?thesis
        by (auto simp: record_applied_def seqs_of_snoc session_abs_new)
    next
      case (Some w')
      with abs True have w': "session_abs w' (seqs_of es (client t))"
        by (simp add: sessions_abs_def)
      then have "Max (seqs_of es (client t)) < unat (seq t) + 64"
        using win by (rule session_abs_Max_less)
      with Some True tok that record_seq_abs [OF w', of "seq t"] show ?thesis
        by (auto simp: record_applied_def seqs_of_snoc)
    qed
  qed
  ultimately show ?thesis by (simp add: sessions_abs_def)
qed

lemma sessions_abs_dup:
  "sessions_abs s es \<Longrightarrow> set_option (token (command e)) \<subseteq> tokens_of es \<Longrightarrow> sessions_abs s (es @ [e])"
proof -
  assume abs: "sessions_abs s es" and "set_option (token (command e)) \<subseteq> tokens_of es"
  then have "seqs_of (es @ [e]) c = seqs_of es c" for c
    by (auto simp: seqs_of_snoc seqs_of_iff insert_absorb split: option.splits)
  with abs show ?thesis by (simp add: sessions_abs_def)
qed

lemma sessions_abs_map [simp]: "sessions_abs (s\<lparr>kv_map := m\<rparr>) = sessions_abs s"
  by (auto simp: sessions_abs_def fun_eq_iff)

lemma record_applied_map [simp]: "kv_map (record_applied s tok) = kv_map s"
  by (auto simp: record_applied_def split: option.splits)

text \<open>One step of the simulation.\<close>

lemma apply_entry_refines:
  assumes abs: "sessions_abs s es" and win: "window_ok es [e]"
    and rel: "kv_map s = fst sp" "snd sp = tokens_of es"
  shows "sessions_abs (apply_entry s e) (es @ [e])"
    and "kv_map (apply_entry s e) = fst (spec_apply sp e)"
    and "snd (spec_apply sp e) = tokens_of (es @ [e])"
proof -
  have goal: "sessions_abs (apply_entry s e) (es @ [e]) \<and>
    kv_map (apply_entry s e) = fst (spec_apply sp e) \<and> snd (spec_apply sp e) = tokens_of (es @ [e])"
  proof (cases "token (command e)")
    case None
    then have "sessions_abs s (es @ [e])" using abs by (intro sessions_abs_dup) simp_all
    with None rel show ?thesis
      by (cases "command e")
        (simp_all add: apply_entry_def spec_apply_def already_applied_def record_applied_def
          kv_put_def kv_delete_def)
  next
    case (Some t)
    with win have w: "\<forall>x \<in> seqs_of es (client t). x < unat (seq t) + 64" by simp
    note ap = already_applied_abs [OF abs w]
    show ?thesis
    proof (cases "t \<in> tokens_of es")
      case True
      then have "apply_entry s e = s" using Some ap by (intro apply_entry_duplicate) simp_all
      moreover have "sessions_abs s (es @ [e])" using abs Some True by (intro sessions_abs_dup) simp_all
      moreover have "spec_apply sp e = sp"
        using True Some rel by (cases "command e") (simp_all add: spec_apply_def)
      ultimately show ?thesis using True Some rel by auto
    next
      case False
      note ra = record_applied_abs [OF _ Some w]
      show ?thesis
        using False Some rel ap abs
        by (cases "command e")
          (simp_all add: apply_entry_def spec_apply_def kv_put_def kv_delete_def ra Un_commute)
    qed
  qed
  then show "sessions_abs (apply_entry s e) (es @ [e])"
    and "kv_map (apply_entry s e) = fst (spec_apply sp e)"
    and "snd (spec_apply sp e) = tokens_of (es @ [e])" by simp_all
qed

lemma apply_all_refines:
  assumes "sessions_abs s es" and "window_ok es fs"
    and "kv_map s = fst sp" "snd sp = tokens_of es"
  shows "kv_map (apply_all s fs) = fst (foldl spec_apply sp fs)"
  using assms
proof (induction fs arbitrary: s es sp)
  case Nil
  then show ?case by simp
next
  case (Cons e fs)
  then have "window_ok es [e]" and rest: "window_ok (es @ [e]) fs" by simp_all
  from apply_entry_refines [OF Cons.prems(1) this(1) Cons.prems(3,4)] rest show ?case
    by (simp add: Cons.IH)
qed

subsection \<open>The snapshot interface\<close>

text \<open>
  What the Raft core relies on when it restores a state machine from a snapshot: importing an
  export reproduces the exported state, whatever the importer held before.
\<close>

locale snapshotable =
  fixes step :: "'s \<Rightarrow> 'e \<Rightarrow> 's"
    and exp :: "'s \<Rightarrow> 'x"
    and imp :: "'s \<Rightarrow> 'x \<Rightarrow> 's"
  assumes imp_exp: "imp s (exp t) = t"
begin

lemma resume_from_snapshot: "foldl step (imp s (exp (foldl step t es))) fs = foldl step t (es @ fs)"
  by (simp add: imp_exp)

lemma imp_overwrites: "imp (imp s x) (exp t) = imp s' (exp t)"
  by (simp add: imp_exp)

end

interpretation kv: snapshotable apply_entry export_kv import_kv
  by unfold_locales (simp add: import_kv_def export_kv_def)

subsection \<open>Properties\<close>

text \<open>
  C18. A client's 64-bit dedup window stands for the set \<open>A\<close> of its applied sequence numbers:
  \<open>contains\<close> answers membership in \<open>A\<close>, except that everything 64 or more below the largest counts as
  applied; recording a sequence number inserts it into \<open>A\<close> (or changes nothing below the window),
  whatever the shift distance.
\<close>

theorem session_window_refines_set:
  assumes "session_abs s A"
  shows "(contains s q \<longleftrightarrow> unat q \<in> A \<or> unat q + 64 \<le> Max A) \<and>
    session_abs (record_seq s q) (if unat q + 64 \<le> Max A then A else insert (unat q) A)"
  using contains_abs [OF assms] record_seq_abs [OF assms] by simp

theorem session_window_refines_set_witness:
  "session_abs (session_new 3) {3} \<and>
   session_abs (record_seq (session_new 3) 1) {1, 3} \<and> \<not> contains (session_new 3) 1"
proof -
  have h: "session_abs (session_new 3) {3}"
    using session_abs_new [of 3] by simp
  show ?thesis using h session_window_refines_set [OF h, of 1] by auto
qed

text \<open>
  C19. Exactly-once application: once an entry carrying a token is in the log, any later entry with the
  same token leaves the state (map and sessions) exactly as if it were not there, whatever was
  applied in between and afterwards.
\<close>

theorem exactly_once_application:
  assumes "token (command e) = Some t" and "token (command e') = Some t"
  shows "apply_all s (xs @ [e] @ ys @ [e'] @ zs) = apply_all s (xs @ [e] @ ys @ zs)"
proof -
  have "already_applied (apply_all s (xs @ [e] @ ys)) (Some t)"
    using assms(1) by (intro apply_all_marks [of e]) simp_all
  then have "apply_entry (apply_all s (xs @ [e] @ ys)) e' = apply_all s (xs @ [e] @ ys)"
    using assms(2) by (intro apply_entry_duplicate)
  then show ?thesis by simp
qed

theorem exactly_once_application_witness:
  "kv_get (apply_all kv_new
     ([] @ [\<lparr>entry_term = 1, index = 1, command = Put ''k'' (1::nat) (Some \<lparr>client = 7, seq = 1\<rparr>)\<rparr>] @
      [\<lparr>entry_term = 1, index = 2, command = Put ''k'' 2 (Some \<lparr>client = 8, seq = 1\<rparr>)\<rparr>] @
      [\<lparr>entry_term = 1, index = 3, command = Put ''k'' 1 (Some \<lparr>client = 7, seq = 1\<rparr>)\<rparr>] @ [])) ''k''
   = Some 2"
  by (subst exactly_once_application [where t = "\<lparr>client = 7, seq = 1\<rparr>"])
    (simp_all add: apply_entry_def already_applied_def record_applied_def kv_put_def kv_get_def
      kv_new_def)

text \<open>
  C20. On every log that respects the window contract, the map the windowed store computes is the map of
  the specification that remembers all tokens ever applied: no operation is skipped that was not a
  duplicate, and no duplicate mutates.
\<close>

theorem store_refines_unbounded_dedup:
  assumes "window_ok [] es"
  shows "kv_map (apply_all kv_new es) = fst (foldl spec_apply (Map.empty, {}) es)"
  by (rule apply_all_refines [of _ "[]"])
    (simp_all add: assms kv_new_def sessions_abs_def seqs_of_def)

theorem store_refines_unbounded_dedup_witness:
  "window_ok [] [\<lparr>entry_term = 1, index = 1, command = Put ''b'' (3::nat) (Some \<lparr>client = 7, seq = 3\<rparr>)\<rparr>,
      \<lparr>entry_term = 1, index = 2, command = Put ''a'' 1 (Some \<lparr>client = 7, seq = 1\<rparr>)\<rparr>] \<and>
   kv_map (apply_all kv_new
     [\<lparr>entry_term = 1, index = 1, command = Put ''b'' (3::nat) (Some \<lparr>client = 7, seq = 3\<rparr>)\<rparr>,
      \<lparr>entry_term = 1, index = 2, command = Put ''a'' 1 (Some \<lparr>client = 7, seq = 1\<rparr>)\<rparr>]) ''a'' = Some 1"
proof -
  let ?es = "[\<lparr>entry_term = 1, index = 1, command = Put ''b'' (3::nat) (Some \<lparr>client = 7, seq = 3\<rparr>)\<rparr>,
      \<lparr>entry_term = 1, index = 2, command = Put ''a'' 1 (Some \<lparr>client = 7, seq = 1\<rparr>)\<rparr>]"
  have h: "window_ok [] ?es" by (auto simp: seqs_of_def)
  show ?thesis
    using h store_refines_unbounded_dedup [OF h] by (simp add: spec_apply_def)
qed

text \<open>
  C21. Snapshot and restore lose nothing: if decoding inverts encoding for the snapshot payload, a store
  restored from the snapshot taken after \<open>es\<close>, whatever it held before, is the store that applied
  \<open>es\<close>, and it continues with further entries exactly as that store would (dedup sessions included).
\<close>

theorem restore_resumes_log:
  assumes "\<And>x. from_value (to_value x) = Some x"
  shows "\<exists>s'. sm_restore from_value s0 (sm_snapshot to_value (apply_all s es)) = Some s' \<and>
    apply_all s' fs = apply_all s (es @ fs)"
  using kv.resume_from_snapshot [of s0 s es fs] assms
  by (simp add: sm_restore_def sm_snapshot_def apply_all_def)

datatype example_json = Num nat | Snap "(string \<rightharpoonup> example_json)" "(u64 \<rightharpoonup> session_state)"

fun example_to_value :: "example_json kv_snapshot \<Rightarrow> example_json" where
  "example_to_value x = Snap (snap_map x) (snap_sessions x)"

fun example_from_value :: "example_json \<Rightarrow> example_json kv_snapshot option" where
  "example_from_value (Snap m s) = Some \<lparr>snap_map = m, snap_sessions = s\<rparr>"
| "example_from_value (Num n) = None"

theorem restore_resumes_log_witness:
  "\<exists>s'. sm_restore example_from_value kv_new (sm_snapshot example_to_value
     (apply_all kv_new [\<lparr>entry_term = 1, index = 1,
        command = Put ''k'' (Num 1) (Some \<lparr>client = 7, seq = 1\<rparr>)\<rparr>])) = Some s' \<and>
   kv_get (apply_all s' [\<lparr>entry_term = 1, index = 2,
        command = Put ''k'' (Num 9) (Some \<lparr>client = 7, seq = 1\<rparr>)\<rparr>]) ''k'' = Some (Num 1)"
proof -
  let ?es = "[\<lparr>entry_term = 1, index = 1, command = Put ''k'' (Num 1) (Some \<lparr>client = 7, seq = 1\<rparr>)\<rparr>]"
  let ?fs = "[\<lparr>entry_term = 1, index = 2, command = Put ''k'' (Num 9) (Some \<lparr>client = 7, seq = 1\<rparr>)\<rparr>]"
  have h: "example_from_value (example_to_value x) = Some x" for x by simp
  obtain s' where
    s': "sm_restore example_from_value kv_new (sm_snapshot example_to_value (apply_all kv_new ?es)) = Some s'"
    and eq: "apply_all s' ?fs = apply_all kv_new (?es @ ?fs)"
    using restore_resumes_log [of example_from_value example_to_value kv_new kv_new ?es ?fs, OF h]
    by blast
  have "kv_get (apply_all kv_new (?es @ ?fs)) ''k'' = Some (Num 1)"
    by (simp add: apply_entry_def already_applied_def record_applied_def kv_put_def kv_get_def
        kv_new_def contains_iff session_new_def)
  with s' eq show ?thesis by metis
qed

end
