(* ===== verification/Cluster_Example.thy ===== *)
theory Cluster_Example
  imports Cluster Store "HOL-Library.Code_Target_Nat"
begin

section \<open>A cluster of key-value stores\<close>

text \<open>
  The key-value store as the state machine of the cluster, and a run of a three-node cluster:
  node 1 probes, wins the pre-vote and the vote of node 2, appends its no-op, accepts a client's
  write, replicates both to node 2, commits them, and its next heartbeat tells node 2; then a client asks
  node 1 for a read, which node 2's answer to the next heartbeat grants. The run shows
  that the hypotheses of the safety theorems hold of a cluster that has done something.
\<close>

definition kv_machine :: "('v kv_snapshot \<Rightarrow> 'v) \<Rightarrow> ('v \<Rightarrow> 'v kv_snapshot option) \<Rightarrow>
    ('v, 'v kv_store) state_machine" where
  "kv_machine to_value from_value = \<lparr>sm_data = kv_new, sm_apply_fn = apply_entry,
     sm_snapshot_fn = sm_snapshot to_value, sm_restore_fn = sm_restore from_value\<rparr>"

lemma kv_machine_lawful:
  assumes "\<And>x. from_value (to_value x) = Some x"
  shows "lawful (kv_machine to_value from_value)"
  using assms by (simp add: lawful_def restores_def replay_sel kv_machine_def sm_restore_def sm_snapshot_def
      import_kv_def export_kv_def)

definition turn_of :: "instant \<Rightarrow> 'v turn \<Rightarrow> ('v, 'sm) raft_node \<Rightarrow> ('v, 'sm) raft_node" where
  "turn_of now t n = (case take_turn now t (drained n) of Inr (_, _, n') \<Rightarrow> n' | Inl _ \<Rightarrow> n)"

definition rpc_of :: "instant \<Rightarrow> 'v rpc_request \<Rightarrow> ('v, 'sm) raft_node \<Rightarrow>
    (rpc_response \<times> ('v, 'sm) raft_node) option" where
  "rpc_of now r n =
     (case take_turn now (Rpc r 0) (drained n) of Inr (_, Some (_, a), n') \<Rightarrow> Some (a, n') | _ \<Rightarrow> None)"

definition served :: "(rpc_response \<times> ('v, 'sm) raft_node) option \<Rightarrow> ('v, 'sm) raft_node" where
  "served x = snd (the x)"

definition after :: "node_id \<Rightarrow> ('v, 'sm) raft_node \<Rightarrow> ('v, 'sm) cluster \<Rightarrow> ('v, 'sm) cluster" where
  "after i n C = C\<lparr>nodes := (nodes C)(i := n), wire := wire C \<union> posted i n\<rparr>"

definition mailed :: "node_id \<Rightarrow> event \<Rightarrow> ('v, 'sm) cluster \<Rightarrow> ('v, 'sm) cluster" where
  "mailed c e C = C\<lparr>mail := insert (c, e) (mail C)\<rparr>"

lemma turn_taken:
  assumes "reachable M sm C" and "i \<in> M" and "turn_enabled C i t" and "\<And>r c. t \<noteq> Rpc r c"
  shows "\<exists>go. take_turn now t (drained (nodes C i)) = Inr (go, None, turn_of now t (nodes C i))"
proof -
  from reachable_related [OF assms(1)] obtain w where R: "related M sm C w" by blast
  from take_turn_ok [OF R assms(2-4), of now] show ?thesis by (auto simp: wp_empty_iff turn_of_def)
qed

lemma turn_step:
  assumes "reachable M sm C" and "i \<in> M" and "turn_enabled C i t" and "\<And>r c. t \<noteq> Rpc r c"
  shows "cstep_in R M sm C (after i (turn_of now t (nodes C i)) C)"
  using turn_taken [OF assms, of now] c_turn [OF assms(2,3)] unfolding after_def by blast

lemma rpc_step:
  assumes "reachable M sm C" and "i \<in> M" and "(c, i, r, x) \<in> wire C"
    and "map_option fst (rpc_of now r (nodes C i)) = Some a"
  shows "cstep_in R M sm C (mailed c (event_of x i (Inr a)) (after i (served (rpc_of now r (nodes C i))) C))"
proof -
  from reachable_related [OF assms(1)] obtain w where R: "related M sm C w" by blast
  from take_rpc_ok [OF R assms(2,3), of now 0] obtain go n b where
    n: "take_turn now (Rpc r 0) (drained (nodes C i)) = Inr (go, Some (0, b), n)" by (auto simp: wp_empty_iff)
  from c_rpc [OF assms(2,3) n] n assms(4) show ?thesis
    by (simp add: after_def mailed_def rpc_of_def served_def)
qed

lemma run_turn:
  assumes "reachable M sm C" and "i \<in> M" and "turn_enabled C i t" and "\<And>r c. t \<noteq> Rpc r c"
  shows "reachable M sm (after i (turn_of now t (nodes C i)) C)"
  by (rule r_step [OF assms(1) turn_step [OF assms]])

lemma run_rpc:
  assumes "reachable M sm C" and "i \<in> M" and "(c, i, r, x) \<in> wire C"
    and "map_option fst (rpc_of now r (nodes C i)) = Some a"
  shows "reachable M sm (mailed c (event_of x i (Inr a)) (after i (served (rpc_of now r (nodes C i))) C))"
  by (rule r_step [OF assms(1) rpc_step [OF assms]])

subsection \<open>The run\<close>

definition example_machine :: "(nat, nat kv_store) state_machine" where
  "example_machine = kv_machine (\<lambda>_. 0) (\<lambda>_. None)"

definition boot :: "node_id \<Rightarrow> (nat, nat kv_store) raft_node" where
  "boot i = projr (spawn 0 (raft_config_new i (filter (\<lambda>j. j \<noteq> i) [1, 2, 3])) empty_storage example_machine)"

definition vote_req :: request_vote_args where
  "vote_req = \<lparr>rv_term = 1, candidate_id = 1, last_log_index = 0, last_log_term = 0\<rparr>"

definition put_cmd :: "nat command" where
  "put_cmd = Put ''k'' 5 (Some \<lparr>client = 7, seq = 1\<rparr>)"

definition two_entries :: "nat log_entry list" where
  "two_entries = [\<lparr>entry_term = 1, index = 1, command = Noop\<rparr>, \<lparr>entry_term = 1, index = 2, command = put_cmd\<rparr>]"

definition append_req :: "nat \<Rightarrow> term_no \<Rightarrow> nat log_entry list \<Rightarrow> log_index \<Rightarrow> nat rpc_request" where
  "append_req k t es c = AppendEntries \<lparr>ae_term = 1, ae_leader_id = 1, prev_log_index = k, prev_log_term = t,
     entries = es, leader_commit = c\<rparr>"

definition pre_reply :: event where
  "pre_reply = PreVoteReply 1 2 (Inr (PreVoteR \<lparr>rvr_term = 0, vote_granted = True\<rparr>))"

definition vote_reply :: event where
  "vote_reply = VoteReply 1 2 (Inr (RequestVoteR \<lparr>rvr_term = 1, vote_granted = True\<rparr>))"

definition append_reply :: "log_index \<Rightarrow> nat \<Rightarrow> event" where
  "append_reply k m = AppendReply 1 2 k m 0 (Inr (AppendEntriesR \<lparr>aer_term = 1, success = True\<rparr>))"

definition read_reply :: event where
  "read_reply = AppendReply 1 2 2 0 1 (Inr (AppendEntriesR \<lparr>aer_term = 1, success = True\<rparr>))"

text \<open>The states of nodes 1 and 2.\<close>

definition "a1 = turn_of 400000 ElectionTimer (boot 1)"
definition "a2 = turn_of 400000 (Ev pre_reply) a1"
definition "a3 = turn_of 400000 (Ev vote_reply) a2"
definition "a4 = turn_of 400000 (Ctl (Propose put_cmd 0)) a3"
definition "a5 = turn_of 400000 (Ev (append_reply 0 2)) a4"
definition "a6 = turn_of 400000 HeartbeatTimer a5"
definition "a7 = turn_of 400000 (Ctl (Read 9)) a6"
definition "a8 = turn_of 400000 (Ev read_reply) a7"

definition "b1 = served (rpc_of 400000 (PreVote vote_req) (boot 2))"
definition "b2 = served (rpc_of 400000 (RequestVote vote_req) b1)"
definition "b3 = served (rpc_of 400000 (append_req 0 0 two_entries 0) b2)"
definition "b4 = served (rpc_of 400000 (append_req 2 1 [] 2) b3)"
definition "b5 = served (rpc_of 400000 (append_req 2 1 [] 2) b4)"

text \<open>The cluster at the start, after the pre-vote, the vote, the replication, the commit and the read.\<close>

definition "cluster0 = \<lparr>nodes = boot, wire = {}, mail = {}\<rparr>"
definition "cluster1 = mailed 1 pre_reply (after 2 b1 (after 1 a1 cluster0))"
definition "cluster2 = mailed 1 vote_reply (after 2 b2 (after 1 a2 cluster1))"
definition "cluster3 = mailed 1 (append_reply 0 2) (after 2 b3 (after 1 a4 (after 1 a3 cluster2)))"
definition "cluster4 = mailed 1 (append_reply 2 0) (after 2 b4 (after 1 a6 (after 1 a5 cluster3)))"
definition "cluster5 = after 1 a8 (mailed 1 read_reply (after 2 b5 (after 1 a7 cluster4)))"

lemma run_a_eval:
  "(let x1 = turn_of 400000 ElectionTimer (boot 1);
        x2 = turn_of 400000 (Ev pre_reply) x1;
        x3 = turn_of 400000 (Ev vote_reply) x2;
        x4 = turn_of 400000 (Ctl (Propose put_cmd 0)) x3;
        x5 = turn_of 400000 (Ev (append_reply 0 2)) x4;
        x6 = turn_of 400000 HeartbeatTimer x5;
        x7 = turn_of 400000 (Ctl (Read 9)) x6;
        x8 = turn_of 400000 (Ev read_reply) x7
    in list_all (\<lambda>x. x) [SendRpc 2 (PreVote vote_req) (PreVoteCtx 1) \<in> set (effects x1) \<and> \<not> is_leader (boot 1),
        SendRpc 2 (RequestVote vote_req) (VoteCtx 1) \<in> set (effects x2),
        SendRpc 2 (append_req 0 0 two_entries 0) (AppendCtx 1 0 2 0) \<in> set (effects x4),
        SendRpc 2 (append_req 2 1 [] 2) (AppendCtx 1 2 0 0) \<in> set (effects x6),
        ReplyPropose 0 (Inr \<lparr>proposal_term = 1, proposal_index = 2, proposal_committed = 0\<rparr>) \<in> set (effects x4),
        Committed \<lparr>pp_term = 1, pp_index = 2, pp_committed = 0\<rparr> True \<in> set (effects x5),
        ReplyRead 9 (Inr 1) \<in> set (effects x7),
        SendRpc 2 (append_req 2 1 [] 2) (AppendCtx 1 2 0 1) \<in> set (effects x7),
        Granted 1 \<in> set (effects x8), last_applied x8 = 2,
        is_leader x5, is_leader x6, current_term x6 = 1, commit_index x6 = 2, last_applied x6 = 2,
        log (storage x6) = two_entries, snapshot (storage x6) = None])"
  by code_simp

lemma run_b_eval:
  "(let x1 = rpc_of 400000 (PreVote vote_req) (boot 2);
        x2 = rpc_of 400000 (RequestVote vote_req) (served x1);
        x3 = rpc_of 400000 (append_req 0 0 two_entries 0) (served x2);
        x4 = rpc_of 400000 (append_req 2 1 [] 2) (served x3);
        x5 = rpc_of 400000 (append_req 2 1 [] 2) (served x4)
    in list_all (\<lambda>x. x) [map_option fst x1 = Some (PreVoteR \<lparr>rvr_term = 0, vote_granted = True\<rparr>),
        map_option fst x2 = Some (RequestVoteR \<lparr>rvr_term = 1, vote_granted = True\<rparr>),
        map_option fst x3 = Some (AppendEntriesR \<lparr>aer_term = 1, success = True\<rparr>),
        map_option fst x4 = Some (AppendEntriesR \<lparr>aer_term = 1, success = True\<rparr>),
        map_option fst x5 = Some (AppendEntriesR \<lparr>aer_term = 1, success = True\<rparr>),
        current_term (served x4) = 1, commit_index (served x4) = 2, last_applied (served x4) = 2,
        log (storage (served x4)) = two_entries, snapshot (storage (served x4)) = None])"
  by code_simp

declare One_nat_def [simp del]

lemmas run_a = run_a_eval [unfolded Let_def, folded a1_def, folded a2_def, folded a3_def, folded a4_def,
  folded a5_def, folded a6_def, folded a7_def, folded a8_def, simplified]

lemmas run_b = run_b_eval [unfolded Let_def, folded b1_def, folded b2_def, folded b3_def, folded b4_def,
  folded b5_def, simplified]

lemma boot_ok:
  "i \<in> {1, 2, 3} \<Longrightarrow> static_config {1, 2, 3} i (raft_config_new i (filter (\<lambda>j. j \<noteq> i) [1, 2, 3]))"
  "snapshot_threshold (raft_config_new i (filter (\<lambda>j. j \<noteq> i) [1, 2, 3])) = None"
  by (auto simp: static_config_def raft_config_new_def)

lemma boot_spawned:
  assumes "i \<in> {1, 2, 3}"
  shows "spawn 0 (raft_config_new i (filter (\<lambda>j. j \<noteq> i) [1, 2, 3])) empty_storage example_machine = Inr (boot i)"
proof -
  have "snapshot empty_storage = None" "plain (log empty_storage)"
    by (simp_all add: empty_storage_def plain_def)
  then have "\<exists>n. spawn 0 (raft_config_new i (filter (\<lambda>j. j \<noteq> i) [1, 2, 3])) empty_storage example_machine = Inr n"
    using spawn_eq [OF boot_ok(1) [OF assms], of empty_storage example_machine "[]" 0]
    by (metis option.distinct(1))
  then show ?thesis by (metis boot_def sum.sel(2))
qed

lemma reachable0: "reachable {1, 2, 3} example_machine cluster0"
proof (rule r_init)
  show "\<forall>i \<in> {1, 2, 3}. \<exists>now c. static_config {1, 2, 3} i c \<and>
      (snapshot_threshold c \<noteq> None \<longrightarrow> lawful example_machine) \<and>
      spawn now c empty_storage example_machine = Inr (nodes cluster0 i)"
    using boot_ok boot_spawned unfolding cluster0_def cluster.simps by blast
qed (simp_all add: cluster0_def)

lemmas cluster_simps [simp] = after_def mailed_def posted_def turn_enabled_def

lemma reachable1: "reachable {1, 2, 3} example_machine cluster1"
proof -
  have "reachable {1, 2, 3} example_machine (after 1 a1 cluster0)"
    using run_turn [OF reachable0, of 1 ElectionTimer 400000] run_a by (simp add: a1_def cluster0_def)
  from run_rpc [OF this, of 2 1 "PreVote vote_req" "PreVoteCtx 1" 400000] run_a run_b show ?thesis
    by (simp add: cluster1_def b1_def cluster0_def pre_reply_def)
qed

lemma nodes1: "nodes cluster1 1 = a1" "nodes cluster1 2 = b1"
  by (simp_all add: cluster1_def cluster0_def)

lemma reachable2: "reachable {1, 2, 3} example_machine cluster2"
proof -
  have "(1, pre_reply) \<in> mail cluster1" by (simp add: cluster1_def)
  then have "reachable {1, 2, 3} example_machine (after 1 a2 cluster1)"
    using run_turn [OF reachable1, of 1 "Ev pre_reply" 400000] by (simp add: a2_def nodes1)
  from run_rpc [OF this, of 2 1 "RequestVote vote_req" "VoteCtx 1" 400000] run_a run_b show ?thesis
    by (simp add: cluster2_def b2_def nodes1 vote_reply_def)
qed

lemma nodes2: "nodes cluster2 1 = a2" "nodes cluster2 2 = b2"
  by (simp_all add: cluster2_def nodes1)

text \<open>The leader before the write, and from the write to its acknowledgement, without a restart.\<close>

lemma reachable2': "reachable {1, 2, 3} example_machine (after 1 a3 cluster2)"
proof -
  have "(1, vote_reply) \<in> mail cluster2" by (simp add: cluster2_def)
  then show ?thesis using run_turn [OF reachable2, of 1 "Ev vote_reply" 400000] by (simp add: a3_def nodes2)
qed

lemma write_turn: "\<exists>go. take_turn 400000 (Ctl (Propose put_cmd 0)) (drained (nodes (after 1 a3 cluster2) 1)) = Inr (go, None, a4)"
  using turn_taken [OF reachable2', of 1 "Ctl (Propose put_cmd 0)" 400000]
  by (simp add: a4_def plain_command_def put_cmd_def)

lemma reachable3': "reachable {1, 2, 3} example_machine (after 1 a4 (after 1 a3 cluster2))"
  using run_turn [OF reachable2', of 1 "Ctl (Propose put_cmd 0)" 400000]
  by (simp add: a4_def nodes2 plain_command_def put_cmd_def)

lemma step3: "cstep_in R {1, 2, 3} example_machine (after 1 a4 (after 1 a3 cluster2)) cluster3"
  using rpc_step [OF reachable3', of 2 1 "append_req 0 0 two_entries 0" "AppendCtx 1 0 2 0" 400000] run_a run_b
  by (simp add: cluster3_def b3_def nodes2 append_reply_def)

lemma reachable3: "reachable {1, 2, 3} example_machine cluster3"
  by (rule r_step [OF reachable3' step3])

lemma nodes3: "nodes cluster3 1 = a4" "nodes cluster3 2 = b3"
  by (simp_all add: cluster3_def nodes2)

lemma step3': "cstep_in R {1, 2, 3} example_machine cluster3 (after 1 a5 cluster3)"
proof -
  have "(1, append_reply 0 2) \<in> mail cluster3" by (simp add: cluster3_def)
  then show ?thesis using turn_step [OF reachable3, of 1 "Ev (append_reply 0 2)" R 400000] by (simp add: a5_def nodes3)
qed

lemma steps4: "(cstep {1, 2, 3} example_machine)\<^sup>*\<^sup>* (after 1 a5 cluster3) cluster4"
proof -
  note r = r_step [OF reachable3 step3']
  have st: "cstep {1, 2, 3} example_machine (after 1 a5 cluster3) (after 1 a6 (after 1 a5 cluster3))"
    using turn_step [OF r, of 1 HeartbeatTimer UNIV 400000] run_a by (simp add: a6_def)
  from st rpc_step [OF r_step [OF r st], of 2 1 "append_req 2 1 [] 2" "AppendCtx 1 2 0 0" 400000 _ UNIV] run_a run_b
  show ?thesis by (auto simp: cluster4_def b4_def nodes3 append_reply_def intro: rtranclp.intros)
qed

lemma reachable4: "reachable {1, 2, 3} example_machine cluster4"
  by (rule reachable_steps [OF steps4 r_step [OF reachable3 step3']])

lemma nodes4: "nodes cluster4 1 = a6" "nodes cluster4 2 = b4"
  by (simp_all add: cluster4_def nodes3)

text \<open>The read.\<close>

lemma read_turn: "\<exists>go. take_turn 400000 (Ctl (Read 9)) (drained (nodes cluster4 1)) = Inr (go, None, a7)"
  using turn_taken [OF reachable4, of 1 "Ctl (Read 9)" 400000] by (simp add: a7_def nodes4)

lemma steps5: "(cstep_in R {1, 2, 3} example_machine)\<^sup>*\<^sup>* (after 1 a7 cluster4) cluster5"
proof -
  have r: "reachable {1, 2, 3} example_machine (after 1 a7 cluster4)"
    using run_turn [OF reachable4, of 1 "Ctl (Read 9)" 400000] by (simp add: a7_def nodes4)
  let ?C = "mailed 1 read_reply (after 2 b5 (after 1 a7 cluster4))"
  have st: "cstep_in R' {1, 2, 3} example_machine (after 1 a7 cluster4) ?C" for R'
    using rpc_step [OF r, of 2 1 "append_req 2 1 [] 2" "AppendCtx 1 2 0 1" 400000 _ R'] run_a run_b
    by (simp add: b5_def nodes4 read_reply_def)
  have "cstep_in R {1, 2, 3} example_machine ?C cluster5"
    using turn_step [OF r_step [OF r st], of 1 "Ev read_reply" R 400000] by (simp add: cluster5_def a8_def)
  with st show ?thesis by (auto intro: rtranclp.intros)
qed

declare One_nat_def [simp] and cluster_simps [simp del]

end
