(* ===== verification/Cluster_Safety.thy ===== *)
theory Cluster_Safety
  imports Cluster_Example
begin

section \<open>Safety of the cluster\<close>

text \<open>
  The guarantees of Raft for the cluster of the implemented nodes, each derived from the invariant
  of the protocol through the simulation of \<^verbatim>\<open>Cluster\<close>.
\<close>

lemma cluster_entry:
  assumes "related M sm C w" and "i \<in> M"
  shows "entry (storage (nodes C i)) k =
    (if snapshot_index (storage (nodes C i)) < k then list_get (lg_of w i) (k - 1) else None)"
proof -
  from relatedD(8) [OF assms] have "holds_log (lg_of w i) (storage (nodes C i))" by (simp add: node_ok_def)
  then show ?thesis by (auto simp: entry_eq holds_log_def list_get_def)
qed

lemma related_sel:
  assumes "related M sm C w" and "i \<in> M"
  shows "trm w i = current_term (nodes C i)" and "p_role (procs w i) = abs_role (role (nodes C i))"
    and "p_commit (procs w i) = commit_index (nodes C i)"
  using relatedD(7) [OF assms] by (metis absp_sel(1), metis absp_sel(3), metis absp_sel(5))

lemma list_get_prefix:
  assumes "take n a = take n b" and "k < n" and "n \<le> length a" and "n \<le> length b"
  shows "list_get a k = list_get b k"
  using take_eq_nth [OF assms(1)] assms by (simp add: list_get_def)

lemma commit_settled:
  assumes "related M sm C w" and "i \<in> M"
  shows "settled (is_majority M) w (trm w i) (lg_of w i) (commit_index (nodes C i))"
  using inv_commitD(1) [OF relatedD(6) [OF assms], of i] related_sel(3) [OF assms] by simp

lemma committed_agree:
  assumes R: "related M sm C w" and i: "i \<in> M" and R': "related M sm C' w'" and j: "j \<in> M"
    and st: "(wstep (is_majority M))\<^sup>*\<^sup>* w w'"
    and k: "k \<le> commit_index (nodes C i)" "k \<le> commit_index (nodes C' j)"
  shows "take k (lg_of w i) = take k (lg_of w' j)"
    and "k \<le> length (lg_of w i)" and "k \<le> length (lg_of w' j)"
proof -
  note q = relatedD(1) [OF R i] and S = commit_settled [OF R i] and S' = commit_settled [OF R' j]
  from R have I: "inv (is_majority M) w" by (simp add: related_def)
  show "take k (lg_of w i) = take k (lg_of w' j)"
    by (rule raft_quorums.settled_prefixes [OF q relatedD(5) [OF R' j]
          raft_quorums.settled_steps [OF q st I S] S' k])
  show "k \<le> length (lg_of w i)" "k \<le> length (lg_of w' j)"
    using settled_length [OF S] settled_length [OF S'] k by simp_all
qed

text \<open>One history for the whole cluster, at two points in time.\<close>

lemma common_history:
  assumes R: "related M sm C w" and R': "related M sm C' w'" and st: "(wstep (is_majority M))\<^sup>*\<^sup>* w w'"
  shows "\<exists>H. \<forall>(D, v) \<in> {(C, w), (C', w')}. \<forall>i \<in> M. commit_index (nodes D i) \<le> length H \<and>
    take (commit_index (nodes D i)) H = take (commit_index (nodes D i)) (lg_of v i)"
proof (cases "M = {}")
  case False
  define P where "P = {(C, w), (C', w')} \<times> M"
  let ?c = "\<lambda>x. commit_index (nodes (fst (fst x)) (snd x))" and ?l = "\<lambda>x. lg_of (snd (fst x)) (snd x)"
  have "finite M" using R by (simp add: related_def)
  then have "finite P" "P \<noteq> {}" using False by (auto simp: P_def)
  then have "Max (?c ` P) \<in> ?c ` P" by (intro Max_in) auto
  then obtain x where x: "x \<in> P" and "Max (?c ` P) = ?c x" by (rule imageE)
  with \<open>finite P\<close> have le: "?c y \<le> ?c x" if "y \<in> P" for y
    using Max_ge [of "?c ` P" "?c y"] that by simp
  have "?c y \<le> length (?l x) \<and> take (?c y) (?l x) = take (?c y) (?l y)" if y: "y \<in> P" for y
    using committed_agree [OF R _ R _ rtranclp.rtrancl_refl, of "snd y" "snd x" "?c y"]
      committed_agree [OF R' _ R' _ rtranclp.rtrancl_refl, of "snd y" "snd x" "?c y"]
      committed_agree [OF R _ R' _ st, of "snd y" "snd x" "?c y"]
      committed_agree [OF R _ R' _ st, of "snd x" "snd y" "?c y"] x y le [OF y]
    by (auto simp: P_def)
  then show ?thesis by (intro exI [of _ "?l x"]) (force simp: P_def)
qed simp

text \<open>A node embodies a process of the protocol: the process is its view, with a log its storage holds.\<close>

definition embodies :: "('v, 'sm) raft_node \<Rightarrow> 'v proc \<Rightarrow> bool" where
  "embodies n p \<longleftrightarrow> p = absp (p_log p) n \<and> holds_log (p_log p) (storage n)"

lemma related_embodies:
  assumes "related M sm C w" and "i \<in> M"
  shows "embodies (nodes C i) (procs w i)"
  using relatedD(7,8) [OF assms] by (simp add: embodies_def node_ok_def)

lemma leader_role: "is_leader n \<longleftrightarrow> p_role (absp L n) = PLeader"
  by (auto simp: absp_def is_leader_def split: role.splits)

lemma leader_led:
  assumes "related M sm C w" and "l \<in> M" and "is_leader (nodes C l)"
  shows "ld w (trm w l) = Some (l, lg_of w l)" and "trm w l = current_term (nodes C l)"
  using raft_quorums.led_leader [OF relatedD(1,3) [OF assms(1,2)], of l] related_sel [OF assms(1,2)] assms(3)
  by (simp_all add: is_leader_def split: role.splits)

lemma example_facts:
  "is_leader (nodes cluster4 1)" "current_term (nodes cluster4 1) = 1" "current_term (nodes cluster4 2) = 1"
  "commit_index (nodes cluster4 1) = 2" "commit_index (nodes cluster4 2) = 2"
  "last_applied (nodes cluster4 1) = 2" "last_applied (nodes cluster4 2) = 2"
  "log (storage (nodes cluster4 1)) = two_entries" "log (storage (nodes cluster4 2)) = two_entries"
  "snapshot_index (storage (nodes cluster4 1)) = 0" "snapshot_index (storage (nodes cluster4 2)) = 0"
  using run_a run_b by (simp_all add: nodes4 snapshot_index_def del: One_nat_def)

lemma replica_state:
  assumes "related M sm C w" and "i \<in> M"
  shows "state_machine (nodes C i) = replay sm (take (last_applied (nodes C i)) (lg_of w i))"
    and "last_applied (nodes C i) \<le> commit_index (nodes C i)"
  using relatedD(7,8) [OF assms] by (simp_all add: node_ok_def)

lemma replay_data:
  "sm_apply_fn (replay sm es) = sm_apply_fn sm" "sm_data (replay sm es) = foldl (sm_apply_fn sm) (sm_data sm) es"
  unfolding replay_def by (induction es arbitrary: sm) (simp_all add: sm_apply_def)

lemma replay_kv: "sm_data (replay (kv_machine tv fv) es) = apply_all kv_new es"
  by (simp add: replay_data apply_all_def kv_machine_def)

text \<open>What a common history determines of a node.\<close>

lemma history_entries:
  assumes R: "related M sm C w" and i: "i \<in> M" and H: "commit_index (nodes C i) \<le> length H"
    "take (commit_index (nodes C i)) H = take (commit_index (nodes C i)) (lg_of w i)"
  shows "last_applied (nodes C i) \<le> commit_index (nodes C i)"
    and "snapshot_index (storage (nodes C i)) < k \<Longrightarrow> k \<le> commit_index (nodes C i) \<Longrightarrow>
      entry (storage (nodes C i)) k = Some (H ! (k - 1))"
    and "state_machine (nodes C i) = replay sm (take (last_applied (nodes C i)) H)"
proof -
  note S = replica_state [OF R i]
  show "last_applied (nodes C i) \<le> commit_index (nodes C i)" by (rule S(2))
  have "take (last_applied (nodes C i)) H = take (last_applied (nodes C i)) (lg_of w i)"
    using arg_cong [OF H(2), of "take (last_applied (nodes C i))"] S(2) by (simp add: min_absorb1)
  with S(1) show "state_machine (nodes C i) = replay sm (take (last_applied (nodes C i)) H)" by metis
  show "entry (storage (nodes C i)) k = Some (H ! (k - 1))"
    if "snapshot_index (storage (nodes C i)) < k" "k \<le> commit_index (nodes C i)"
    using take_eq_nth [OF H(2), of "k - 1"] that H(1) settled_length [OF commit_settled [OF R i]]
    by (simp add: cluster_entry [OF R i] list_get_def)
qed

lemma take_two:
  assumes "2 \<le> length H" and "H ! 0 = two_entries ! 0" and "H ! 1 = two_entries ! 1"
  shows "take 2 H = two_entries"
proof -
  from assms(1) obtain a b r where "H = a # b # r" by (cases H; cases "tl H") auto
  with assms(2,3) show ?thesis by (simp add: two_entries_def numeral_2_eq_2)
qed

subsection \<open>The theorems\<close>

text \<open>
  C1. Election safety: in every reachable state of the cluster (whatever was lost, duplicated, delayed
  or reordered, and however nodes crashed and restarted) two leaders of the same term are the
  same node.
\<close>

theorem election_safety:
  assumes "reachable M sm C" and "i \<in> M" and "j \<in> M"
    and "is_leader (nodes C i)" and "is_leader (nodes C j)"
    and "current_term (nodes C i) = current_term (nodes C j)"
  shows "i = j"
proof -
  from reachable_related [OF assms(1)] obtain w where R: "related M sm C w" by blast
  from leader_led [OF R assms(2,4)] leader_led [OF R assms(3,5)] assms(6) show ?thesis by simp
qed

theorem election_safety_witness:
  "is_leader (nodes cluster4 1) \<and> current_term (nodes cluster4 1) = current_term (nodes cluster4 2) \<and>
   \<not> is_leader (nodes cluster4 2)"
  using election_safety [OF reachable4, of 1 2] example_facts by auto

text \<open>
  C4. Log matching: if two nodes hold an entry with the same index and the same term, their logs are
  identical up to that index, as far as neither has compacted its log away.
\<close>

theorem log_matching:
  assumes "reachable M sm C" and "i \<in> M" and "j \<in> M"
    and "entry (storage (nodes C i)) k = Some e" and "entry (storage (nodes C j)) k = Some e'"
    and "entry_term e = entry_term e'" and "m \<le> k"
    and "snapshot_index (storage (nodes C i)) < m" and "snapshot_index (storage (nodes C j)) < m"
  shows "entry (storage (nodes C i)) m = entry (storage (nodes C j)) m"
proof -
  from reachable_related [OF assms(1)] obtain w where R: "related M sm C w" by blast
  note E = cluster_entry [OF R assms(2)] cluster_entry [OF R assms(3)]
  note W = inv_logsD(1) [OF relatedD(4) [OF R assms(2)]]
  from assms(4-6) E have k: "0 < k" "k - 1 < length (lg_of w i)" "k - 1 < length (lg_of w j)"
    "entry_term (lg_of w i ! (k - 1)) = entry_term (lg_of w j ! (k - 1))"
    by (auto simp: list_get_def split: if_splits)
  from log_matching_take [OF W W k(2-4)] k(1) have "take k (lg_of w i) = take k (lg_of w j)" by simp
  from list_get_prefix [OF this, of "m - 1"] assms(7-9) k show ?thesis by (simp add: E)
qed

theorem log_matching_witness:
  "entry (storage (nodes cluster4 1)) 2 = Some (two_entries ! 1) \<and>
   entry (storage (nodes cluster4 1)) 1 = entry (storage (nodes cluster4 2)) 1"
proof -
  have e: "entry (storage (nodes cluster4 l)) 2 = Some (two_entries ! 1)" if "l \<in> {1, 2}" for l
    using that example_facts by (auto simp: entry_eq list_get_def two_entries_def)
  show ?thesis using log_matching [OF reachable4 _ _ e e refl, of 1 2 1] e example_facts by simp
qed

text \<open>
  C2. State machine safety and durability: once a node has committed index \<open>k\<close>, the entry at \<open>k\<close> of every node
  that has committed \<open>k\<close>, then or at any later time (after any number of elections, crashes and
  restarts), is the same entry, and it is there unless the node has compacted it into its snapshot.
\<close>

theorem committed_entries_agree_forever:
  assumes "reachable M sm C" and "(cstep M sm)\<^sup>*\<^sup>* C C'" and "i \<in> M" and "j \<in> M"
    and "snapshot_index (storage (nodes C i)) < k" and "k \<le> commit_index (nodes C i)"
    and "snapshot_index (storage (nodes C' j)) < k" and "k \<le> commit_index (nodes C' j)"
  shows "\<exists>e. entry (storage (nodes C i)) k = Some e \<and> entry (storage (nodes C' j)) k = Some e"
proof -
  from reachable_related [OF assms(1)] obtain w where R: "related M sm C w" by blast
  from steps_related [OF R assms(2)] obtain w' where R': "related M sm C' w'"
    and st: "(wstep (is_majority M))\<^sup>*\<^sup>* w w'" by blast
  note A = committed_agree [OF R assms(3) R' assms(4) st assms(6,8)]
  from list_get_prefix [OF A(1), of "k - 1"] A(2,3) assms(5,7) show ?thesis
    by (auto simp: cluster_entry [OF R assms(3)] cluster_entry [OF R' assms(4)] list_get_def)
qed

theorem committed_entries_agree_forever_witness:
  "\<exists>e. entry (storage (nodes cluster4 1)) 2 = Some e \<and> entry (storage (nodes cluster4 2)) 2 = Some e"
  by (rule committed_entries_agree_forever [OF reachable4 rtranclp.rtrancl_refl])
    (use example_facts in simp_all)

text \<open>
  C3. Leader completeness: whatever a node has committed is in the log of every leader of the same or
  a later term, then and at any later time: the leader's log reaches that far, and the entry is the same
  unless one of them has compacted it into its snapshot.
\<close>

theorem leader_completeness:
  assumes "reachable M sm C" and "(cstep M sm)\<^sup>*\<^sup>* C C'" and "i \<in> M" and "l \<in> M"
    and "is_leader (nodes C' l)" and "current_term (nodes C i) \<le> current_term (nodes C' l)"
    and "k \<le> commit_index (nodes C i)"
  shows "k \<le> last_index (storage (nodes C' l)) \<and>
    (snapshot_index (storage (nodes C i)) < k \<longrightarrow> snapshot_index (storage (nodes C' l)) < k \<longrightarrow>
     entry (storage (nodes C' l)) k = entry (storage (nodes C i)) k)"
proof -
  from reachable_related [OF assms(1)] obtain w where R: "related M sm C w" by blast
  from steps_related [OF R assms(2)] obtain w' where R': "related M sm C' w'"
    and st: "(wstep (is_majority M))\<^sup>*\<^sup>* w w'" by blast
  note q = relatedD(1) [OF R assms(3)]
  from R have I: "inv (is_majority M) w" by (simp add: related_def)
  have S: "settled (is_majority M) w' (trm w i) (lg_of w i) k"
    using raft_quorums.settled_steps [OF q st I commit_settled [OF R assms(3)]] assms(7) settled_less by blast
  note L = leader_led [OF R' assms(4,5)]
  have A: "k \<le> length (lg_of w' l)" "take k (lg_of w' l) = take k (lg_of w i)"
    using raft_quorums.settled_led [OF q relatedD(5) [OF R' assms(4)] S L(1)] assms(6) L(2)
      related_sel(1) [OF R assms(3)] by simp_all
  have h: "holds_log (lg_of w' l) (storage (nodes C' l))"
    using relatedD(8) [OF R' assms(4)] by (simp add: node_ok_def)
  show ?thesis using list_get_prefix [OF A(2), of "k - 1"] A(1) settled_length [OF S] holds_logD(2) [OF h]
    by (auto simp: cluster_entry [OF R assms(3)] cluster_entry [OF R' assms(4)])
qed

theorem leader_completeness_witness:
  "is_leader (nodes cluster4 1) \<and> commit_index (nodes cluster4 2) = 2 \<and>
   entry (storage (nodes cluster4 1)) 2 = entry (storage (nodes cluster4 2)) 2"
  using leader_completeness [OF reachable4 rtranclp.rtrancl_refl, of 2 1 2] example_facts
  by simp

text \<open>
  C7. The replicas are one store at different points of one history. For any reachable state and any
  later one there is a list \<open>H\<close> of entries such that, in both states and on every node, the retained log up to
  the commit index is the slice of \<open>H\<close> at those indexes, and the state machine is the empty store with the
  first \<open>last_applied\<close> entries of \<open>H\<close> applied, however much of them was compacted, installed from a
  leader's snapshot or restored at a restart.
\<close>

theorem replicas_share_history:
  assumes "reachable M (kv_machine tv fv) C" and "(cstep M (kv_machine tv fv))\<^sup>*\<^sup>* C C'"
  shows "\<exists>H. \<forall>D \<in> {C, C'}. \<forall>i \<in> M.
    last_applied (nodes D i) \<le> commit_index (nodes D i) \<and> commit_index (nodes D i) \<le> length H \<and>
    (\<forall>k. snapshot_index (storage (nodes D i)) < k \<and> k \<le> commit_index (nodes D i) \<longrightarrow>
      entry (storage (nodes D i)) k = Some (H ! (k - 1))) \<and>
    sm_data (state_machine (nodes D i)) = apply_all kv_new (take (last_applied (nodes D i)) H)"
proof -
  from reachable_related [OF assms(1)] obtain w where R: "related M (kv_machine tv fv) C w" by blast
  from steps_related [OF R assms(2)] obtain w' where R': "related M (kv_machine tv fv) C' w'"
    and st: "(wstep (is_majority M))\<^sup>*\<^sup>* w w'" by blast
  from common_history [OF R R' st] obtain H where
    H: "\<forall>(D, v) \<in> {(C, w), (C', w')}. \<forall>i \<in> M. commit_index (nodes D i) \<le> length H \<and>
      take (commit_index (nodes D i)) H = take (commit_index (nodes D i)) (lg_of v i)" by blast
  show ?thesis
  proof (intro exI [of _ H] ballI)
    fix D i assume D: "D \<in> {C, C'}" and i: "i \<in> M"
    from D R R' obtain v where v: "(D, v) \<in> {(C, w), (C', w')}" "related M (kv_machine tv fv) D v" by blast
    from H v(1) i have h: "commit_index (nodes D i) \<le> length H"
      "take (commit_index (nodes D i)) H = take (commit_index (nodes D i)) (lg_of v i)" by blast+
    note E = history_entries [OF v(2) i h]
    have "sm_data (state_machine (nodes D i)) = apply_all kv_new (take (last_applied (nodes D i)) H)"
      unfolding E(3) by (rule replay_kv)
    with E(1,2) h(1) show "last_applied (nodes D i) \<le> commit_index (nodes D i) \<and> commit_index (nodes D i) \<le> length H \<and>
        (\<forall>k. snapshot_index (storage (nodes D i)) < k \<and> k \<le> commit_index (nodes D i) \<longrightarrow>
          entry (storage (nodes D i)) k = Some (H ! (k - 1))) \<and>
        sm_data (state_machine (nodes D i)) = apply_all kv_new (take (last_applied (nodes D i)) H)" by blast
  qed
qed

theorem replicas_share_history_witness:
  "\<exists>H. take 2 H = two_entries \<and> sm_data (state_machine (nodes cluster4 1)) = apply_all kv_new (take 2 H) \<and>
    kv_get (sm_data (state_machine (nodes cluster4 1))) ''k'' = Some 5"
proof -
  obtain H where H: "2 \<le> length H" "entry (storage (nodes cluster4 1)) 1 = Some (H ! 0)"
    "entry (storage (nodes cluster4 1)) 2 = Some (H ! 1)"
    "sm_data (state_machine (nodes cluster4 1)) = apply_all kv_new (take 2 H)"
    using replicas_share_history [OF reachable4 [unfolded example_machine_def] rtranclp.rtrancl_refl]
      example_facts by force
  have "H ! 0 = two_entries ! 0" "H ! 1 = two_entries ! 1"
    using H(2,3) example_facts by (simp_all add: entry_eq list_get_def two_entries_def)
  then have "take 2 H = two_entries" by (rule take_two [OF H(1)])
  moreover from this H(4) have "kv_get (sm_data (state_machine (nodes cluster4 1))) ''k'' = Some 5"
    by (auto simp: two_entries_def put_cmd_def apply_entry_def already_applied_def kv_new_def kv_put_def kv_get_def
        record_applied_def)
  ultimately show ?thesis using H(4) by metis
qed

text \<open>
  C8. Exactly once, end to end: in every reachable state there is one history \<open>H\<close>, of which every retained
  committed entry is an element, such that on every replica, as long as clients keep the contract of the
  dedup window, the map is what the specification that remembers every token computes from the applied
  prefix of \<open>H\<close>. The contract is the documented one: in the applied prefix no token is 64 or more
  below one that its client has used before it (\<open>window_ok\<close>).
\<close>

theorem replicas_refine_dedup_spec:
  assumes "reachable M (kv_machine tv fv) C"
  shows "\<exists>H. \<forall>i \<in> M. last_applied (nodes C i) \<le> length H \<and>
    (\<forall>k. snapshot_index (storage (nodes C i)) < k \<and> k \<le> commit_index (nodes C i) \<longrightarrow>
      entry (storage (nodes C i)) k = Some (H ! (k - 1))) \<and>
    (window_ok [] (take (last_applied (nodes C i)) H) \<longrightarrow>
      kv_map (sm_data (state_machine (nodes C i))) =
        fst (foldl spec_apply (Map.empty, {}) (take (last_applied (nodes C i)) H)))"
proof -
  from reachable_related [OF assms(1)] obtain w where R: "related M (kv_machine tv fv) C w" by blast
  from common_history [OF R R rtranclp.rtrancl_refl] obtain H where
    H: "\<forall>i \<in> M. commit_index (nodes C i) \<le> length H \<and>
      take (commit_index (nodes C i)) H = take (commit_index (nodes C i)) (lg_of w i)" by auto
  have spec: "kv_map (apply_all kv_new es) = fst (foldl spec_apply (Map.empty, {}) es)" if "window_ok [] es"
    for es :: "'a log_entry list"
    by (rule apply_all_refines [of _ "[]"]) (use that in \<open>simp_all add: kv_new_def sessions_abs_def seqs_of_def\<close>)
  show ?thesis
  proof (intro exI [of _ H] ballI)
    fix i assume i: "i \<in> M"
    with H have h: "commit_index (nodes C i) \<le> length H"
      "take (commit_index (nodes C i)) H = take (commit_index (nodes C i)) (lg_of w i)" by blast+
    note E = history_entries [OF R i h]
    have "sm_data (state_machine (nodes C i)) = apply_all kv_new (take (last_applied (nodes C i)) H)"
      unfolding E(3) by (rule replay_kv)
    with spec [of "take (last_applied (nodes C i)) H"] E(1,2) h(1)
    show "last_applied (nodes C i) \<le> length H \<and>
        (\<forall>k. snapshot_index (storage (nodes C i)) < k \<and> k \<le> commit_index (nodes C i) \<longrightarrow>
          entry (storage (nodes C i)) k = Some (H ! (k - 1))) \<and>
        (window_ok [] (take (last_applied (nodes C i)) H) \<longrightarrow>
          kv_map (sm_data (state_machine (nodes C i))) =
            fst (foldl spec_apply (Map.empty, {}) (take (last_applied (nodes C i)) H)))" by simp
  qed
qed

theorem replicas_refine_dedup_spec_witness:
  "kv_map (sm_data (state_machine (nodes cluster4 2))) = fst (foldl spec_apply (Map.empty, {}) two_entries)"
proof -
  obtain H where H: "2 \<le> length H" "entry (storage (nodes cluster4 2)) 1 = Some (H ! 0)"
    "entry (storage (nodes cluster4 2)) 2 = Some (H ! 1)"
    "window_ok [] (take 2 H) \<longrightarrow> kv_map (sm_data (state_machine (nodes cluster4 2))) =
        fst (foldl spec_apply (Map.empty, {}) (take 2 H))"
    using replicas_refine_dedup_spec [OF reachable4 [unfolded example_machine_def]] example_facts by force
  have "H ! 0 = two_entries ! 0" "H ! 1 = two_entries ! 1"
    using H(2,3) example_facts by (simp_all add: entry_eq list_get_def two_entries_def)
  then have "take 2 H = two_entries" by (rule take_two [OF H(1)])
  moreover have "window_ok [] two_entries" by (simp add: two_entries_def put_cmd_def seqs_of_def tokens_of_def)
  ultimately show ?thesis using H(4) by simp
qed

text \<open>
  C5. The cluster of the implemented nodes refines the Raft protocol: every reachable state of the cluster
  is the image of a world the protocol reaches from its initial world, and whatever the cluster
  does next, the protocol can do.
\<close>

theorem cluster_refines_protocol:
  assumes "reachable M sm C"
  shows "\<exists>w. (wstep (is_majority M))\<^sup>*\<^sup>* winit w \<and> (\<forall>i. i \<in> M \<longrightarrow> embodies (nodes C i) (procs w i)) \<and>
    (\<forall>C'. (cstep M sm)\<^sup>*\<^sup>* C C' \<longrightarrow>
      (\<exists>w'. (wstep (is_majority M))\<^sup>*\<^sup>* w w' \<and> (\<forall>i. i \<in> M \<longrightarrow> embodies (nodes C' i) (procs w' i))))"
proof -
  from reachable_related [OF assms] obtain w where R: "related M sm C w" by blast
  have "\<exists>w'. (wstep (is_majority M))\<^sup>*\<^sup>* w w' \<and> (\<forall>i. i \<in> M \<longrightarrow> embodies (nodes C' i) (procs w' i))"
    if "(cstep M sm)\<^sup>*\<^sup>* C C'" for C'
    using steps_related [OF R that] related_embodies by blast
  with R related_embodies [OF R] show ?thesis by (auto simp: related_def)
qed

theorem cluster_refines_protocol_witness:
  "\<exists>w. (wstep (is_majority {1, 2, 3}))\<^sup>*\<^sup>* winit w \<and> p_role (procs w 1) = PLeader \<and>
     p_log (procs w 2) = two_entries \<and> p_commit (procs w 2) = 2"
proof -
  obtain w where w: "(wstep (is_majority {1, 2, 3}))\<^sup>*\<^sup>* winit w" "embodies (nodes cluster4 1) (procs w 1)"
    "embodies (nodes cluster4 2) (procs w 2)" using cluster_refines_protocol [OF reachable4] by blast
  have "p_role (procs w 1) = PLeader" using w(2) example_facts leader_role unfolding embodies_def by metis
  moreover have "p_commit (procs w 2) = 2" using w(3) example_facts unfolding embodies_def
    by (metis absp_sel(5))
  moreover have "p_log (procs w 2) = two_entries"
    using w(3) example_facts by (auto simp: embodies_def holds_log_def)
  ultimately show ?thesis using w(1) by blast
qed

text \<open>
  C6. No panic in \<^verbatim>\<open>node.rs\<close>: in every reachable state, every enabled turn of every node and every delivery of a request
  that was ever sent runs to completion: no \<^verbatim>\<open>expect\<close>, assertion, slice bound or subtraction fails, and every request
  is answered. Nor does \<^verbatim>\<open>spawn\<close> fail on the storage of a node between two turns, or on any storage that a crash in the
  middle of the turn leaves (\<open>left_by\<close>), the snapshot of an installation over the log it was to replace
  included. Whether the files open is not part of this; it is the matter of \<^verbatim>\<open>Storage_Crash\<close> and \<^verbatim>\<open>Boot\<close>.
\<close>

theorem cluster_never_panics:
  assumes "reachable M sm C" and "i \<in> M"
  shows "(turn_enabled C i t \<longrightarrow> (\<exists>go rep n. take_turn now t (drained (nodes C i)) = Inr (go, rep, n) \<and>
      (\<forall>r ch. t = Rpc r ch \<longrightarrow> (\<exists>a. rep = Some (ch, a))) \<and>
      (\<forall>fx gx d now'. effects n = fx @ gx \<and> left_by fx gx d \<longrightarrow> (\<exists>n'. spawn now' (config n) d sm = Inr n')))) \<and>
    (\<exists>n. spawn now (config (nodes C i)) (storage (nodes C i)) sm = Inr n)"
proof -
  from reachable_related [OF assms(1)] obtain w where R: "related M sm C w" by blast
  have turn: "\<exists>go rep n. take_turn now t (drained (nodes C i)) = Inr (go, rep, n) \<and>
      (\<forall>r ch. t = Rpc r ch \<longrightarrow> (\<exists>a. rep = Some (ch, a)))" if t: "turn_enabled C i t"
  proof (cases "\<exists>r ch. t = Rpc r ch")
    case True
    then obtain r ch where r: "t = Rpc r ch" by blast
    with t obtain c x where "(c, i, r, x) \<in> wire C" by (auto simp: turn_enabled_def)
    from take_rpc_ok [OF R assms(2) this, of now ch] r show ?thesis by (auto simp: wp_empty_iff)
  next
    case False
    with take_turn_ok [OF R assms(2) t, of now] show ?thesis by (auto simp: wp_empty_iff)
  qed
  have crash: "\<exists>n'. spawn now' (config n) d sm = Inr n'"
    if t: "turn_enabled C i t" "take_turn now t (drained (nodes C i)) = Inr (go, rep, n)"
      and l: "effects n = fx @ gx \<and> left_by fx gx d" for go rep n fx gx d now'
  proof -
    from turn_runs [OF R assms(2) t] obtain L s where "runs M sm w i L n s" by blast
    from left_by_spawns [OF this conjunct1 [OF l] conjunct2 [OF l]] show ?thesis by blast
  qed
  have "\<exists>n. spawn now (config (nodes C i)) (storage (nodes C i)) sm = Inr n"
    using spawn_at [OF runs_at [OF runs_start [OF R assms(2)]], of now] by (auto simp: drained_def)
  with turn crash show ?thesis by meson
qed

theorem cluster_never_panics_witness:
  "\<exists>go rep n. take_turn 7 HeartbeatTimer (drained (nodes cluster4 1)) = Inr (go, rep, n)"
  using cluster_never_panics [OF reachable4, of 1 HeartbeatTimer 7] example_facts by (auto simp: turn_enabled_def)

end
