(* ===== verification/Clients.thy ===== *)
theory Clients
  imports Steady Cluster_Safety
begin

section \<open>What clients of the cluster can rely on\<close>

text \<open>
  The two promises of \<^verbatim>\<open>RaftHandle\<close> that take the whole cluster to keep: a read that is granted sees everything
  that was committed anywhere when it was issued, and a proposal that is reported committed stays in the history of
  every replica. Each combines the invariant \<open>steady\<close> of single nodes, followed along the steps of the cluster,
  with the invariant of the protocol.
\<close>

subsection \<open>Watching every node\<close>

text \<open>The rounds of AppendEntries a node ever sent are on the wire; the replies it may get are about those rounds.\<close>

definition sent_of :: "('v, 'sm) cluster \<Rightarrow> node_id \<Rightarrow> (term_no \<times> nat) set" where
  "sent_of C i = {(t, q). \<exists>j r a k. (i, j, r, AppendCtx t a k q) \<in> wire C}"

definition tracked :: "('v, 'sm) cluster \<Rightarrow> node_id \<Rightarrow> watchlist \<Rightarrow> bool" where
  "tracked C i K \<longleftrightarrow> steady (K\<lparr>wl_sent := sent_of C i\<rparr>) (nodes C i) \<and>
     (\<forall>e. (i, e) \<in> mail C \<longrightarrow> acks_ok (K\<lparr>wl_sent := sent_of C i\<rparr>) e)"

text \<open>One list per node; a node whose term was already past the watched term of another cannot acknowledge in that
  term.\<close>

definition watches :: "node_id set \<Rightarrow> (node_id \<Rightarrow> watchlist) \<Rightarrow> bool" where
  "watches M K \<longleftrightarrow> (\<forall>i \<in> M. wl_self (K i) = i \<and> wl_members (K i) = M \<and>
     (\<forall>j \<in> M. wl_floor (K j) \<le> wl_term (K i) \<longrightarrow> j \<in> wl_fresh (K i)))"

lemma steady_drained: "steady K n \<Longrightarrow> steady K (drained n)"
  unfolding steady_def drained_def appends_def by (simp add: current_term_def)

lemma steady_sent:
  assumes "steady (K\<lparr>wl_sent := S\<rparr>) n" and "S' \<subseteq> S \<union> appends n"
  shows "steady (K\<lparr>wl_sent := S'\<rparr>) n"
proof -
  have "leader_steady (K\<lparr>wl_sent := S'\<rparr>) = leader_steady (K\<lparr>wl_sent := S\<rparr>)"
    by (intro ext) (simp add: leader_steady_def)
  moreover have "wl_quorum (K\<lparr>wl_sent := S'\<rparr>) = wl_quorum (K\<lparr>wl_sent := S\<rparr>)" by (simp add: wl_quorum_def)
  ultimately show ?thesis using assms unfolding steady_def by auto
qed

lemma acks_ok_mono: "acks_ok (K\<lparr>wl_sent := S\<rparr>) e \<Longrightarrow> S \<subseteq> S' \<Longrightarrow> acks_ok (K\<lparr>wl_sent := S'\<rparr>) e"
  by (auto simp: acks_ok_def ack_ok_def split: event.splits sum.splits rpc_response.splits)

lemma appends_posted: "appends n = {(t, q). \<exists>j r a k. (i, j, r, AppendCtx t a k q) \<in> posted i n}"
  by (auto simp: appends_def posted_def)

lemma sent_of_posted:
  assumes "wire C' = wire C \<union> posted i n"
  shows "sent_of C' j = sent_of C j \<union> (if j = i then appends n else {})"
  unfolding sent_of_def appends_def assms by (auto simp: posted_def)

text \<open>A step of node \<open>i\<close> that keeps its own list, with the replies it mails.\<close>

lemma tracked_move:
  assumes n: "\<And>j. j \<in> M \<Longrightarrow> steady ((K j)\<lparr>wl_sent := sent_of C j\<rparr>) (nodes C' j)"
    and w: "wire C' = wire C \<union> posted i (nodes C' i)"
    and m: "\<And>j e. j \<in> M \<Longrightarrow> (j, e) \<in> mail C' \<Longrightarrow> acks_ok ((K j)\<lparr>wl_sent := sent_of C j\<rparr>) e"
  shows "\<forall>j \<in> M. tracked C' j (K j)"
proof
  fix j assume j: "j \<in> M"
  note S = sent_of_posted [OF w, of j]
  have "steady ((K j)\<lparr>wl_sent := sent_of C' j\<rparr>) (nodes C' j)"
    using S by (intro steady_sent [OF n [OF j]]) auto
  moreover have "acks_ok ((K j)\<lparr>wl_sent := sent_of C' j\<rparr>) e" if "(j, e) \<in> mail C'" for e
    using S by (intro acks_ok_mono [OF m [OF j that]]) auto
  ultimately show "tracked C' j (K j)" by (simp add: tracked_def)
qed

lemma turn_tracked:
  assumes "related M sm C w" and "i \<in> M" and "watches M K" and "tracked C i (K i)" and "turn_enabled C i t"
    and "take_turn now t (drained (nodes C i)) = Inr (go, a, n)"
  shows "steady ((K i)\<lparr>wl_sent := sent_of C i\<rparr>) n" and "a = Some (ch, rep) \<Longrightarrow> reply_ok (K i) rep"
proof -
  let ?K = "(K i)\<lparr>wl_sent := sent_of C i\<rparr>"
  have s: "steady ?K (drained (nodes C i))" using assms(4) by (simp add: tracked_def steady_drained)
  have m: "fset (fmdom (members (drained (nodes C i)))) = wl_members ?K"
    using relatedD(8) [OF assms(1,2)] assms(2,3) by (simp add: node_ok_def watches_def drained_def)
  have t: "turn_steady ?K t" using assms(4,5)
    by (auto simp: turn_steady_def turn_enabled_def tracked_def split: turn.splits control.splits)
  note T = take_turn_steady [OF assms(6) s m t]
  show "steady ?K n" by (rule T(1))
  show "reply_ok (K i) rep" if "a = Some (ch, rep)" using T(2) [OF that] by (simp add: reply_ok_def split: rpc_response.splits)
qed

text \<open>A restart forgets every waiter. A batch that was sent before a crash is of a term that is on the disk.\<close>

lemma spawn_fresh:
  "spawn now c st sm = Inr n \<Longrightarrow> config n = c \<and> storage n = st \<and> role n = Follower \<and>
    last_applied n = commit_index n \<and> effects n = [] \<and> pending n = []"
  by (auto simp: spawn_def bind_r_Inr_iff reset_election_timer_def Let_def split: option.splits prod.splits if_splits)

lemma restart_tracked:
  assumes "spawn now (config m) (storage m) sm = Inr n"
    and "steady K m" and "wl_read K = None" and "wl_write K = None"
  shows "steady K n"
proof -
  note n = spawn_fresh [OF assms(1)]
  then show ?thesis using steadyD(1,3,5) [OF assms(2)] assms(3,4)
    by (intro steadyI) (auto simp: sent_by_def current_term_def appends_def)
qed

lemma sent_term:
  assumes R: "related M sm C w" and a: "at_run M sm w i L n s" and f: "fx_ok sm s i (SendRpc p r (AppendCtx t b k q))"
  shows "t \<le> current_term n"
proof -
  let ?w = "put w i (absp L n) s"
  note Q = majority_locale [of M]
  from f have m: "MLead t i \<in> ms ?w" by (cases r) auto
  have st: "(wstep (is_majority M))\<^sup>*\<^sup>* winit ?w" "finite M"
    using R a by (auto simp: related_def at_run_def elim: rtranclp_trans)
  from raft_quorums.lead_led [OF Q st(1) raft_quorums.inv_init [OF Q] m] st(2) obtain L' where "ld ?w t = Some (i, L')"
    by (auto simp: winit_def)
  moreover from at_run_inv [OF a] have "inv_led (is_majority M) ?w" by (simp add: inv_def)
  ultimately show ?thesis using inv_ledD(2) [of "is_majority M" ?w t i L'] by simp
qed

lemma crash_tracked:
  assumes R: "related M sm C w" and i: "i \<in> M" and r: "runs M sm w i L n s" and e: "effects n = fx @ gx"
    and l: "left_whole fx gx d" and n': "spawn now (config n) d sm = Inr n'"
    and K: "steady K (nodes C i)" "wl_read K = None" "wl_write K = None"
  shows "steady K (n'\<lparr>effects := fx\<rparr>)"
proof -
  let ?n = "n'\<lparr>effects := fx\<rparr>"
  from crash_left [OF r e l] obtain L' m s' where a: "at_run M sm w i L' m s'" "storage m = d" "config m = config n"
    "\<forall>e \<in> set fx. fx_ok sm s' i e" by metis
  note n = spawn_fresh [OF n'] and D = steadyD [OF K(1)] and Q = relatedD [OF R i]
  have t: "current_term ?n = current_term m" using n a(2) by (simp add: current_term_def)
  have "trm w i \<le> current_term m"
    using raft_quorums.steps_term [OF Q(1), of w "put w i (absp L' m) s'" i] a(1) by (simp add: at_run_def)
  then have up: "current_term (nodes C i) \<le> current_term ?n" using Q(7) t by (metis absp_sel(1))
  have id: "cfg_id (config ?n) = wl_self K"
    using D(1) Q(8) a(1,3) n by (simp add: at_run_def node_ok_def static_config_def)
  have "u \<le> current_term ?n" if "(u, q) \<in> wl_sent K \<union> appends ?n" for u q
    using that D(5) [of u q] up t sent_term [OF R a(1)] a(4) by (fastforce simp: appends_def)
  then show ?thesis using id up D(3) n K(2,3) by (intro steadyI) (auto simp: sent_by_def)
qed

lemma step_tracked:
  assumes R: "related M sm C w" and K: "watches M K" and T: "\<forall>i \<in> M. tracked C i (K i)"
    and st: "cstep_in U M sm C C'" and U: "\<And>i. i \<in> U \<Longrightarrow> wl_read (K i) = None \<and> wl_write (K i) = None"
  shows "\<forall>i \<in> M. tracked C' i (K i)"
  using st
proof cases
  case (c_turn i t now go n)
  from turn_tracked(1) [OF R c_turn(2) K _ c_turn(3,4)] T c_turn(2)
  show ?thesis by (intro tracked_move [of M C K C' i]) (use c_turn(1) T in \<open>auto simp: tracked_def\<close>)
next
  case (c_rpc i c r x now ch go a n)
  have "turn_enabled C i (Rpc r ch)" using c_rpc(3) by (auto simp: turn_enabled_def)
  note P = turn_tracked [OF R c_rpc(2) K _ this c_rpc(4)]
  have "acks_ok ((K c)\<lparr>wl_sent := sent_of C c\<rparr>) (event_of x i (Inr a))" if "c \<in> M"
  proof (cases x)
    case (AppendCtx t p k q)
    have "(t, q) \<in> sent_of C c" using c_rpc(3) AppendCtx by (auto simp: sent_of_def)
    then show ?thesis using P(2) [OF _ refl] T K c_rpc(2) that AppendCtx
      by (fastforce simp: acks_ok_def ack_ok_def reply_ok_def watches_def split: rpc_response.splits)
  qed (auto simp: acks_ok_def)
  then show ?thesis using P(1) T c_rpc(2) 
    by (intro tracked_move [of M C K C' i]) (use c_rpc(1) T in \<open>auto simp: tracked_def\<close>)
next
  case (c_lost c j r x err)
  have "acks_ok K' (event_of x j (Inl err))" for K' by (cases x) (simp_all add: acks_ok_def)
  then show ?thesis using T c_lost(1) by (auto simp: tracked_def sent_of_def)
next
  case (c_restart i now n)
  have "steady ((K i)\<lparr>wl_sent := sent_of C i\<rparr>) (nodes C i)" using T c_restart(2) by (simp add: tracked_def)
  from restart_tracked [OF c_restart(4) this] U [OF c_restart(3)] have "steady ((K i)\<lparr>wl_sent := sent_of C i\<rparr>) n" by simp
  moreover have "posted i n = {}" using spawn_fresh [OF c_restart(4)] by (auto simp: posted_def)
  ultimately show ?thesis 
    by (intro tracked_move [of M C K C' i]) (use c_restart(1) T in \<open>auto simp: tracked_def\<close>)
next
  case (c_crash i t now go rep n fx gx d now' n')
  from turn_runs [OF R c_crash(2,4,5)] obtain L s where r: "runs M sm w i L n s" by blast
  have "steady ((K i)\<lparr>wl_sent := sent_of C i\<rparr>) (nodes C i)" using T c_crash(2) by (simp add: tracked_def)
  from crash_tracked [OF R c_crash(2) r c_crash(6,7,8) this] U [OF c_crash(3)]
  have "steady ((K i)\<lparr>wl_sent := sent_of C i\<rparr>) (n'\<lparr>effects := fx\<rparr>)" by simp
  then show ?thesis
    by (intro tracked_move [of M C K C' i]) (use c_crash(1) T in \<open>auto simp: tracked_def\<close>)
qed

lemma steps_tracked:
  assumes "related M sm C w" and "watches M K" and "\<forall>i \<in> M. tracked C i (K i)" and "(cstep_in U M sm)\<^sup>*\<^sup>* C C'"
    and "\<And>i. i \<in> U \<Longrightarrow> wl_read (K i) = None \<and> wl_write (K i) = None"
  shows "\<forall>i \<in> M. tracked C' i (K i)"
  using assms(4)
proof (induction rule: rtranclp_induct)
  case base
  then show ?case by (rule assms(3))
next
  case (step D D')
  from steps_related [OF assms(1) steps_in [OF step(1)]] obtain v where "related M sm D v" by blast
  from step_tracked [OF this assms(2) step(3,2) assms(5)] show ?case .
qed

text \<open>Nothing watched in particular: this holds of every reachable cluster.\<close>

definition idle_watch :: "node_id set \<Rightarrow> node_id \<Rightarrow> watchlist" where
  "idle_watch M i = \<lparr>wl_self = i, wl_members = M, wl_floor = 0, wl_sent = {}, wl_term = 0, wl_seq = 0, wl_fresh = UNIV,
     wl_read = None, wl_index = 0, wl_write = None, wl_entry = (0, 0)\<rparr>"

lemma idle_tracked: "reachable M sm C \<Longrightarrow> \<forall>i \<in> M. tracked C i (idle_watch M i)"
proof (induction rule: reachable.induct)
  case (r_init C)
  have "steady ((idle_watch M i)\<lparr>wl_sent := {}\<rparr>) (nodes C i)" if i: "i \<in> M" for i
  proof -
    from r_init(2) i obtain now c where c: "static_config M i c" "spawn now c empty_storage sm = Inr (nodes C i)" by blast
    note spawn_fresh [OF c(2)]
    then show ?thesis using c(1) by (simp add: steady_def idle_watch_def appends_def static_config_def)
  qed
  then show ?case using r_init(3,4) by (simp add: tracked_def sent_of_def)
next
  case (r_step C C')
  from reachable_related [OF r_step(1)] obtain w where "related M sm C w" by blast
  from step_tracked [OF this _ r_step(3,2)] show ?case by (simp add: watches_def idle_watch_def)
qed

subsection \<open>The immediate answers of a turn\<close>

fun is_answer :: "'v effect \<Rightarrow> bool" where
  "is_answer (ReplyPropose c x) = True"
| "is_answer (ReplyRead c x) = True"
| "is_answer e = False"

definition answers :: "('v, 'sm) raft_node \<Rightarrow> 'v effect list" where
  "answers n = filter is_answer (effects n)"

definition answering :: "'v effect list \<Rightarrow> 'e + ('v, 'sm) raft_node \<Rightarrow> bool" where
  "answering xs m \<longleftrightarrow> wp UNIV m (\<lambda>n. answers n = xs)"

lemma answers_update [simp]:
  "answers (n\<lparr>storage := a\<rparr>) = answers n" "answers (n\<lparr>state_machine := b\<rparr>) = answers n"
  "answers (n\<lparr>last_applied := c\<rparr>) = answers n" "answers (n\<lparr>staged_snapshot := d\<rparr>) = answers n"
  "answers (n\<lparr>commit_index := c\<rparr>) = answers n" "answers (n\<lparr>role := r\<rparr>) = answers n"
  "answers (n\<lparr>leader_id := e\<rparr>) = answers n" "answers (n\<lparr>next_chan := f\<rparr>) = answers n"
  "answers (n\<lparr>pending := g\<rparr>) = answers n" "answers (n\<lparr>rng := h\<rparr>) = answers n"
  "answers (n\<lparr>election_deadline := i\<rparr>) = answers n" "answers (n\<lparr>membership_tx := k\<rparr>) = answers n"
  by (simp_all add: answers_def)

lemma answers_emit [simp]: "answers (emit fx n) = answers n @ filter is_answer fx"
  by (simp add: answers_def emit_def)

lemma answering_ret: "answers n = xs \<Longrightarrow> answering xs (Inr n)"
  by (simp add: answering_def wp_rules)

lemma answering_err: "answering xs (Inl e)"
  by (simp add: answering_def wp_rules)

lemma answering_bind: "answering xs m \<Longrightarrow> (\<And>n. answers n = xs \<Longrightarrow> answering xs (f n)) \<Longrightarrow> answering xs (bind_r m f)"
  unfolding answering_def wp_bind by (erule wp_mono)

lemma answering_store: "answers n = xs \<Longrightarrow> answering xs (store m n)"
  by (cases m) (auto simp: store_def answering_def wp_rules)

lemma answering_send_append: "answers n = xs \<Longrightarrow> answering xs (send_append p n)"
  unfolding send_append_def send_install_snapshot_def Let_def
  by (auto split: role.splits option.splits intro!: answering_ret answering_err)

lemma answering_send_all: "answers n = xs \<Longrightarrow> answering xs (seq_r send_append ps n)"
  unfolding answering_def by (rule wp_seq_r) (rule answering_send_append [unfolded answering_def])

lemma answers_resolve: "answers (resolve_pending n) = answers n" "answers (resolve_reads n) = answers n"
proof -
  have "filter is_answer (concat (map (\<lambda>p. case pending_outcome n p of Some b \<Rightarrow> [Committed p b] | None \<Rightarrow> []) ps)) = []" for ps
    by (induction ps) (auto split: option.splits)
  then show "answers (resolve_pending n) = answers n" by (simp add: resolve_pending_def)
  show "answers (resolve_reads n) = answers n" by (auto simp: resolve_reads_def filter_map comp_def split: role.splits)
qed

lemma answering_maybe_compact: "answers n = xs \<Longrightarrow> answering xs (maybe_compact n)"
  unfolding maybe_compact_def Let_def
  by (auto split: option.splits prod.splits intro!: answering_bind answering_ret answering_err answering_store)

lemma answers_apply_loop: "apply_loop n = Inr n' \<Longrightarrow> answers n' = answers n"
proof (induction n rule: apply_loop.induct)
  case (1 n)
  then show ?case by (subst (asm) (2) apply_loop.simps) (auto split: if_splits option.splits)
qed

lemma answering_apply_committed: "answers n = xs \<Longrightarrow> answering xs (apply_committed n)"
  unfolding apply_committed_def
  by (rule answering_bind [OF _ answering_maybe_compact])
    (simp_all add: answers_resolve answering_def wp_UNIV_iff answers_apply_loop)

lemma answering_become_follower:
  fixes n :: "('v, 'sm) raft_node"
  shows "answers n = xs \<Longrightarrow> answering xs (become_follower now t lid n)"
proof -
  have d: "filter is_answer (dropped_reads r) = []" for r by (auto simp: dropped_reads_def filter_map comp_def split: role.splits)
  have t: "answering xs (reset_election_timer now n)" if "answers n = xs" for n :: "('v, 'sm) raft_node"
    using that by (auto simp: reset_election_timer_def Let_def split: if_splits option.splits intro!: answering_ret answering_err)
  assume "answers n = xs"
  then have i: "answering xs (if b then store m n else Inr n)" for b m by (simp add: answering_store answering_ret)
  have p: "answers (publish_membership m) = answers m" for m :: "('v, 'sm) raft_node"
    by (simp add: publish_membership_def Let_def)
  show ?thesis
  proof (cases "t < current_term n")
    case False
    show ?thesis unfolding become_follower_def Let_def if_not_P [OF False]
      by (rule answering_bind [OF i], rule t) (simp add: d p)
  qed (simp add: become_follower_def answering_err)
qed

lemma answering_maybe_advance_commit: "answers n = xs \<Longrightarrow> answering xs (maybe_advance_commit now n)"
  unfolding maybe_advance_commit_def advance_to_majority_def Let_def
  by (auto split: role.splits intro!: answering_bind answering_ret answering_apply_committed answering_become_follower)

lemma read_answer:
  assumes "role n = Leader l" and "handle_read ch (drained n) = Inr n'" and "ReplyRead ch (Inr g) \<in> set (effects n')"
  shows "g = next_chan n"
proof -
  let ?n = "drained n"
  have "role ?n = Leader l" using assms(1) by (simp add: drained_def)
  note eq = handle_read_eq [OF this, of ch]
  have "answering [ReplyRead ch (Inr (next_chan n))] (handle_read ch ?n)" unfolding eq
    by (intro answering_bind answering_send_all answering_ret) (auto simp: answers_resolve, simp_all add: answers_def drained_def)
  with assms(2) have "answers n' = [ReplyRead ch (Inr (next_chan n))]" by (simp add: answering_def wp_rules)
  moreover have "ReplyRead ch (Inr g) \<in> set (answers n')" using assms(3) by (simp add: answers_def)
  ultimately show ?thesis by simp
qed

subsection \<open>Reads\<close>

lemma steady_floor: "steady K n \<Longrightarrow> f \<le> current_term n \<Longrightarrow> steady (K\<lparr>wl_floor := f\<rparr>) n"
  unfolding steady_def leader_steady_def wl_quorum_def by simp

text \<open>The lists from the moment a read is registered: the peers that may acknowledge its round are those whose term
  was not past the leader's then.\<close>

definition read_watch :: "node_id set \<Rightarrow> ('v, 'sm) cluster \<Rightarrow> node_id \<Rightarrow> leader_state \<Rightarrow> node_id \<Rightarrow> watchlist" where
  "read_watch M C l ls i = (if i = l
     then (idle_watch M l)\<lparr>wl_floor := current_term (nodes C l), wl_term := current_term (nodes C l),
       wl_seq := heartbeat_seq ls + 1, wl_fresh := {j. current_term (nodes C j) \<le> current_term (nodes C l)},
       wl_read := Some (next_chan (nodes C l)), wl_index := max (commit_index (nodes C l)) (term_start_index ls)\<rparr>
     else (idle_watch M i)\<lparr>wl_floor := current_term (nodes C i)\<rparr>)"

lemma read_watches: "watches M (read_watch M C l ls)"
  by (auto simp: watches_def read_watch_def idle_watch_def)

lemma read_tracked:
  assumes "reachable M sm C" and "l \<in> M" and "role (nodes C l) = Leader ls"
    and "handle_read ch (drained (nodes C l)) = Inr n"
    and C': "nodes C' = (nodes C)(l := n)" "wire C' = wire C \<union> posted l n" "mail C' = mail C"
  shows "\<forall>i \<in> M. tracked C' i (read_watch M C l ls i)"
proof (rule tracked_move [of _ C _ _ l])
  let ?K = "read_watch M C l ls" and ?I = "\<lambda>i. (idle_watch M i)\<lparr>wl_sent := sent_of C i\<rparr>" and ?n = "drained (nodes C l)"
  have d: "role ?n = role (nodes C l)" "current_term ?n = current_term (nodes C l)" "\<forall>e \<in> set (effects ?n). quiet e"
    "next_chan ?n = next_chan (nodes C l)" "commit_index ?n = commit_index (nodes C l)"
    by (simp_all add: drained_def current_term_def)
  have I: "steady (?I i) (nodes C i)" "\<And>e. (i, e) \<in> mail C \<Longrightarrow> acks_ok (?I i) e" if "i \<in> M" for i
    using idle_tracked [OF assms(1)] that by (auto simp: tracked_def)
  have l: "steady ((?K l)\<lparr>wl_sent := sent_of C l\<rparr>) n"
  proof -
    have "steady ((?I l)\<lparr>wl_floor := current_term ?n\<rparr>) ?n"
      by (intro steady_floor steady_drained I assms(2)) simp
    from keeps_read_registered [OF steady_watch_read [OF this, of ls "{j. current_term (nodes C j) \<le> current_term (nodes C l)}"],
        of ch] assms(3,4) d
    show ?thesis by (simp add: keeps_def wp_rules read_watch_def idle_watch_def)
  qed
  show "steady ((?K j)\<lparr>wl_sent := sent_of C j\<rparr>) (nodes C' j)" if "j \<in> M" for j
    using l steady_floor [OF I(1) [OF that] order_refl] C'(1) by (auto simp: read_watch_def idle_watch_def)
  show "acks_ok ((?K j)\<lparr>wl_sent := sent_of C j\<rparr>) e" if "j \<in> M" "(j, e) \<in> mail C'" for j e
  proof (cases "j = l")
    case True
    have "q \<le> heartbeat_seq ls" if "(current_term (nodes C l), q) \<in> sent_of C l" for q
      using steadyD(6) [OF I(1) [OF assms(2)], of _ q, OF _ refl] assms(3) that by (simp add: sent_by_def)
    with I(2) [OF that(1), of e] that(2) True C'(3) show ?thesis
      by (fastforce simp: acks_ok_def ack_ok_def read_watch_def idle_watch_def split: event.splits sum.splits rpc_response.splits)
  next
    case False
    with I(2) [OF that(1), of e] that(2) C'(3) show ?thesis
      by (simp add: acks_ok_def ack_ok_def read_watch_def idle_watch_def split: event.splits sum.splits rpc_response.splits)
  qed
  show "wire C' = wire C \<union> posted l (nodes C' l)" using C'(1,2) by simp
qed

text \<open>What was committed anywhere before is covered by the index a read waits for, if the leader was not already
  superseded: if a majority had not passed its term.\<close>

lemma read_covers:
  assumes R: "related M sm C w" and l: "l \<in> M" and ls: "role (nodes C l) = Leader ls"
    and m: "MCommit u c lg \<in> ms w"
    and Q: "is_majority M {j \<in> M. current_term (nodes C j) \<le> current_term (nodes C l)}"
  shows "c \<le> max (commit_index (nodes C l)) (term_start_index ls)"
proof -
  let ?t = "current_term (nodes C l)" and ?L = "lg_of w l"
  from R have I: "inv_done (is_majority M) w" by (simp add: related_def inv_def)
  note q = relatedD(1) [OF R l] and S = inv_doneD(3) [OF I m] and c = inv_doneD(1) [OF I m]
  have il: "is_leader (nodes C l)" using ls by (simp add: is_leader_def)
  note lead = leader_led [OF R l il]
  from inv_doneD(4) [OF I m] obtain d L where d: "ld w u = Some (d, L)"
    "trm w d = u \<Longrightarrow> p_role (procs w d) = PLeader \<Longrightarrow> c \<le> p_commit (procs w d)" by blast
  from inv_ledD(1) [OF relatedD(3) [OF R l] d(1)] obtain V where V: "is_majority M V"
    "\<forall>j \<in> V. \<exists>lg. MVote u j d lg \<in> ms w" by blast
  from raft_quorums.qs_meet [OF q V(1) Q] obtain j where j: "j \<in> V" "j \<in> M" "current_term (nodes C j) \<le> ?t" by blast
  with V(2) inv_votesD(1) [OF relatedD(2) [OF R l]] related_sel(1) [OF R j(2)] have "u \<le> ?t" by fastforce
  then consider "u = ?t" | "u < ?t" by linarith
  then show ?thesis
  proof cases
    case 1
    with lead d(1) have "d = l" by simp
    with d(2) 1 related_sel [OF R l] ls show ?thesis by (auto simp: le_max_iff_disj)
  next
    case 2
    have A: "c \<le> length ?L" "take c ?L = take c lg"
      using raft_quorums.settled_led [OF q relatedD(5) [OF R l] S lead(1)] 2 lead(2) by simp_all
    have B: "c \<le> length L" "take c L = take c lg"
      using raft_quorums.settled_led [OF q relatedD(5) [OF R l] S d(1)] by simp_all
    have "lterm L c \<le> u" using inv_logsD(8) [OF relatedD(4) [OF R l] d(1), of "L ! (c - 1)"] B(1) c by (simp add: lterm_def)
    with lterm_take [of c c ?L L] A B 2 have lt: "lterm ?L c < ?t" by simp
    have "c < term_start_index ls"
    proof (rule ccontr)
      assume "\<not> c < term_start_index ls"
      then have "lterm ?L (term_start_index ls) = ?t" "0 < term_start_index ls" "term_start_index ls \<le> c"
        using relatedD(8) [OF R l] ls A(1) by (auto simp: node_ok_def)
      with lterm_mono [OF inv_logsD(7) [OF relatedD(4) [OF R l] lead(1)], of "term_start_index ls" c] A(1) lt
      show False by simp
    qed
    then show ?thesis by simp
  qed
qed

lemma granted_covers:
  assumes "reachable M sm C" and "l \<in> M"
    and turn: "take_turn now (Ctl (Read ch)) (drained (nodes C l)) = Inr (go, rep, n)"
    and ans: "ReplyRead ch (Inr g) \<in> set (effects n)"
    and st: "(cstep_in (- {l}) M sm)\<^sup>*\<^sup>* (after l n C) C'" and g: "Granted g \<in> set (effects (nodes C' l))"
    and R: "related M sm C w" and m: "MCommit u c lg \<in> ms w"
  shows "c \<le> last_applied (nodes C' l)"
proof -
  from turn have h: "handle_read ch (drained (nodes C l)) = Inr n" by (auto simp: take_turn_def bind_r_Inr_iff)
  obtain ls where ls: "role (nodes C l) = Leader ls"
  proof (cases "role (drained (nodes C l))")
    case (Leader ls)
    with that show ?thesis by (simp add: drained_def)
  qed (use h ans in \<open>auto simp: handle_read_def emit_def drained_def\<close>)
  let ?K = "read_watch M C l ls"
  have g': "g = next_chan (nodes C l)" by (rule read_answer [OF ls h ans])
  have C1: "reachable M sm (after l n C)"
  proof -
    from take_turn_ok [OF R assms(2), of "Ctl (Read ch)" now] turn have "rep = None" by (auto simp: wp_rules turn_enabled_def)
    with turn c_turn [OF assms(2), of C "Ctl (Read ch)" now go n UNIV sm] r_step [OF assms(1)] show ?thesis
      by (simp add: turn_enabled_def after_def)
  qed
  then obtain w1 where R1: "related M sm (after l n C) w1" using reachable_related by blast
  have "\<forall>i \<in> M. tracked (after l n C) i (?K i)"
    by (rule read_tracked [OF assms(1,2) ls h]) (simp_all add: after_def)
  moreover have "wl_read (?K i) = None \<and> wl_write (?K i) = None" if "i \<in> - {l}" for i
    using that by (simp add: read_watch_def idle_watch_def)
  ultimately have "\<forall>i \<in> M. tracked C' i (?K i)" by (rule steps_tracked [OF R1 read_watches _ st])
  with assms(2) have "tracked C' l (?K l)" by blast
  then have Q: "max (commit_index (nodes C l)) (term_start_index ls) \<le> last_applied (nodes C' l)"
      "wl_quorum ((?K l)\<lparr>wl_sent := sent_of C' l\<rparr>)"
    using steadyD(9) [of "(?K l)\<lparr>wl_sent := sent_of C' l\<rparr>" "nodes C' l" g] g g'
    by (simp_all add: tracked_def read_watch_def)
  have "{j \<in> M. j = l \<or> current_term (nodes C j) \<le> current_term (nodes C l)} =
      {j \<in> M. current_term (nodes C j) \<le> current_term (nodes C l)}" by auto
  with Q(2) have "is_majority M {j \<in> M. current_term (nodes C j) \<le> current_term (nodes C l)}"
    by (simp add: wl_quorum_def read_watch_def idle_watch_def)
  from read_covers [OF R assms(2) ls m this] Q(1) show ?thesis by linarith
qed

text \<open>
  C9. Reads are linearizable. Take any replica \<open>j\<close> at any moment \<open>C\<^sub>0\<close>, and a read issued to node \<open>l\<close> at or after
  that moment that is granted later, while \<open>l\<close> stays up. When it is granted, \<open>l\<close> has applied everything \<open>j\<close> had
  committed at \<open>C\<^sub>0\<close>: its state machine is that of \<open>j\<close> at \<open>C\<^sub>0\<close> with further entries applied. So no read returns a
  value older than one that was committed, applied or read anywhere before the read began, even when \<open>l\<close> was
  deposed meanwhile without noticing.
\<close>

theorem reads_are_linearizable:
  assumes "reachable M sm C\<^sub>0" and "(cstep M sm)\<^sup>*\<^sup>* C\<^sub>0 C" and "j \<in> M" and "l \<in> M"
    and "take_turn now (Ctl (Read ch)) (drained (nodes C l)) = Inr (go, rep, n)"
    and "ReplyRead ch (Inr g) \<in> set (effects n)"
    and "(cstep_in (- {l}) M sm)\<^sup>*\<^sup>* (after l n C) C'" and "Granted g \<in> set (effects (nodes C' l))"
  shows "commit_index (nodes C\<^sub>0 j) \<le> last_applied (nodes C' l) \<and>
    (\<exists>es. state_machine (nodes C' l) = replay (state_machine (nodes C\<^sub>0 j)) es)"
proof -
  from reachable_related [OF assms(1)] obtain w0 where R0: "related M sm C\<^sub>0 w0" by blast
  from steps_related [OF R0 assms(2)] obtain w where R: "related M sm C w"
    and st: "(wstep (is_majority M))\<^sup>*\<^sup>* w0 w" by blast
  have re: "reachable M sm C" using reachable_steps [OF assms(2,1)] .
  note cov = granted_covers [OF re assms(4-8) R]
  have la: "commit_index (nodes C\<^sub>0 j) \<le> last_applied (nodes C' l)"
  proof (cases "commit_index (nodes C\<^sub>0 j) = 0")
    case False
    from R0 have "inv_done (is_majority M) w0" by (simp add: related_def inv_def)
    from inv_doneD(5) [OF this, of j] False related_sel(3) [OF R0 assms(3)] obtain u c lg where
      m: "MCommit u c lg \<in> ms w0" "commit_index (nodes C\<^sub>0 j) \<le> c" by auto
    from cov [OF raft_quorums.steps_msgs [OF relatedD(1) [OF R assms(4)] st m(1)]] m(2) show ?thesis by simp
  qed simp
  moreover have "\<exists>es. state_machine (nodes C' l) = replay (state_machine (nodes C\<^sub>0 j)) es"
  proof -
    have "(cstep M sm)\<^sup>*\<^sup>* C C'"
    proof -
      from take_turn_ok [OF R assms(4), of "Ctl (Read ch)" now] assms(5) have "rep = None"
        by (auto simp: wp_rules turn_enabled_def)
      with assms(5) have "cstep M sm C (after l n C)" unfolding after_def
        by (intro c_turn [OF assms(4)]) (simp_all add: turn_enabled_def)
      with steps_in [OF assms(7)] show ?thesis by simp
    qed
    from steps_related [OF R this] obtain w' where R': "related M sm C' w'" and "(wstep (is_majority M))\<^sup>*\<^sup>* w w'" by blast
    with st have st': "(wstep (is_majority M))\<^sup>*\<^sup>* w0 w'" by simp
    note S = replica_state [OF R0 assms(3)] and S' = replica_state [OF R' assms(4)]
    let ?k = "last_applied (nodes C\<^sub>0 j)"
    have "take ?k (lg_of w0 j) = take ?k (lg_of w' l)"
      by (rule committed_agree(1) [OF R0 assms(3) R' assms(4) st']) (use la S(2) S'(2) in simp_all)
    moreover have "take (last_applied (nodes C' l)) L = take ?k L @ drop ?k (take (last_applied (nodes C' l)) L)" for L :: "'a log_entry list"
      using la S(2) by (metis append_take_drop_id le_trans min.absorb2 min.commute take_take)
    ultimately show ?thesis using S(1) S'(1) replay_append by metis
  qed
  ultimately show ?thesis by blast
qed

theorem reads_are_linearizable_witness:
  "commit_index (nodes cluster4 2) = 2 \<and> Granted 1 \<in> set (effects (nodes cluster5 1)) \<and>
   last_applied (nodes cluster5 1) = 2 \<and>
   (\<exists>es. state_machine (nodes cluster5 1) = replay (state_machine (nodes cluster4 2)) es)"
proof -
  obtain go where "take_turn 400000 (Ctl (Read 9)) (drained (nodes cluster4 1)) = Inr (go, None, a7)" using read_turn by blast
  from reads_are_linearizable [OF reachable4 rtranclp.rtrancl_refl _ _ this, of 2 1 cluster5] steps5 run_a example_facts
  show ?thesis by (simp add: cluster5_def after_def)
qed

subsection \<open>Acknowledged writes\<close>

lemma plain_propose:
  assumes "plain_command cmd" and "is_leader n"
  shows "handle_propose now cmd ch n = accept_proposal now cmd ch n"
  using assms by (auto simp: handle_propose_def plain_command_def split: command.splits)

lemma propose_accepted:
  assumes "plain_command cmd" and "take_turn now (Ctl (Propose cmd ch)) (drained m) = Inr (go, rep, n)"
    and "ReplyPropose ch (Inr pr) \<in> set (effects n)"
  shows "accept_proposal now cmd ch (drained m) = Inr n" and "is_leader m"
    and "pr = \<lparr>proposal_term = current_term m, proposal_index = last_index (storage m) + 1, proposal_committed = next_chan m\<rparr>"
proof -
  let ?n = "drained m"
  from assms(2) have h: "handle_propose now cmd ch ?n = Inr n" by (auto simp: take_turn_def bind_r_Inr_iff)
  have d: "is_leader ?n = is_leader m" by (simp add: drained_def is_leader_def)
  show l: "is_leader m"
    using h assms(3) d by (auto simp: handle_propose_def emit_def drained_def split: if_splits)
  from h plain_propose [OF assms(1), of ?n] l d show a: "accept_proposal now cmd ch ?n = Inr n" by simp
  have cfg: "(case cmd of ConfigChange m \<Rightarrow> f m | _ \<Rightarrow> x) = x" for f and x :: "('a, 'b) raft_node"
    using assms(1) by (auto simp: plain_command_def split: command.splits)
  let ?a = "\<lambda>c. ReplyPropose ch (Inr \<lparr>proposal_term = current_term m, proposal_index = last_index (storage m) + 1,
      proposal_committed = c\<rparr>)"
  have e: "current_term ?n = current_term m" "storage ?n = storage m" "next_chan ?n = next_chan m" "answers ?n = []"
    by (simp_all add: drained_def current_term_def answers_def)
  have "answering [?a (next_chan m)] (accept_proposal now cmd ch ?n)"
  proof (cases "append (storage m) [\<lparr>entry_term = current_term m, index = last_index (storage m) + 1, command = cmd\<rparr>]")
    case (Inr st)
    then show ?thesis unfolding accept_proposal_def Let_def cfg replicate_all_def
      by (simp add: e store_def) (intro answering_bind answering_maybe_advance_commit answering_send_all, simp_all add: e)
  qed (simp add: accept_proposal_def e store_def answering_err)
  with a have "answers n = [?a (next_chan m)]" by (simp add: answering_def wp_rules)
  moreover have "ReplyPropose ch (Inr pr) \<in> set (answers n)" using assms(3) by (simp add: answers_def)
  ultimately show "pr = \<lparr>proposal_term = current_term m, proposal_index = last_index (storage m) + 1, proposal_committed = next_chan m\<rparr>"
    by simp
qed

definition write_watch :: "node_id set \<Rightarrow> node_id \<Rightarrow> proposal \<Rightarrow> node_id \<Rightarrow> watchlist" where
  "write_watch M l pr i = (if i = l
     then (idle_watch M l)\<lparr>wl_write := Some (proposal_committed pr), wl_entry := (proposal_index pr, proposal_term pr)\<rparr>
     else idle_watch M i)"

lemma write_tracked:
  assumes "reachable M sm C" and "l \<in> M" and "plain_command cmd"
    and t: "take_turn now (Ctl (Propose cmd ch)) (drained (nodes C l)) = Inr (go, rep, n)"
    and a: "ReplyPropose ch (Inr pr) \<in> set (effects n)"
  shows "\<forall>i \<in> M. tracked (after l n C) i (write_watch M l pr i)"
proof (rule tracked_move [of _ C _ _ l])
  let ?K = "write_watch M l pr" and ?I = "\<lambda>i. (idle_watch M i)\<lparr>wl_sent := sent_of C i\<rparr>" and ?n = "drained (nodes C l)"
  note P = propose_accepted [OF assms(3) t a]
  have I: "steady (?I i) (nodes C i)" "\<And>e. (i, e) \<in> mail C \<Longrightarrow> acks_ok (?I i) e" if "i \<in> M" for i
    using idle_tracked [OF assms(1)] that by (auto simp: tracked_def)
  have d: "next_chan ?n = next_chan (nodes C l)" "current_term ?n = current_term (nodes C l)" "storage ?n = storage (nodes C l)"
    "\<forall>e \<in> set (effects ?n). quiet e" by (simp_all add: drained_def current_term_def)
  have l: "steady ((?K l)\<lparr>wl_sent := sent_of C l\<rparr>) n"
    using keeps_watched_proposal [OF steady_drained [OF I(1) [OF assms(2)]] assms(3) d(4), of now ch] P(1,3) d
    by (simp add: keeps_def wp_rules write_watch_def idle_watch_def)
  show "steady ((?K j)\<lparr>wl_sent := sent_of C j\<rparr>) (nodes (after l n C) j)" if "j \<in> M" for j
    using l I(1) [OF that] by (simp add: write_watch_def after_def)
  show "acks_ok ((?K j)\<lparr>wl_sent := sent_of C j\<rparr>) e" if "j \<in> M" "(j, e) \<in> mail (after l n C)" for j e
    using I(2) [OF that(1), of e] that(2) by (cases "j = l") (simp_all add: after_def acks_ok_def ack_ok_def write_watch_def idle_watch_def split: event.splits sum.splits rpc_response.splits)
qed (simp add: after_def)

text \<open>A settled prefix belongs to the one history of all replicas.\<close>

lemma settled_history:
  assumes R: "related M sm C w" and i: "i \<in> M" and S: "settled (is_majority M) w u lg c"
  shows "\<exists>H. c \<le> length H \<and> take c H = take c lg \<and> (\<forall>j \<in> M. commit_index (nodes C j) \<le> length H \<and>
    take (commit_index (nodes C j)) H = take (commit_index (nodes C j)) (lg_of w j))"
proof -
  let ?c = "\<lambda>j. commit_index (nodes C j)"
  have "finite M" using R by (simp add: related_def)
  then have "Max (?c ` M) \<in> ?c ` M" using i by (intro Max_in) auto
  then obtain x where x: "x \<in> M" "Max (?c ` M) = ?c x" by auto
  with \<open>finite M\<close> have le: "?c j \<le> ?c x" if "j \<in> M" for j using Max_ge [of "?c ` M" "?c j"] that by simp
  note pre = raft_quorums.settled_prefixes [OF relatedD(1,5) [OF R i]]
  show ?thesis
  proof (cases "c \<le> ?c x")
    case True
    then have "c \<le> length (lg_of w x)" using settled_length [OF commit_settled [OF R x(1)]] by simp
    moreover have "take c (lg_of w x) = take c lg" by (rule pre [OF commit_settled [OF R x(1)] S True order_refl])
    ultimately show ?thesis
      using committed_agree [OF R x(1) R _ rtranclp.rtrancl_refl le] by (intro exI [of _ "lg_of w x"]) auto
  next
    case False
    with le have c: "?c j \<le> c" if "j \<in> M" for j using that by fastforce
    have "take (?c j) lg = take (?c j) (lg_of w j)" if "j \<in> M" for j
      by (rule pre [OF S commit_settled [OF R that] c [OF that] order_refl])
    with c settled_length [OF S] show ?thesis by (intro exI [of _ lg]) (auto intro: order_trans)
  qed
qed

text \<open>An entry is determined by its index and term: the log of the leader that created it says which it is.\<close>

definition created :: "'v world \<Rightarrow> 'v log_entry \<Rightarrow> bool" where
  "created w e \<longleftrightarrow> (\<exists>c L. ld w (entry_term e) = Some (c, L) \<and> 0 < index e \<and> index e \<le> length L \<and> L ! (index e - 1) = e)"

lemma created_steps: "created w e \<Longrightarrow> led_grows (ld w) (ld w') \<Longrightarrow> created w' e"
  unfolding created_def led_grows_def by (fastforce simp: nth_append)

lemma created_unique:
  assumes "created w e" and "wf_log (ld w) lg" and "index e \<le> length lg" and "lterm lg (index e) = entry_term e"
  shows "lg ! (index e - 1) = e"
proof -
  from assms(1) obtain c L where L: "ld w (entry_term e) = Some (c, L)" "0 < index e" "index e \<le> length L" "L ! (index e - 1) = e"
    by (auto simp: created_def)
  from wf_logD(2) [OF assms(2), of "index e - 1" c L] L assms(3,4) have "take (index e) lg = take (index e) L" by (simp add: lterm_def)
  from take_eq_nth [OF this, of "index e - 1"] L assms(3) show ?thesis by simp
qed

lemma proposal_created:
  assumes R: "related M sm C w" and "l \<in> M" and "plain_command cmd"
    and t: "take_turn now (Ctl (Propose cmd ch)) (drained (nodes C l)) = Inr (go, rep, n)"
    and a: "ReplyPropose ch (Inr pr) \<in> set (effects n)"
  shows "\<exists>w'. related M sm (after l n C) w' \<and>
    created w' \<lparr>entry_term = proposal_term pr, index = proposal_index pr, command = cmd\<rparr>"
proof -
  let ?n = "drained (nodes C l)" and ?L = "lg_of w l"
  let ?e = "\<lparr>entry_term = proposal_term pr, index = proposal_index pr, command = cmd\<rparr>"
  note P = propose_accepted [OF assms(3) t a] and r = runs_start [OF R assms(2)]
  have d: "current_term ?n = current_term (nodes C l)" "storage ?n = storage (nodes C l)" by (simp_all add: drained_def current_term_def)
  obtain ls where "role ?n = Leader ls" using P(2) by (auto simp: is_leader_def drained_def split: role.splits)
  from accept_proposal_ok [OF r this assms(3), of now ch] P(1,3) d obtain s where
    s: "runs M sm w l (?L @ [?e]) n s" "msgs (net w) \<subseteq> msgs s" by (auto simp: ok_run_def wp_rules)
  let ?w = "put w l (absp (?L @ [?e]) n) s"
  have R': "related M sm (after l n C) ?w"
    by (rule related_step [OF R runs_at [OF s(1)] s(2)]) (simp_all add: after_def)
  have i: "index ?e = length ?L + 1" using holds_logD(2) [OF runsD(6) [OF r]] P(3) d by simp
  have "wf_log (ld ?w) (?L @ [?e])" using inv_logsD(1) [OF relatedD(4) [OF R' assms(2)], of l] by simp
  from wf_log_ex [OF this, of "length ?L"] wf_logD [OF this, of "length ?L"] obtain c L where
    L: "ld ?w (proposal_term pr) = Some (c, L)" "length ?L < length L" "take (Suc (length ?L)) (?L @ [?e]) = take (Suc (length ?L)) L"
    by auto
  from take_eq_nth [OF L(3), of "length ?L"] L(2) have "L ! length ?L = ?e" by simp
  with L(1,2) i have "created ?w ?e" unfolding created_def by (intro exI [of _ c] exI [of _ L]) simp
  with R' show ?thesis by blast
qed

text \<open>What a node reports committed in its last turn, even if it dies in the middle of it.\<close>

lemma last_report:
  assumes R: "related M sm D w" and l: "l \<in> M" and K: "watches M K" and T: "\<forall>i \<in> M. tracked D i (K i)"
    and st: "D = C' \<or> cstep M sm D C'" and fx: "Committed p b \<in> set (effects (nodes C' l))" "wl_write (K l) = Some (pp_committed p)"
  shows "wl_entry (K l) = (pp_index p, pp_term p)"
proof -
  let ?K = "(K l)\<lparr>wl_sent := sent_of D l\<rparr>"
  have e: ?thesis if "steady ?K n" "Committed p b \<in> set (effects n)" for n :: "('a, 'b) raft_node"
    using steadyD(11) [OF that] fx(2) by simp
  have s: "steady ?K (nodes D l)" using T l by (simp add: tracked_def)
  have t: "steady ?K n" if "turn_enabled D l t" "take_turn now t (drained (nodes D l)) = Inr (go, a, n)" for t now go a n
    using turn_tracked(1) [OF R l K _ that] T l by blast
  from st show ?thesis
  proof
    assume "cstep M sm D C'"
    then show ?thesis
    proof cases
      case (c_turn i u now go n)
      then show ?thesis using e [OF s] e [OF t, of u now go None n] fx(1) by (cases "i = l") auto
    next
      case (c_rpc i c r x now ch go a n)
      then have "turn_enabled D i (Rpc r ch)" by (auto simp: turn_enabled_def)
      then show ?thesis using c_rpc e [OF s] e [OF t, of "Rpc r ch" now go "Some (ch, a)" n] fx(1) by (cases "i = l") auto
    next
      case (c_lost c j r x err)
      then show ?thesis using e [OF s] fx(1) by simp
    next
      case (c_restart i now n)
      then show ?thesis using e [OF s] spawn_fresh [OF c_restart(4)] fx(1) by (cases "i = l") auto
    next
      case (c_crash i u now go rep n xs gx d now' n')
      then show ?thesis using e [OF s] e [OF t, of u now go rep n] fx(1) by (cases "i = l") auto
    qed
  qed (use e [OF s] fx(1) in simp)
qed

text \<open>A proposal that is reported committed is in a prefix that a leader committed.\<close>

lemma acknowledged_decided:
  assumes "reachable M sm C" and "l \<in> M" and "plain_command cmd"
    and "take_turn now (Ctl (Propose cmd ch)) (drained (nodes C l)) = Inr (go, rep, n)"
    and "ReplyPropose ch (Inr pr) \<in> set (effects n)"
    and st: "(cstep_in (- {l}) M sm)\<^sup>*\<^sup>* (after l n C) D" and last: "D = C' \<or> cstep M sm D C'"
    and fx: "Committed p True \<in> set (effects (nodes C' l))" "pp_committed p = proposal_committed pr"
  shows "\<exists>w. related M sm C' w \<and> created w \<lparr>entry_term = proposal_term pr, index = proposal_index pr, command = cmd\<rparr> \<and>
    decided (net w) (proposal_index pr) (proposal_term pr)"
proof -
  let ?e = "\<lparr>entry_term = proposal_term pr, index = proposal_index pr, command = cmd\<rparr>" and ?K = "write_watch M l pr"
  from reachable_related [OF assms(1)] obtain w where "related M sm C w" by blast
  from proposal_created [OF this assms(2-5)] obtain w1 where R1: "related M sm (after l n C) w1" and e1: "created w1 ?e" by blast
  from steps_related [OF R1 steps_in [OF st]] obtain v where R: "related M sm D v" by blast
  have "(cstep M sm)\<^sup>*\<^sup>* (after l n C) C'" using steps_in [OF st] last by auto
  from steps_related [OF R1 this] obtain w2 where R2: "related M sm C' w2"
    and s2: "(wstep (is_majority M))\<^sup>*\<^sup>* w1 w2" by blast
  from R1 have "inv (is_majority M) w1" by (simp add: related_def)
  then have e2: "created w2 ?e" by (rule created_steps [OF e1 raft_quorums.steps_led_grows [OF relatedD(1) [OF R1 assms(2)] s2]])
  have "wl_read (?K i) = None \<and> wl_write (?K i) = None" if "i \<in> - {l}" for i
    using that by (simp add: write_watch_def idle_watch_def)
  moreover have K: "watches M ?K" by (simp add: watches_def write_watch_def idle_watch_def)
  ultimately have "\<forall>i \<in> M. tracked D i (?K i)"
    using steps_tracked [OF R1 _ write_tracked [OF assms(1-5)] st] by blast
  from last_report [OF R assms(2) K this last fx(1)] fx(2) have "wl_entry (?K l) = (pp_index p, pp_term p)"
    by (simp add: write_watch_def)
  then have p: "pp_index p = proposal_index pr" "pp_term p = proposal_term pr" by (simp_all add: write_watch_def)
  have "fx_ok sm (net w2) l (Committed p True)"
    using R2 assms(2) fx(1) unfolding related_def net_ok_def by blast
  with p R2 e2 show ?thesis by auto
qed

text \<open>Such a prefix holds the proposed entry.\<close>

lemma decided_entry:
  assumes R: "related M sm C w" and i: "i \<in> M" and e: "created w e" and "decided (net w) (index e) (entry_term e)"
  shows "\<exists>u lg c. settled (is_majority M) w u lg c \<and> 0 < index e \<and> index e \<le> c \<and> lg ! (index e - 1) = e"
proof -
  have k: "0 < index e" using e by (auto simp: created_def)
  with assms(4) obtain u c lg where m: "MCommit u c lg \<in> ms w" and c: "index e \<le> c" "lterm lg (index e) = entry_term e"
    by (auto simp: decided_def)
  from R have I: "inv_done (is_majority M) w" by (simp add: related_def inv_def)
  note S = inv_doneD(3) [OF I m]
  from inv_doneD(4) [OF I m] obtain d L where L: "ld w u = Some (d, L)" by blast
  from raft_quorums.settled_led [OF relatedD(1,5) [OF R i] S L] have A: "c \<le> length L" "take c L = take c lg" by simp_all
  have "L ! (index e - 1) = e"
    by (rule created_unique [OF e inv_logsD(6) [OF relatedD(4) [OF R i] L]])
      (use A c lterm_take [of "index e" c L lg] settled_length [OF S] in simp_all)
  with take_eq_nth [OF A(2), of "index e - 1"] A(1) c(1) k settled_length [OF S] S show ?thesis by auto
qed

text \<open>
  C10. An acknowledged write survives. A client proposes \<open>cmd\<close> to node \<open>l\<close>, which answers with an index, a term and a
  channel; later, while \<open>l\<close> stays up, \<^verbatim>\<open>true\<close> is sent on that channel, maybe in a turn in the middle of which
  \<open>l\<close> dies. Then whatever happens next, crashes and restarts of all nodes included, there is one history that holds \<open>cmd\<close> at that index and with that term, and
  every replica is at a prefix of it: its retained committed entries are those of the history, and its state machine
  is the initial one with that prefix applied.
\<close>

theorem acknowledged_writes_survive:
  assumes "reachable M sm C" and "l \<in> M" and "plain_command cmd"
    and "take_turn now (Ctl (Propose cmd ch)) (drained (nodes C l)) = Inr (go, rep, n)"
    and "ReplyPropose ch (Inr pr) \<in> set (effects n)"
    and "(cstep_in (- {l}) M sm)\<^sup>*\<^sup>* (after l n C) D" and "D = C' \<or> cstep M sm D C'"
    and "Committed p True \<in> set (effects (nodes C' l))" and "pp_committed p = proposal_committed pr"
    and "(cstep M sm)\<^sup>*\<^sup>* C' C''"
  shows "\<exists>H. 0 < proposal_index pr \<and> proposal_index pr \<le> length H \<and>
    H ! (proposal_index pr - 1) = \<lparr>entry_term = proposal_term pr, index = proposal_index pr, command = cmd\<rparr> \<and>
    (\<forall>j \<in> M. last_applied (nodes C'' j) \<le> commit_index (nodes C'' j) \<and> commit_index (nodes C'' j) \<le> length H \<and>
      (\<forall>k. snapshot_index (storage (nodes C'' j)) < k \<and> k \<le> commit_index (nodes C'' j) \<longrightarrow>
        entry (storage (nodes C'' j)) k = Some (H ! (k - 1))) \<and>
      state_machine (nodes C'' j) = replay sm (take (last_applied (nodes C'' j)) H))"
proof -
  let ?e = "\<lparr>entry_term = proposal_term pr, index = proposal_index pr, command = cmd\<rparr>"
  from acknowledged_decided [OF assms(1-9)] obtain w where R: "related M sm C' w" and e: "created w ?e"
    and d: "decided (net w) (index ?e) (entry_term ?e)" by auto
  from decided_entry [OF R assms(2) e d] obtain u lg c where S: "settled (is_majority M) w u lg c"
    and c: "0 < proposal_index pr" "proposal_index pr \<le> c" "lg ! (proposal_index pr - 1) = ?e" by auto
  from steps_related [OF R assms(10)] obtain w' where R': "related M sm C'' w'" and st: "(wstep (is_majority M))\<^sup>*\<^sup>* w w'" by blast
  from R have "inv (is_majority M) w" by (simp add: related_def)
  from settled_history [OF R' assms(2) raft_quorums.settled_steps [OF relatedD(1) [OF R assms(2)] st this S]]
  obtain H where H: "c \<le> length H" "take c H = take c lg"
    "\<And>j. j \<in> M \<Longrightarrow> commit_index (nodes C'' j) \<le> length H \<and>
      take (commit_index (nodes C'' j)) H = take (commit_index (nodes C'' j)) (lg_of w' j)" by blast
  have "H ! (proposal_index pr - 1) = ?e"
    using take_eq_nth [OF H(2), of "proposal_index pr - 1"] H(1) c settled_length [OF S] by simp
  with H c(1,2) history_entries [OF R'] show ?thesis by (intro exI [of _ H]) auto
qed

theorem acknowledged_writes_survive_witness:
  "\<exists>H. H ! 1 = \<lparr>entry_term = 1, index = 2, command = put_cmd\<rparr> \<and>
     state_machine (nodes cluster4 2) = replay example_machine (take 2 H)"
proof -
  obtain go where t: "take_turn 400000 (Ctl (Propose put_cmd 0)) (drained (nodes (after 1 a3 cluster2) 1)) = Inr (go, None, a4)"
    using write_turn by blast
  have st: "(cstep_in (- {1}) {1, 2, 3} example_machine)\<^sup>*\<^sup>* (after 1 a4 (after 1 a3 cluster2)) (after 1 a5 cluster3)"
    by (rule converse_rtranclp_into_rtranclp, rule step3, rule r_into_rtranclp, rule step3')
  have "plain_command put_cmd" by (simp add: plain_command_def put_cmd_def)
  from acknowledged_writes_survive [OF reachable2' _ this t _ st disjI1 [OF refl], of
      "\<lparr>proposal_term = 1, proposal_index = 2, proposal_committed = 0\<rparr>" "\<lparr>pp_term = 1, pp_index = 2, pp_committed = 0\<rparr>" cluster4]
    steps4 run_a example_facts
  show ?thesis by (auto simp: after_def)
qed

end
