(* ===== verification/Disk.thy ===== *)
theory Disk
  imports Prelude "HOL-Library.Sublist"
begin

section \<open>The file system under the storage\<close>

text \<open>
  The part of a POSIX file system that \<^verbatim>\<open>src/raft/storage.rs\<close> uses, with what a crash can leave behind.
  A device has the current directory and every older directory that is not yet superseded on
  disk: creating and renaming a file push a new directory, and syncing the directory forgets the
  older ones. The bytes of an inode are its current content and the content that is known to be on
  disk; syncing the file makes them equal. A crash picks one of the directories, and for every
  inode some content between the durable and the current one (a torn write).

  \<open>write_atomic\<close> is the function of that name, as the list of the system calls it makes, so
  that a crash may fall between any two of them.
\<close>

datatype fname = HardStateFile | LogFile | SnapshotFile

datatype path = File fname | Tmp fname

type_synonym dir = "path \<rightharpoonup> nat"

record device =
  dirs :: "dir list"
  content :: "nat \<Rightarrow> string"
  durable :: "nat \<Rightarrow> string"
  fresh :: nat
  handle :: nat

definition cur :: "device \<Rightarrow> dir" where
  "cur d = hd (dirs d)"

definition create :: "path \<Rightarrow> device \<Rightarrow> device" where
  "create p d =
     (case cur d p of
        Some i \<Rightarrow> d\<lparr>content := (content d)(i := [])\<rparr>
      | None \<Rightarrow> d\<lparr>dirs := (cur d)(p \<mapsto> fresh d) # dirs d, content := (content d)(fresh d := []),
          durable := (durable d)(fresh d := []), fresh := fresh d + 1\<rparr>)"

definition write_to :: "path \<Rightarrow> string \<Rightarrow> device \<Rightarrow> device" where
  "write_to p bs d =
     (case cur d p of
        Some i \<Rightarrow> d\<lparr>content := (content d)(i := content d i @ bs)\<rparr> | None \<Rightarrow> d)"

definition sync_file :: "path \<Rightarrow> device \<Rightarrow> device" where
  "sync_file p d =
     (case cur d p of Some i \<Rightarrow> d\<lparr>durable := (durable d)(i := content d i)\<rparr> | None \<Rightarrow> d)"

definition set_len :: "path \<Rightarrow> nat \<Rightarrow> device \<Rightarrow> device" where
  "set_len p n d =
     (case cur d p of Some i \<Rightarrow> d\<lparr>content := (content d)(i := take n (content d i))\<rparr> | None \<Rightarrow> d)"

definition rename :: "path \<Rightarrow> path \<Rightarrow> device \<Rightarrow> device" where
  "rename p q d =
     (case cur d p of
        Some i \<Rightarrow> d\<lparr>dirs := (cur d)(p := None, q \<mapsto> i) # dirs d\<rparr> | None \<Rightarrow> d)"

definition sync_dir :: "device \<Rightarrow> device" where
  "sync_dir d = d\<lparr>dirs := [cur d]\<rparr>"

text \<open>Opening for appending, and writing through the open handle.\<close>

definition open_append :: "path \<Rightarrow> device \<Rightarrow> device" where
  "open_append p d =
     (let d = (case cur d p of Some _ \<Rightarrow> d | None \<Rightarrow> create p d)
      in case cur d p of Some i \<Rightarrow> d\<lparr>handle := i\<rparr> | None \<Rightarrow> d)"

definition write_handle :: "string \<Rightarrow> device \<Rightarrow> device" where
  "write_handle bs d = d\<lparr>content := (content d)(handle d := content d (handle d) @ bs)\<rparr>"

definition sync_handle :: "device \<Rightarrow> device" where
  "sync_handle d = d\<lparr>durable := (durable d)(handle d := content d (handle d))\<rparr>"

definition write_atomic :: "fname \<Rightarrow> string \<Rightarrow> (device \<Rightarrow> device) list" where
  "write_atomic n bs =
     [create (Tmp n), write_to (Tmp n) bs, sync_file (Tmp n), rename (Tmp n) (File n), sync_dir]"

definition run :: "(device \<Rightarrow> device) list \<Rightarrow> device \<Rightarrow> device" where
  "run fs d = fold (\<lambda>f. f) fs d"

text \<open>What a crash leaves of a file, and of the device.\<close>

definition survives :: "string \<Rightarrow> string \<Rightarrow> string \<Rightarrow> bool" where
  "survives old new c \<longleftrightarrow>
     (if prefix old new then prefix old c \<and> prefix c new
      else if prefix new old then prefix new c \<and> prefix c old
      else True)"

definition crash :: "device \<Rightarrow> device \<Rightarrow> bool" where
  "crash d d' \<longleftrightarrow>
     (\<exists>m \<in> set (dirs d). dirs d' = [m]) \<and>
     (\<forall>i. survives (durable d i) (content d i) (content d' i)) \<and>
     durable d' = content d' \<and> fresh d' = fresh d"

text \<open>What a reader of the directory finds; a missing log reads as an empty one.\<close>

definition view :: "device \<Rightarrow> dir \<Rightarrow> fname \<Rightarrow> string option" where
  "view d m n =
     (case m (File n) of
        Some i \<Rightarrow> Some (content d i) | None \<Rightarrow> if n = LogFile then Some [] else None)"

text \<open>
  A device at rest with the files \<open>V\<close>: every directory a crash may pick shows them, and their bytes
  are on disk. \<open>linked\<close>: the directory entry of the log is on disk too.
\<close>

definition quiet :: "device \<Rightarrow> (fname \<Rightarrow> string option) \<Rightarrow> bool" where
  "quiet d V \<longleftrightarrow>
     dirs d \<noteq> [] \<and>
     (\<forall>m \<in> set (dirs d). view d m = V \<and> (\<forall>p i. m p = Some i \<longrightarrow> i < fresh d)) \<and>
     (\<forall>m \<in> set (dirs d). \<forall>n i. m (File n) = Some i \<longrightarrow> durable d i = content d i) \<and>
     (\<forall>m \<in> set (dirs d). \<forall>m' \<in> set (dirs d). \<forall>p q i. m p = Some i \<longrightarrow> m' q = Some i \<longrightarrow> p = q)"

definition linked :: "device \<Rightarrow> bool" where
  "linked d \<longleftrightarrow> (\<forall>m \<in> set (dirs d). m (File LogFile) = Some (handle d))"

text \<open>
  The directory of a process that has opened its storage: the handle is on the log. A directory that a crash may pick
  and that has no log yet is one of a time before the first hard state was saved.
\<close>

definition opened :: "device \<Rightarrow> bool" where
  "opened d \<longleftrightarrow> cur d (File LogFile) = Some (handle d) \<and>
     (\<forall>m \<in> set (dirs d). m (File LogFile) = Some (handle d) \<or> m (File LogFile) = None \<and> m (File HardStateFile) = None)"

lemma run_simps [simp]: "run [] d = d" "run (f # fs) d = run fs (f d)" "run (fs @ gs) d = run gs (run fs d)"
  by (simp_all add: run_def)

lemma quietD:
  assumes "quiet d V"
  shows "dirs d \<noteq> []" and "cur d \<in> set (dirs d)"
    and "m \<in> set (dirs d) \<Longrightarrow> view d m = V"
    and "m \<in> set (dirs d) \<Longrightarrow> m p = Some i \<Longrightarrow> i < fresh d"
    and "m \<in> set (dirs d) \<Longrightarrow> m (File n) = Some i \<Longrightarrow> durable d i = content d i"
    and "m \<in> set (dirs d) \<Longrightarrow> m' \<in> set (dirs d) \<Longrightarrow> m p = Some i \<Longrightarrow> m' q = Some i \<Longrightarrow> p = q"
  using assms unfolding quiet_def cur_def by (auto simp del: not_None_eq)

lemma view_dirs [simp]: "view (d\<lparr>dirs := ms\<rparr>) = view d" "view (d\<lparr>handle := h\<rparr>) = view d"
  by (auto simp: view_def fun_eq_iff split: option.splits)

lemma linkedD: "linked d \<Longrightarrow> m \<in> set (dirs d) \<Longrightarrow> m (File LogFile) = Some (handle d)"
  by (simp add: linked_def)

lemma log_bytes:
  assumes "quiet d V" and "linked d" and "V LogFile = Some c"
  shows "content d (handle d) = c" and "durable d (handle d) = c"
proof -
  note m = quietD(2) [OF assms(1)]
  from linkedD [OF assms(2) m] quietD(3) [OF assms(1) m] assms(3) show "content d (handle d) = c"
    by (auto simp: view_def dest: fun_cong [of _ _ LogFile])
  with quietD(5) [OF assms(1) m linkedD [OF assms(2) m]] show "durable d (handle d) = c" by simp
qed

lemma survives_refl [simp]: "survives c c c' \<longleftrightarrow> c' = c"
  by (auto simp: survives_def)

text \<open>A crash at rest changes nothing.\<close>

lemma quiet_crash:
  assumes q: "quiet d V" and c: "crash d d'"
  shows "quiet d' V"
proof -
  from c obtain m where m: "m \<in> set (dirs d)" "dirs d' = [m]" by (auto simp: crash_def)
  have s: "content d' i = content d i" if "m (File n) = Some i" for n i
    using c quietD(5) [OF q m(1) that] by (simp add: crash_def) (metis survives_refl)
  then have "view d' m = view d m" by (auto simp: view_def fun_eq_iff split: option.splits)
  with m quietD(3-6) [OF q] c show ?thesis by (auto simp: quiet_def crash_def)
qed

text \<open>Changing a file no directory names as a final file keeps a device at rest.\<close>

lemma quiet_bytes:
  assumes q: "quiet d V" and "\<And>i. (\<exists>m \<in> set (dirs d). \<exists>n. m (File n) = Some i) \<Longrightarrow> c i = content d i \<and> u i = durable d i"
  shows "quiet (d\<lparr>content := c, durable := u\<rparr>) V"
proof -
  have "view (d\<lparr>content := c, durable := u\<rparr>) m = view d m" if "m \<in> set (dirs d)" for m
    using assms(2) that by (auto simp: view_def fun_eq_iff split: option.splits)
  with q assms(2) show ?thesis unfolding quiet_def by (simp add: Bex_def) metis
qed

lemma tmp_not_final:
  assumes "quiet d V" and "cur d (Tmp n) = Some j" and "\<exists>m \<in> set (dirs d). \<exists>n'. m (File n') = Some i"
  shows "i \<noteq> j"
  using assms quietD(2,6) [OF assms(1)] by blast

text \<open>The first three calls of \<open>write_atomic\<close> work on the temporary file only.\<close>

lemma create_tmp:
  assumes q: "quiet d V"
  shows "quiet (create (Tmp n) d) V"
    and "\<exists>j. cur (create (Tmp n) d) (Tmp n) = Some j \<and> content (create (Tmp n) d) j = []"
    and "linked d \<Longrightarrow> linked (create (Tmp n) d)"
proof -
  let ?d = "create (Tmp n) d"
  show "quiet ?d V"
  proof (cases "cur d (Tmp n)")
    case (Some j)
    have "quiet (d\<lparr>content := (content d)(j := []), durable := durable d\<rparr>) V"
      by (rule quiet_bytes [OF q]) (use tmp_not_final [OF q Some] in auto)
    then show ?thesis using Some by (simp add: create_def)
  next
    case None
    let ?m = "(cur d)(Tmp n \<mapsto> fresh d)"
    have d: "dirs ?d = ?m # dirs d" "fresh ?d = fresh d + 1"
      "content ?d = (content d)(fresh d := [])" "durable ?d = (durable d)(fresh d := [])"
      using None by (simp_all add: create_def)
    have old: "m p \<noteq> Some (fresh d)" if "m \<in> set (dirs d)" for m p
      using quietD(4) [OF q that, of p "fresh d"] by auto
    have v: "view ?d m = V" if "m \<in> set (dirs d)" for m
    proof -
      have "view ?d m n' = view d m n'" for n'
        using old [OF that] by (cases "m (File n')") (auto simp: view_def d)
      then show ?thesis using quietD(3) [OF q that] by (simp add: fun_eq_iff)
    qed
    have "view ?d ?m = view ?d (cur d)" by (simp add: view_def fun_eq_iff)
    then have "view ?d m = V" if "m \<in> set (dirs ?d)" for m
      using that v quietD(2) [OF q] by (auto simp: d)
    moreover have "i < fresh ?d" if "m \<in> set (dirs ?d)" "m p = Some i" for m p i
      using that quietD(4) [OF q, of _ p i] quietD(2) [OF q] by (fastforce simp: d split: if_splits)
    moreover have "durable ?d i = content ?d i" if "m \<in> set (dirs ?d)" "m (File n') = Some i" for m n' i
      using that quietD(5) [OF q, of _ n' i] quietD(2) [OF q] by (auto simp: d)
    moreover have "p = p'" if "m \<in> set (dirs ?d)" "m' \<in> set (dirs ?d)" "m p = Some i" "m' p' = Some i" for m m' p p' i
      using that quietD(6) [OF q, of _ _ p i p'] quietD(2) [OF q] old by (auto simp: d split: if_splits)
    ultimately show ?thesis unfolding quiet_def by (simp add: d(1))
  qed
  show "\<exists>j. cur ?d (Tmp n) = Some j \<and> content ?d j = []"
    by (cases "cur d (Tmp n)") (auto simp: create_def cur_def)
  show "linked d \<Longrightarrow> linked ?d"
  proof -
    assume l: "linked d"
    then have "cur d (File LogFile) = Some (handle d)" using linkedD quietD(2) [OF q] by blast
    with l show ?thesis unfolding linked_def by (cases "cur d (Tmp n)") (simp_all add: create_def)
  qed
qed

lemma write_tmp:
  assumes q: "quiet d V" and j: "cur d (Tmp n) = Some j"
  shows "quiet (write_to (Tmp n) bs d) V" and "quiet (sync_file (Tmp n) d) V"
    and "cur (write_to (Tmp n) bs d) (Tmp n) = Some j" and "content (write_to (Tmp n) bs d) j = content d j @ bs"
    and "cur (sync_file (Tmp n) d) (Tmp n) = Some j" and "content (sync_file (Tmp n) d) j = content d j"
    and "durable (sync_file (Tmp n) d) j = content d j"
    and "linked (write_to (Tmp n) bs d) = linked d" and "linked (sync_file (Tmp n) d) = linked d"
proof -
  have "quiet (d\<lparr>content := (content d)(j := content d j @ bs), durable := durable d\<rparr>) V"
    by (rule quiet_bytes [OF q]) (use tmp_not_final [OF q j] in auto)
  moreover have "quiet (d\<lparr>content := content d, durable := (durable d)(j := content d j)\<rparr>) V"
    by (rule quiet_bytes [OF q]) (use tmp_not_final [OF q j] in auto)
  ultimately show "quiet (write_to (Tmp n) bs d) V" "quiet (sync_file (Tmp n) d) V"
    using j by (simp_all add: write_to_def sync_file_def)
qed (use j in \<open>simp_all add: write_to_def sync_file_def cur_def linked_def\<close>)

lemma quiet_single:
  assumes "view d m = V" and "\<And>p i. m p = Some i \<Longrightarrow> i < fresh d"
    and "\<And>n i. m (File n) = Some i \<Longrightarrow> durable d i = content d i"
    and "\<And>p q i. m p = Some i \<Longrightarrow> m q = Some i \<Longrightarrow> p = q"
  shows "quiet (d\<lparr>dirs := [m]\<rparr>) V"
  using assms by (auto simp: quiet_def)

text \<open>The rename commits: the directory before it shows the old file and the one after it the new one.\<close>

lemma rename_tmp:
  assumes q: "quiet d V" and j: "cur d (Tmp n) = Some j" "durable d j = content d j"
  shows "quiet ((rename (Tmp n) (File n) d)\<lparr>dirs := [cur (rename (Tmp n) (File n) d)]\<rparr>) (V(n \<mapsto> content d j))"
    and "crash (rename (Tmp n) (File n) d) d' \<Longrightarrow> quiet d' V \<or> quiet d' (V(n \<mapsto> content d j))"
proof -
  let ?m = "(cur d)(Tmp n := None, File n \<mapsto> j)"
  have r: "rename (Tmp n) (File n) d = d\<lparr>dirs := ?m # dirs d\<rparr>" using j by (simp add: rename_def)
  note c = quietD(2) [OF q]
  have "view d ?m n' = (V(n \<mapsto> content d j)) n'" for n'
    using quietD(3) [OF q c] by (cases "n' = n") (auto simp: view_def fun_eq_iff)
  then have "view d ?m = V(n \<mapsto> content d j)" ..
  then have new: "quiet (d\<lparr>dirs := [?m]\<rparr>) (V(n \<mapsto> content d j))"
  proof (rule quiet_single)
    fix p i assume "?m p = Some i"
    then show "i < fresh d" using quietD(4) [OF q c] j(1) by (auto split: if_splits)
  next
    fix n' i assume "?m (File n') = Some i"
    then show "durable d i = content d i" using quietD(5) [OF q c, of n' i] j by (auto split: if_splits)
  next
    fix p p' i assume "?m p = Some i" "?m p' = Some i"
    then show "p = p'" using quietD(6) [OF q c c, of _ i] j(1) by (auto split: if_splits)
  qed
  then show "quiet ((rename (Tmp n) (File n) d)\<lparr>dirs := [cur (rename (Tmp n) (File n) d)]\<rparr>) (V(n \<mapsto> content d j))"
    by (simp add: r cur_def)
  assume c': "crash (rename (Tmp n) (File n) d) d'"
  then obtain m where m: "m = ?m \<or> m \<in> set (dirs d)" "dirs d' = [m]" by (auto simp: crash_def r)
  from m(1) show "quiet d' V \<or> quiet d' (V(n \<mapsto> content d j))"
  proof
    assume "m = ?m"
    with c' m(2) have "crash (d\<lparr>dirs := [?m]\<rparr>) d'" by (simp add: crash_def r)
    with new quiet_crash show ?thesis by blast
  next
    assume "m \<in> set (dirs d)"
    with c' m(2) have "crash d d'" by (auto simp: crash_def r)
    with q quiet_crash show ?thesis by blast
  qed
qed

subsection \<open>Atomic replacement and appending\<close>

lemma write_atomic_stages:
  assumes q: "quiet d V"
  obtains d1 d2 d3 j where "d1 = create (Tmp n) d" and "d2 = write_to (Tmp n) bs d1" and "d3 = sync_file (Tmp n) d2"
    and "quiet d1 V" and "quiet d2 V" and "quiet d3 V" and "cur d3 (Tmp n) = Some j"
    and "content d3 j = bs" and "durable d3 j = bs" and "linked d \<Longrightarrow> linked d3" and "handle d3 = handle d"
proof -
  from create_tmp [OF q, of n] obtain j where c: "quiet (create (Tmp n) d) V" "cur (create (Tmp n) d) (Tmp n) = Some j"
    "content (create (Tmp n) d) j = []" "linked d \<Longrightarrow> linked (create (Tmp n) d)" by blast
  note w = write_tmp(1,3,4,8) [OF c(1,2), of bs]
  note y = write_tmp(2,5,6,7,9) [OF w(1,2)]
  show ?thesis
    by (rule that [OF refl refl refl c(1) w(1) y(1,2)]) (use c w y in
        \<open>auto simp: create_def write_to_def sync_file_def split: option.splits\<close>)
qed

text \<open>Completed, the file is replaced; interrupted, the device shows the old file or the new one.\<close>

lemma write_atomic_done:
  assumes "quiet d V"
  shows "quiet (run (write_atomic n bs) d) (V(n \<mapsto> bs))" and "handle (run (write_atomic n bs) d) = handle d"
    and "n \<noteq> LogFile \<Longrightarrow> linked d \<Longrightarrow> linked (run (write_atomic n bs) d)"
    and "cur (run (write_atomic n bs) d) (File n) \<noteq> None" and "dirs (run (write_atomic n bs) d) = [cur (run (write_atomic n bs) d)]"
proof -
  from write_atomic_stages [OF assms, of n bs] obtain d1 d2 d3 j where s: "d1 = create (Tmp n) d"
    "d2 = write_to (Tmp n) bs d1" "d3 = sync_file (Tmp n) d2" "quiet d3 V" "cur d3 (Tmp n) = Some j"
    "content d3 j = bs" "durable d3 j = bs" "linked d \<Longrightarrow> linked d3" "handle d3 = handle d" by metis
  have r: "run (write_atomic n bs) d = (rename (Tmp n) (File n) d3)\<lparr>dirs := [cur (rename (Tmp n) (File n) d3)]\<rparr>"
    by (simp add: write_atomic_def s sync_dir_def)
  show "quiet (run (write_atomic n bs) d) (V(n \<mapsto> bs))" using rename_tmp(1) [OF s(4,5)] s(6,7) by (simp add: r)
  show "handle (run (write_atomic n bs) d) = handle d" "cur (run (write_atomic n bs) d) (File n) \<noteq> None"
    "dirs (run (write_atomic n bs) d) = [cur (run (write_atomic n bs) d)]"
    using s(5,9) by (simp_all add: r rename_def cur_def)
  show "n \<noteq> LogFile \<Longrightarrow> linked d \<Longrightarrow> linked (run (write_atomic n bs) d)"
    using s(5,8,9) quietD(2) [OF s(4)] by (auto simp: r rename_def cur_def linked_def)
qed

lemma write_atomic_crash:
  assumes q: "quiet d V" and c: "crash (run (take k (write_atomic n bs)) d) d'"
  shows "quiet d' V \<or> quiet d' (V(n \<mapsto> bs))"
proof -
  from write_atomic_stages [OF q, of n bs] obtain d1 d2 d3 j where s: "d1 = create (Tmp n) d"
    "d2 = write_to (Tmp n) bs d1" "d3 = sync_file (Tmp n) d2" "quiet d1 V" "quiet d2 V" "quiet d3 V"
    "cur d3 (Tmp n) = Some j" "content d3 j = bs" "durable d3 j = bs" by metis
  have len: "length (write_atomic n bs) = 5" by (simp add: write_atomic_def)
  consider "k = 0" | "k = 1" | "k = 2" | "k = 3" | "k = 4" | "5 \<le> k" by linarith
  then show ?thesis
  proof cases
    case 5
    with c have "crash (rename (Tmp n) (File n) d3) d'" by (simp add: write_atomic_def s take_Cons')
    from rename_tmp(2) [OF s(6,7) _ this] s(8,9) show ?thesis by simp
  next
    case 6
    with c len have "crash (run (write_atomic n bs) d) d'" by simp
    with write_atomic_done(1) [OF q] quiet_crash show ?thesis by blast
  qed (use c q s quiet_crash in \<open>auto simp: write_atomic_def take_Cons'\<close>)
qed

text \<open>Appending: a crash keeps some prefix of the new bytes; completed, all of them.\<close>

definition append_steps :: "string \<Rightarrow> (device \<Rightarrow> device) list" where
  "append_steps bs = [write_handle bs, sync_handle]"

lemma quiet_log:
  assumes q: "quiet d V" and l: "linked d" and V: "V LogFile = Some c"
    and d': "content d' = (content d)(handle d := c')"
      "\<forall>i. (\<exists>m \<in> set (dirs d). \<exists>n. m (File n) = Some i) \<longrightarrow> durable d' i = content d' i"
      "set (dirs d') \<subseteq> set (dirs d)" "dirs d' \<noteq> []" "fresh d' = fresh d"
  shows "quiet d' (V(LogFile \<mapsto> c'))"
proof -
  have lk: "m (File LogFile) = Some (handle d)" if "m \<in> set (dirs d)" for m
    using l that by (simp add: linked_def)
  have "view d' m n = (V(LogFile \<mapsto> c')) n" if "m \<in> set (dirs d)" for m n
  proof (cases "n = LogFile")
    case True
    then show ?thesis using lk [OF that] d'(1) by (simp add: view_def)
  next
    case False
    have "i \<noteq> handle d" if "m (File n) = Some i" for i
      using quietD(6) [OF q \<open>m \<in> set (dirs d)\<close> \<open>m \<in> set (dirs d)\<close> that, of "File LogFile"] lk [OF \<open>m \<in> set (dirs d)\<close>] False
      by auto
    then have "view d' m n = view d m n" by (cases "m (File n)") (auto simp: view_def d'(1))
    then show ?thesis using quietD(3) [OF q that] False by simp
  qed
  then have v: "view d' m = V(LogFile \<mapsto> c')" if "m \<in> set (dirs d)" for m using that by (simp add: fun_eq_iff)
  from d'(3) have sub: "m \<in> set (dirs d)" if "m \<in> set (dirs d')" for m using that by blast
  show ?thesis unfolding quiet_def
    using v sub d'(2,4,5) quietD(4,6) [OF q] by (intro conjI ballI allI impI) metis+
qed

lemma append_steps_done:
  assumes q: "quiet d V" and l: "linked d" and V: "V LogFile = Some c"
  shows "quiet (run (append_steps bs) d) (V(LogFile \<mapsto> c @ bs))" and "linked (run (append_steps bs) d)"
proof -
  note h = log_bytes [OF q l V]
  show "quiet (run (append_steps bs) d) (V(LogFile \<mapsto> c @ bs))"
    by (rule quiet_log [OF q l V])
      (use h quietD(1,5) [OF q] in \<open>auto simp: append_steps_def write_handle_def sync_handle_def\<close>)
  show "linked (run (append_steps bs) d)"
    using l by (simp add: linked_def append_steps_def write_handle_def sync_handle_def)
qed

lemma append_steps_crash:
  assumes q: "quiet d V" and l: "linked d" and V: "V LogFile = Some c"
    and c: "crash (run (take k (append_steps bs)) d) d'"
  shows "\<exists>x. prefix x bs \<and> quiet d' (V(LogFile \<mapsto> c @ x))"
proof -
  note h = log_bytes [OF q l V]
  consider "k = 0" | "k = 1" | "2 \<le> k" by linarith
  then show ?thesis
  proof cases
    case 1
    with c have "crash d d'" by simp
    from quiet_crash [OF q this] V show ?thesis by (intro exI [of _ "[]"]) (simp add: fun_upd_idem)
  next
    case 2
    with c have c': "crash (write_handle bs d) d'" by (simp add: append_steps_def)
    then have "survives c (c @ bs) (content d' (handle d))" 
      using h by (simp add: crash_def write_handle_def) metis
    then obtain x where x: "content d' (handle d) = c @ x" "prefix x bs" by (auto simp: survives_def prefix_def)
    let ?d = "d'\<lparr>content := (content d)(handle d := c @ x), durable := (durable d)(handle d := c @ x)\<rparr>"
    have "quiet ?d (V(LogFile \<mapsto> c @ x))"
      by (rule quiet_log [OF q l V]) (use c' quietD(5) [OF q] in \<open>auto simp: crash_def write_handle_def\<close>)
    moreover have "content d' i = content ?d i \<and> durable d' i = durable ?d i"
      if "\<exists>m \<in> set (dirs ?d). \<exists>n. m (File n) = Some i" for i
    proof (cases "i = handle d")
      case True
      then show ?thesis using x c' by (simp add: crash_def)
    next
      case False
      from that c' have "\<exists>m \<in> set (dirs d). \<exists>n. m (File n) = Some i" by (auto simp: crash_def write_handle_def)
      then have "durable d i = content d i" using quietD(5) [OF q] by blast
      then show ?thesis using c' False by (simp add: crash_def write_handle_def) (metis survives_refl)
    qed
    ultimately have "quiet (?d\<lparr>content := content d', durable := durable d'\<rparr>) (V(LogFile \<mapsto> c @ x))"
      by (rule quiet_bytes)
    then show ?thesis using x(2) by auto
  next
    case 3
    with c have "crash (run (append_steps bs) d) d'" by (simp add: append_steps_def)
    with quiet_crash [OF append_steps_done(1) [OF q l V]] show ?thesis by blast
  qed
qed

text \<open>As long as the directory entry of the log is not on disk, a crash may lose the log with it.\<close>

lemma quiet_sub: "quiet d V \<Longrightarrow> m \<in> set (dirs d) \<Longrightarrow> quiet (d\<lparr>dirs := [m]\<rparr>) V"
  by (rule quiet_single) (auto dest: quietD)

lemma append_dirs:
  "dirs (run (take k (append_steps bs)) d) = dirs d"
  "run (take k (append_steps bs)) (d\<lparr>dirs := ms\<rparr>) = (run (take k (append_steps bs)) d)\<lparr>dirs := ms\<rparr>"
  by (simp_all add: append_steps_def take_Cons' write_handle_def sync_handle_def)

lemma append_unseen:
  assumes q: "quiet d V" and o: "opened d" and m: "m \<in> set (dirs d)" "m (File LogFile) = None"
  shows "quiet (run (take k (append_steps bs)) (d\<lparr>dirs := [m]\<rparr>)) V"
proof -
  have h: "i \<noteq> handle d" if "m (File n) = Some i" for n i
    using quietD(6) [OF q m(1) quietD(2) [OF q] that, of "File LogFile"] o m(2) that by (auto simp: opened_def)
  let ?d = "run (take k (append_steps bs)) (d\<lparr>dirs := [m]\<rparr>)"
  have "quiet ((d\<lparr>dirs := [m]\<rparr>)\<lparr>content := content ?d, durable := durable ?d\<rparr>) V"
    by (rule quiet_bytes [OF quiet_sub [OF q m(1)]])
      (use h in \<open>auto simp: append_steps_def take_Cons' write_handle_def sync_handle_def split: if_splits\<close>)
  moreover have "(d\<lparr>dirs := [m]\<rparr>)\<lparr>content := content ?d, durable := durable ?d\<rparr> = ?d"
    by (simp add: append_steps_def take_Cons' write_handle_def sync_handle_def)
  ultimately show ?thesis by simp
qed

lemma append_steps_crash_opened:
  assumes q: "quiet d V" and o: "opened d" and V: "V LogFile = Some c"
    and c: "crash (run (take k (append_steps bs)) d) d'"
  shows "\<exists>x. prefix x bs \<and> quiet d' (V(LogFile \<mapsto> c @ x))"
proof -
  let ?fs = "take k (append_steps bs)"
  from c append_dirs(1) obtain m where m: "m \<in> set (dirs d)" "dirs d' = [m]" by (auto simp: crash_def)
  note q1 = quiet_sub [OF q m(1)]
  have c1: "crash (run ?fs (d\<lparr>dirs := [m]\<rparr>)) d'" using c m(2) unfolding append_dirs(2) by (simp add: crash_def)
  show ?thesis
  proof (cases "m (File LogFile)")
    case (Some i)
    with o m(1) have "linked (d\<lparr>dirs := [m]\<rparr>)" by (auto simp: opened_def linked_def)
    from append_steps_crash [OF q1 this V c1] show ?thesis .
  next
    case None
    have "quiet d' V" by (rule quiet_crash [OF append_unseen [OF q o m(1) None] c1])
    moreover have "c = []" using None quietD(3) [OF q m(1)] V by (auto simp: view_def dest: fun_cong [of _ _ LogFile])
    ultimately show ?thesis using V by (intro exI [of _ "[]"]) (simp add: fun_upd_idem)
  qed
qed

text \<open>Opening the log creates an empty one where there is none, whose directory entry is not on disk yet.\<close>

lemma open_append_present:
  assumes "cur d p = Some i"
  shows "open_append p d = d\<lparr>handle := i\<rparr>"
  using assms by (simp add: open_append_def)

lemma open_append_log:
  assumes q: "quiet d V" and one: "dirs d = [m]"
  shows "quiet (open_append (File LogFile) d) V"
    and "m (File LogFile) \<noteq> None \<Longrightarrow> linked (open_append (File LogFile) d)"
    and "m (File LogFile) \<noteq> None \<or> m (File HardStateFile) = None \<Longrightarrow> opened (open_append (File LogFile) d)"
proof -
  let ?d = "open_append (File LogFile) d"
  have m: "cur d = m" using one by (simp add: cur_def)
  show "m (File LogFile) \<noteq> None \<or> m (File HardStateFile) = None \<Longrightarrow> opened ?d"
    using one by (cases "m (File LogFile)") (auto simp: open_append_def create_def cur_def opened_def)
  show "m (File LogFile) \<noteq> None \<Longrightarrow> linked ?d"
    using one m by (auto simp: open_append_present linked_def)
  show "quiet ?d V"
  proof (cases "m (File LogFile)")
    case (Some i)
    then show ?thesis using q m by (simp add: open_append_present quiet_def)
  next
    case None
    let ?m = "m(File LogFile \<mapsto> fresh d)"
    have d: "dirs ?d = [?m, m]" "fresh ?d = fresh d + 1"
      "content ?d = (content d)(fresh d := [])" "durable ?d = (durable d)(fresh d := [])"
      using None one m by (simp_all add: open_append_def create_def cur_def)
    have old: "m p \<noteq> Some (fresh d)" for p using quietD(4) [OF q, of m p "fresh d"] one by auto
    have v: "view d m = V" using quietD(3) [OF q] one by simp
    have "view ?d m n = view d m n" "view ?d ?m n = view d m n" for n
      using old None by (cases "m (File n)"; auto simp: view_def d)+
    with v have vs: "view ?d m = V" "view ?d ?m = V" by (simp_all add: fun_eq_iff)
    have b: "i < fresh ?d" if "m p = Some i \<or> ?m p = Some i" for p i
      using that quietD(4) [OF q, of m p i] one by (auto simp: d split: if_splits)
    have u: "durable ?d i = content ?d i" if "m (File n) = Some i \<or> ?m (File n) = Some i" for n i
      using that quietD(5) [OF q, of m n i] one by (auto simp: d split: if_splits)
    have e: "p = p'" if "m p = Some i \<or> ?m p = Some i" "m p' = Some i \<or> ?m p' = Some i" for p p' i
      using that quietD(6) [OF q, of m m p i p'] one old by (auto split: if_splits)
    show ?thesis unfolding quiet_def
      by (intro conjI ballI allI impI) (use vs b u e in \<open>simp_all add: d(1) del: fun_upd_apply\<close>, blast+)
  qed
qed

subsection \<open>The interface of the storage\<close>

text \<open>
  What the storage relies on: replacing a file is atomic under crashes. It never replaces two files at
  once, so between two replacements a crash shows the first one alone.
\<close>

locale crash_store =
  fixes rest :: "'d \<Rightarrow> ('n \<Rightarrow> 'b option) \<Rightarrow> bool" and fails :: "'d \<Rightarrow> 'd \<Rightarrow> bool"
    and replace :: "'n \<Rightarrow> 'b \<Rightarrow> ('d \<Rightarrow> 'd) list"
  assumes rest_fails: "rest d V \<Longrightarrow> fails d d' \<Longrightarrow> rest d' V"
    and replace_done: "rest d V \<Longrightarrow> rest (fold (\<lambda>f. f) (replace n b) d) (V(n \<mapsto> b))"
    and replace_fails: "rest d V \<Longrightarrow> fails (fold (\<lambda>f. f) (take k (replace n b)) d) d' \<Longrightarrow>
      rest d' V \<or> rest d' (V(n \<mapsto> b))"
begin

lemma two_replacements:
  assumes "rest d V" and "fails (fold (\<lambda>f. f) (take k (replace n b @ replace m c)) d) d'"
  shows "rest d' V \<or> rest d' (V(n \<mapsto> b)) \<or> rest d' (V(n \<mapsto> b, m \<mapsto> c))"
proof (cases "k \<le> length (replace n b)")
  case True
  with assms(2) have "fails (fold (\<lambda>f. f) (take k (replace n b)) d) d'" by simp
  from replace_fails [OF assms(1) this] show ?thesis by blast
next
  case False
  with assms(2) have "fails (fold (\<lambda>f. f) (take (k - length (replace n b)) (replace m c))
      (fold (\<lambda>f. f) (replace n b) d)) d'" by (simp add: take_append)
  with replace_fails [OF replace_done [OF assms(1)]] show ?thesis by blast
qed

end

interpretation disk: crash_store quiet crash write_atomic
  by unfold_locales
    (use quiet_crash write_atomic_done(1) write_atomic_crash in \<open>auto simp: run_def [symmetric]\<close>)

end
