(* ===== verification/Storage_Disk.thy ===== *)
theory Storage_Disk
  imports Disk Storage
begin

section \<open>Storage on disk: recovery and crash safety\<close>

text \<open>
  The files behind \<^verbatim>\<open>Storage\<close>: \<open>open_storage\<close> with its loaders and the replay of \<^verbatim>\<open>log.jsonl\<close>, and for every
  mutation the system calls it makes (\<open>*_io\<close>). \<open>holds\<close> relates a device at rest to the state of the
  storage in memory. A completed mutation leaves the device holding the new state; a crash anywhere inside one
  leaves a device from which \<open>open_storage\<close> recovers one of the states of \<open>crash_result\<close>.

  The serde encodings are parameters (\<open>serde\<close>) with the behaviour the code relies on in \<open>serde_ok\<close>:
  decoding inverts encoding, a trailing newline is skipped, and compact JSON has no newline in it.
\<close>

record 'v serde =
  enc_entry :: "'v log_entry \<Rightarrow> string"
  dec_entry :: "string \<Rightarrow> 'v log_entry option"
  enc_hard :: "hard_state \<Rightarrow> string"
  dec_hard :: "string \<Rightarrow> hard_state option"
  enc_snap :: "'v snapshot \<Rightarrow> string"
  dec_snap :: "string \<Rightarrow> 'v snapshot option"

definition newline :: char where
  "newline = CHR 0x0A"

definition serde_ok :: "'v serde \<Rightarrow> bool" where
  "serde_ok sd \<longleftrightarrow>
     (\<forall>e. dec_entry sd (enc_entry sd e @ [newline]) = Some e \<and> newline \<notin> set (enc_entry sd e)) \<and>
     (\<forall>h. dec_hard sd (enc_hard sd h) = Some h) \<and> (\<forall>s. dec_snap sd (enc_snap sd s) = Some s)"

text \<open>What can stop \<^verbatim>\<open>open\<close>: an error it returns, or the \<^verbatim>\<open>unreachable!\<close> of the replay.\<close>

datatype open_error = Failed storage_error | Unreachable_Line

definition load_hard_state :: "'v serde \<Rightarrow> string option \<Rightarrow> open_error + hard_state" where
  "load_hard_state sd f =
     (case f of
        Some bs \<Rightarrow> (case dec_hard sd bs of Some h \<Rightarrow> Inr h | None \<Rightarrow> Inl (Failed (Corrupt BadHardState)))
      | None \<Rightarrow> Inr default_hard_state)"

definition load_snapshot :: "'v serde \<Rightarrow> string option \<Rightarrow> open_error + 'v snapshot option" where
  "load_snapshot sd f =
     (case f of
        Some bs \<Rightarrow> (case dec_snap sd bs of Some s \<Rightarrow> Inr (Some s) | None \<Rightarrow> Inl (Failed (Corrupt BadSnapshot)))
      | None \<Rightarrow> Inr None)"

text \<open>\<^verbatim>\<open>split_inclusive\<close> of the standard library at newlines.\<close>

fun split_inclusive :: "string \<Rightarrow> string list" where
  "split_inclusive [] = []"
| "split_inclusive (c # cs) =
     (if c = newline then [c] # split_inclusive cs
      else case split_inclusive cs of [] \<Rightarrow> [[c]] | l # ls \<Rightarrow> (c # l) # ls)"

text \<open>
  The loop of \<^verbatim>\<open>replay_log\<close>: \<open>prev\<close>, \<open>good_end\<close>, \<open>offset\<close> and \<open>log\<close> are its variables, \<open>len\<close> the size of the file.
  The second component of the result is the length a torn file is cut back to.
\<close>

fun replay_lines ::
    "'v serde \<Rightarrow> log_index \<Rightarrow> nat \<Rightarrow> log_index option \<Rightarrow> nat \<Rightarrow> nat \<Rightarrow> 'v log_entry list \<Rightarrow> string list \<Rightarrow>
       open_error + 'v log_entry list \<times> nat option" where
  "replay_lines sd si len prev good_end offset lg [] = Inr (lg, None)"
| "replay_lines sd si len prev good_end offset lg (chunk # chunks) =
     (let complete = (chunk \<noteq> [] \<and> last chunk = newline);
          offset' = offset + length chunk
      in case dec_entry sd chunk of
           Some e \<Rightarrow>
             if complete then
               (case prev of
                  Some p \<Rightarrow>
                    if index e \<noteq> p + 1 then Inl (Failed (Corrupt (IndexGap (p + 1) (index e))))
                    else replay_lines sd si len (Some (index e)) offset' offset'
                      (if index e > si then lg @ [e] else lg) chunks
                | None \<Rightarrow>
                    replay_lines sd si len (Some (index e)) offset' offset'
                      (if index e > si then lg @ [e] else lg) chunks)
             else if offset' = len then Inr (lg, Some good_end)
             else Inl Unreachable_Line
         | None \<Rightarrow>
             if offset' = len then Inr (lg, Some good_end)
             else Inl (Failed (Corrupt (BadLine offset))))"

definition replay_log ::
    "'v serde \<Rightarrow> log_index \<Rightarrow> string option \<Rightarrow> open_error + 'v log_entry list \<times> nat option" where
  "replay_log sd si f =
     (case f of
        None \<Rightarrow> Inr ([], None)
      | Some bs \<Rightarrow>
          bind_r (replay_lines sd si (length bs) None 0 0 [] (split_inclusive bs))
            (\<lambda>(lg, keep_len). case lg of
               e # _ \<Rightarrow>
                 if index e \<noteq> si + 1 then Inl (Failed (Corrupt (LogStart (index e) si))) else Inr (lg, keep_len)
             | [] \<Rightarrow> Inr (lg, keep_len)))"

definition read_file :: "device \<Rightarrow> fname \<Rightarrow> string option" where
  "read_file d n = map_option (content d) (cur d (File n))"

definition repair_io :: "nat option \<Rightarrow> (device \<Rightarrow> device) list" where
  "repair_io keep_len =
     (case keep_len of None \<Rightarrow> [] | Some n \<Rightarrow> [set_len (File LogFile) n, sync_file (File LogFile)])"

definition open_storage :: "'v serde \<Rightarrow> device \<Rightarrow> open_error + 'v storage \<times> device" where
  "open_storage sd d =
     bind_r (load_hard_state sd (read_file d HardStateFile))
       (\<lambda>hs. bind_r (load_snapshot sd (read_file d SnapshotFile))
         (\<lambda>sn. let si = (case sn of None \<Rightarrow> 0 | Some s \<Rightarrow> last_included_index s)
               in bind_r (replay_log sd si (read_file d LogFile))
                 (\<lambda>(lg, keep_len). Inr (\<lparr>hard_state = hs, snapshot = sn, log = lg\<rparr>,
                    run (repair_io keep_len @ [open_append (File LogFile)]) d))))"

subsection \<open>The system calls of the mutations\<close>

definition lines :: "'v serde \<Rightarrow> 'v log_entry list \<Rightarrow> string" where
  "lines sd es = concat (map (\<lambda>e. enc_entry sd e @ [newline]) es)"

definition save_hard_state_io :: "'v serde \<Rightarrow> hard_state \<Rightarrow> (device \<Rightarrow> device) list" where
  "save_hard_state_io sd hs = write_atomic HardStateFile (enc_hard sd hs)"

definition append_io :: "'v serde \<Rightarrow> 'v log_entry list \<Rightarrow> (device \<Rightarrow> device) list" where
  "append_io sd es = (if es = [] then [] else append_steps (lines sd es))"

definition rewrite_log_io :: "'v serde \<Rightarrow> 'v log_entry list \<Rightarrow> (device \<Rightarrow> device) list" where
  "rewrite_log_io sd es = write_atomic LogFile (lines sd es) @ [open_append (File LogFile)]"

definition write_snapshot_io :: "'v serde \<Rightarrow> 'v snapshot \<Rightarrow> (device \<Rightarrow> device) list" where
  "write_snapshot_io sd s = write_atomic SnapshotFile (enc_snap sd s)"

definition truncate_from_io :: "'v serde \<Rightarrow> 'v storage \<Rightarrow> log_index \<Rightarrow> (device \<Rightarrow> device) list" where
  "truncate_from_io sd st i =
     (case pos st i of
        None \<Rightarrow> []
      | Some keep \<Rightarrow> if i > last_index st then [] else rewrite_log_io sd (take keep (log st)))"

definition compact_to_io ::
    "'v serde \<Rightarrow> 'v storage \<Rightarrow> log_index \<Rightarrow> 'v \<Rightarrow> membership option \<Rightarrow> (device \<Rightarrow> device) list" where
  "compact_to_io sd st b v m =
     (case map_option entry_term (entry st b) of
        None \<Rightarrow> []
      | Some t \<Rightarrow>
          write_snapshot_io sd \<lparr>last_included_index = b, last_included_term = t, membership = m, state = v\<rparr> @
          rewrite_log_io sd (entries_from st (b + 1)))"

definition install_snapshot_io :: "'v serde \<Rightarrow> 'v storage \<Rightarrow> 'v snapshot \<Rightarrow> (device \<Rightarrow> device) list" where
  "install_snapshot_io sd st s =
     (if last_included_index s \<le> snapshot_index st then []
      else write_snapshot_io sd s @ rewrite_log_io sd (retained_suffix st s))"

text \<open>The mutations as one type: what each does in memory and on the device.\<close>

datatype 'v mutation =
  SaveHardState hard_state
| Append "'v log_entry list"
| TruncateFrom log_index
| CompactTo log_index 'v "membership option"
| InstallSnapshotTo "'v snapshot"

fun mutate :: "'v mutation \<Rightarrow> 'v storage \<Rightarrow> storage_error + 'v storage" where
  "mutate (SaveHardState hs) st = save_hard_state st hs"
| "mutate (Append es) st = append st es"
| "mutate (TruncateFrom i) st = truncate_from st i"
| "mutate (CompactTo b v m) st = compact_to st b v m"
| "mutate (InstallSnapshotTo s) st = install_snapshot st s"

fun mutate_io :: "'v serde \<Rightarrow> 'v mutation \<Rightarrow> 'v storage \<Rightarrow> (device \<Rightarrow> device) list" where
  "mutate_io sd (SaveHardState hs) st = save_hard_state_io sd hs"
| "mutate_io sd (Append es) st = append_io sd es"
| "mutate_io sd (TruncateFrom i) st = truncate_from_io sd st i"
| "mutate_io sd (CompactTo b v m) st = compact_to_io sd st b v m"
| "mutate_io sd (InstallSnapshotTo s) st = install_snapshot_io sd st s"

text \<open>
  The files \<open>V\<close> decode to the state \<open>st\<close>. The log file has the entries \<open>es\<close>; a prefix of them may lie at or below the
  snapshot boundary, as a crash inside a compaction leaves them, but they end where the log ends.
\<close>

definition decodes :: "'v serde \<Rightarrow> (fname \<Rightarrow> string option) \<Rightarrow> 'v storage \<Rightarrow> 'v log_entry list \<Rightarrow> bool" where
  "decodes sd V st es \<longleftrightarrow>
     load_hard_state sd (V HardStateFile) = Inr (hard_state st) \<and>
     load_snapshot sd (V SnapshotFile) = Inr (snapshot st) \<and>
     V LogFile = Some (lines sd es) \<and>
     (\<exists>i. contiguous_from i es) \<and>
     log st = filter (\<lambda>e. snapshot_index st < index e) es \<and>
     (es \<noteq> [] \<longrightarrow> index (last es) = last_index st)"

definition holds :: "'v serde \<Rightarrow> device \<Rightarrow> 'v storage \<Rightarrow> bool" where
  "holds sd d st \<longleftrightarrow> (\<exists>V es. quiet d V \<and> decodes sd V st es)"

subsection \<open>The lines of the log file\<close>

lemma serdeD:
  assumes "serde_ok sd"
  shows "dec_entry sd (enc_entry sd e @ [newline]) = Some e" and "newline \<notin> set (enc_entry sd e)"
    and "dec_hard sd (enc_hard sd h) = Some h" and "dec_snap sd (enc_snap sd s) = Some s"
  using assms by (auto simp: serde_ok_def)

lemma lines_simps [simp]:
  "lines sd [] = []" "lines sd (e # es) = enc_entry sd e @ newline # lines sd es"
  "lines sd (es @ fs) = lines sd es @ lines sd fs"
  by (simp_all add: lines_def)

lemma split_line: "newline \<notin> set xs \<Longrightarrow> split_inclusive (xs @ newline # ys) = (xs @ [newline]) # split_inclusive ys"
  by (induction xs) auto

lemma split_torn: "newline \<notin> set xs \<Longrightarrow> split_inclusive xs = (if xs = [] then [] else [xs])"
  by (induction xs) auto

lemma split_lines:
  assumes "serde_ok sd" and "newline \<notin> set t"
  shows "split_inclusive (lines sd es @ t) =
    map (\<lambda>e. enc_entry sd e @ [newline]) es @ (if t = [] then [] else [t])"
  by (induction es) (simp_all add: split_torn [OF assms(2)] split_line serdeD(2) [OF assms(1)])

lemma split_lines_bad:
  assumes "serde_ok sd" and "newline \<notin> set bad"
  shows "split_inclusive (lines sd es @ bad @ newline # rest) =
    map (\<lambda>e. enc_entry sd e @ [newline]) es @ (bad @ [newline]) # split_inclusive rest"
  by (induction es) (simp_all add: split_line assms(2) serdeD(2) [OF assms(1)])

text \<open>The chunks of a file: together they are the file, and only the last one may lack its newline.\<close>

lemma split_inclusive_concat: "concat (split_inclusive xs) = xs"
  by (induction xs) (auto split: list.splits)

lemma split_inclusive_complete: "c \<in> set (butlast (split_inclusive xs)) \<Longrightarrow> c \<noteq> [] \<and> last c = newline"
proof (induction xs arbitrary: c)
  case (Cons x xs)
  show ?case
  proof (cases "split_inclusive xs")
    case Nil
    then show ?thesis using Cons.prems by (auto split: if_splits)
  next
    case (Cons l ls)
    have l: "l \<noteq> [] \<and> last l = newline" if "ls \<noteq> []" using Cons.IH [of l] Cons that by simp
    have ls: "c \<noteq> [] \<and> last c = newline" if "c \<in> set (butlast ls)" for c
      using Cons.IH [of c] Cons that by (cases ls) auto
    show ?thesis using Cons.prems Cons l ls by (auto split: if_splits)
  qed
qed simp

lemma prefix_lines:
  assumes "serde_ok sd" and "prefix x (lines sd fs)"
  shows "\<exists>n t. x = lines sd (take n fs) @ t \<and> newline \<notin> set t"
  using assms(2)
proof (induction fs arbitrary: x)
  case Nil
  then show ?case by (intro exI [of _ 0] exI [of _ "[]"]) simp
next
  case (Cons f fs)
  let ?l = "enc_entry sd f @ [newline]"
  from Cons.prems have "prefix x (?l @ lines sd fs)" by simp
  then consider y where "x = ?l @ y" "prefix y (lines sd fs)" | "prefix x (enc_entry sd f)"
    by (auto simp: prefix_append prefix_Cons)
  then show ?case
  proof cases
    case 1
    from Cons.IH [OF 1(2)] obtain n t where "y = lines sd (take n fs) @ t" "newline \<notin> set t" by blast
    with 1 show ?thesis by (intro exI [of _ "Suc n"] exI [of _ t]) simp
  next
    case 2
    then have "newline \<notin> set x" using serdeD(2) [OF assms(1), of f] set_mono_prefix by blast
    then show ?thesis by (intro exI [of _ 0] exI [of _ x]) simp
  qed
qed

text \<open>Replay reads the complete lines of a contiguous run of entries one by one, keeping those above the boundary.\<close>

lemma replay_lines_prefix:
  assumes "serde_ok sd" and "contiguous_from i es" and "\<forall>p. prev = Some p \<longrightarrow> i = p + 1"
  shows "replay_lines sd si len prev offset offset lg (map (\<lambda>e. enc_entry sd e @ [newline]) es @ chunks) =
    replay_lines sd si len (if es = [] then prev else Some (index (last es)))
      (offset + length (lines sd es)) (offset + length (lines sd es)) (lg @ filter (\<lambda>e. si < index e) es) chunks"
  using assms(2-)
proof (induction es arbitrary: i prev offset lg)
  case (Cons e es)
  have i: "index e = i" "contiguous_from (i + 1) es" using Cons.prems(1) by auto
  have g: "\<forall>p. prev = Some p \<longrightarrow> index e = p + 1" using Cons.prems(2) i(1) by simp
  let ?o = "offset + length (enc_entry sd e @ [newline])" and ?lg = "if index e > si then lg @ [e] else lg"
  let ?rest = "map (\<lambda>e. enc_entry sd e @ [newline]) es @ chunks"
  have "replay_lines sd si len prev offset offset lg ((enc_entry sd e @ [newline]) # ?rest) =
      replay_lines sd si len (Some (index e)) ?o ?o ?lg ?rest"
    using g by (cases prev) (simp_all add: serdeD(1) [OF assms(1)] Let_def)
  also have "\<dots> = replay_lines sd si len (if es = [] then Some (index e) else Some (index (last es)))
      (?o + length (lines sd es)) (?o + length (lines sd es)) (?lg @ filter (\<lambda>e. si < index e) es) chunks"
    by (rule Cons.IH [OF i(2)]) (simp add: i(1))
  finally show ?case by (simp add: add.assoc if_distrib)
qed simp

text \<open>Replay cuts a torn tail, whatever it parses as.\<close>

lemma replay_lines_ok:
  assumes "serde_ok sd" and "newline \<notin> set t" and "contiguous_from i es"
  shows "replay_lines sd si (length (lines sd es @ t)) None 0 0 [] (split_inclusive (lines sd es @ t)) =
    Inr (filter (\<lambda>e. si < index e) es, if t = [] then None else Some (length (lines sd es)))"
proof -
  have "last t \<noteq> newline" if "t \<noteq> []" using that assms(2) last_in_set by force
  then show ?thesis
    using replay_lines_prefix [OF assms(1,3), of None si "length (lines sd es @ t)" 0 "[]" "if t = [] then [] else [t]"]
    by (auto simp: split_lines [OF assms(1,2)] Let_def split: option.splits)
qed

lemma filter_above: "contiguous_from i es \<Longrightarrow> filter (\<lambda>e. si < index e) es = drop (si + 1 - i) es"
proof (induction es arbitrary: i)
  case (Cons e es)
  have *: "filter (\<lambda>e. si < index e) es = drop (si + 1 - (i + 1)) es"
    using Cons.IH [of "i + 1"] Cons.prems by simp
  show ?case
  proof (cases "si < i")
    case True
    then show ?thesis using Cons.prems * by simp
  next
    case False
    then have "si + 1 - i = Suc (si + 1 - (i + 1))" by simp
    then show ?thesis using Cons.prems * False by simp
  qed
qed simp

lemma contiguous_last: "contiguous_from i es \<Longrightarrow> es \<noteq> [] \<Longrightarrow> index (last es) + 1 = i + length es"
  using contiguous_from_nth [of i es "length es - 1"] by (cases es rule: rev_cases) simp_all

lemma contiguous_above:
  assumes c: "contiguous_from i es" and l: "es \<noteq> [] \<Longrightarrow> index (last es) = si + length (filter (\<lambda>e. si < index e) es)"
  shows "contiguous_from (si + 1) (filter (\<lambda>e. si < index e) es)"
    and "es \<noteq> [] \<Longrightarrow> i \<le> si + 1"
proof -
  show i: "i \<le> si + 1" if "es \<noteq> []"
    using contiguous_last [OF c that] l [OF that] by (simp add: filter_above [OF c])
  show "contiguous_from (si + 1) (filter (\<lambda>e. si < index e) es)"
    using contiguous_from_drop [OF c, of "si + 1 - i"] i by (cases "es = []") (simp_all add: filter_above [OF c])
qed

lemma decodesD:
  assumes "decodes sd V st es"
  shows "load_hard_state sd (V HardStateFile) = Inr (hard_state st)"
    and "load_snapshot sd (V SnapshotFile) = Inr (snapshot st)"
    and "V LogFile = Some (lines sd es)" and "log st = filter (\<lambda>e. snapshot_index st < index e) es"
    and "storage_ok st" and "es \<noteq> [] \<Longrightarrow> index (last es) = last_index st" and "\<exists>i. contiguous_from i es"
proof -
  from assms obtain i where i: "contiguous_from i es" by (auto simp: decodes_def)
  show "storage_ok st"
    using contiguous_above(1) [OF i, of "snapshot_index st"] assms by (auto simp: decodes_def storage_ok_def last_index_def)
qed (use assms in \<open>auto simp: decodes_def\<close>)

subsection \<open>Recovery\<close>

text \<open>The files after a crash: the log may have a torn tail.\<close>

definition torn :: "'v serde \<Rightarrow> (fname \<Rightarrow> string option) \<Rightarrow> 'v storage \<Rightarrow> bool" where
  "torn sd V st \<longleftrightarrow>
     (\<exists>es t. decodes sd (V(LogFile \<mapsto> lines sd es)) st es \<and> V LogFile = Some (lines sd es @ t) \<and> newline \<notin> set t)"

lemma decodes_torn: "decodes sd V st es \<Longrightarrow> torn sd V st"
  unfolding torn_def by (intro exI [of _ es] exI [of _ "[]"]) (simp add: decodesD(3) fun_upd_idem)

lemma replay_log_ok:
  assumes sd: "serde_ok sd" and t: "newline \<notin> set t" and c: "contiguous_from i es"
    and l: "es \<noteq> [] \<Longrightarrow> index (last es) = si + length (filter (\<lambda>e. si < index e) es)"
  shows "replay_log sd si (Some (lines sd es @ t)) =
    Inr (filter (\<lambda>e. si < index e) es, if t = [] then None else Some (length (lines sd es)))"
proof -
  show ?thesis
    using replay_lines_ok [OF sd t c] contiguous_above(1) [OF c l]
    by (auto simp: replay_log_def split: list.splits)
qed

lemma quiet_single_view:
  assumes "quiet d V" and "dirs d = [m]"
  shows "cur d = m" and "view d m = V"
  using assms quietD(3) [OF assms(1)] by (auto simp: cur_def)

lemma read_file_view: "n \<noteq> LogFile \<or> m (File LogFile) \<noteq> None \<Longrightarrow> cur d = m \<Longrightarrow> read_file d n = view d m n"
  by (auto simp: read_file_def view_def split: option.splits)

text \<open>Cutting a file back and syncing it.\<close>

lemma repair_ok:
  assumes q: "quiet d V" and one: "dirs d = [m]" and m: "m (File LogFile) \<noteq> None" and V: "V LogFile = Some c"
  shows "quiet (run (repair_io (Some n)) d) (V(LogFile \<mapsto> take n c))"
    and "dirs (run (repair_io (Some n)) d) = [m]"
proof -
  from m obtain i where i: "m (File LogFile) = Some i" by blast
  let ?h = "d\<lparr>handle := i\<rparr>"
  have q': "quiet ?h V" using q by (simp add: quiet_def)
  have l: "linked ?h" using one i by (simp add: linked_def)
  have d: "run (repair_io (Some n)) d = d\<lparr>content := (content d)(i := take n c), durable := (durable d)(i := take n c)\<rparr>"
    using log_bytes [OF q' l V] i one by (simp add: repair_io_def set_len_def sync_file_def cur_def)
  show "quiet (run (repair_io (Some n)) d) (V(LogFile \<mapsto> take n c))"
    by (rule quiet_log [OF q' l V]) (use one quietD(5) [OF q] in \<open>auto simp: d\<close>)
  show "dirs (run (repair_io (Some n)) d) = [m]" using one by (simp add: d)
qed

lemma open_torn:
  assumes sd: "serde_ok sd" and q: "quiet d V" and one: "dirs d = [m]" and t: "torn sd V st"
  shows "\<exists>d'. open_storage sd d = Inr (st, d') \<and> holds sd d' st \<and> (m (File LogFile) \<noteq> None \<longrightarrow> linked d') \<and>
    (m (File LogFile) \<noteq> None \<or> m (File HardStateFile) = None \<longrightarrow> opened d')"
proof -
  from t obtain es t where t: "decodes sd (V(LogFile \<mapsto> lines sd es)) st es" "V LogFile = Some (lines sd es @ t)"
    "newline \<notin> set t" by (auto simp: torn_def)
  from decodesD(7) [OF t(1)] obtain i where i: "contiguous_from i es" by blast
  let ?si = "snapshot_index st"
  note D = decodesD [OF t(1)] and v = quiet_single_view [OF q one]
  have l: "index (last es) = ?si + length (filter (\<lambda>e. ?si < index e) es)" if "es \<noteq> []"
    using D(4,6) that by (simp add: last_index_def)
  have hs: "load_hard_state sd (read_file d HardStateFile) = Inr (hard_state st)"
    "load_snapshot sd (read_file d SnapshotFile) = Inr (snapshot st)"
    using D(1,2) read_file_view [of _ m d] v by simp_all
  have si: "(case snapshot st of None \<Rightarrow> 0 | Some s \<Rightarrow> last_included_index s) = ?si"
    by (simp add: snapshot_index_def)
  show ?thesis
  proof (cases "m (File LogFile)")
    case None
    with v(2) t(2) have e: "es = []" "t = []" by (cases es; force simp: view_def fun_eq_iff)+
    have "replay_log sd ?si (read_file d LogFile) = Inr (log st, None)"
      using None v(1) D(4) e by (simp add: replay_log_def read_file_def)
    then have "open_storage sd d = Inr (st, open_append (File LogFile) d)"
      using hs si by (simp add: open_storage_def repair_io_def)
    moreover have "holds sd (open_append (File LogFile) d) st"
      using open_append_log(1) [OF q one] t(1,2) e by (auto simp: holds_def fun_upd_idem)
    ultimately show ?thesis using None open_append_log(3) [OF q one] by simp
  next
    case (Some h)
    define c where "c = (if t = [] then None else Some (length (lines sd es)))"
    have "replay_log sd ?si (read_file d LogFile) = Inr (log st, c)"
      using replay_log_ok [OF sd t(3) i l] read_file_view [of LogFile m d] Some v t(2) D(4) c_def by simp
    then have o: "open_storage sd d = Inr (st, open_append (File LogFile) (run (repair_io c) d))"
      using hs si by (simp add: open_storage_def)
    have "quiet (run (repair_io c) d) (V(LogFile \<mapsto> lines sd es)) \<and> dirs (run (repair_io c) d) = [m]"
    proof (cases "t = []")
      case True
      then show ?thesis using q one t(2) by (simp add: c_def repair_io_def fun_upd_idem)
    next
      case False
      then show ?thesis using repair_ok [OF q one _ t(2), of "length (lines sd es)"] Some by (simp add: c_def)
    qed
    with open_append_log [of "run (repair_io c) d"] o t(1) Some show ?thesis by (auto simp: holds_def)
  qed
qed

subsection \<open>What the mutations do to the files\<close>

lemma decodes_hard_state:
  assumes "serde_ok sd" and "decodes sd V st es"
  shows "decodes sd (V(HardStateFile \<mapsto> enc_hard sd hs)) (st\<lparr>hard_state := hs\<rparr>) es"
  using assms by (simp add: decodes_def load_hard_state_def serdeD(3))

lemma decodes_append:
  assumes d: "decodes sd V st es" and fs: "contiguous_from (last_index st + 1) fs"
  shows "decodes sd (V(LogFile \<mapsto> lines sd (es @ fs))) (st\<lparr>log := log st @ fs\<rparr>) (es @ fs)"
proof -
  note D = decodesD [OF d]
  from D(7) obtain i where i: "contiguous_from i es" by blast
  have "\<exists>i. contiguous_from i (es @ fs)"
  proof (cases "es = []")
    case False
    with contiguous_last [OF i] D(6) fs have "contiguous_from (i + length es) fs" by simp
    with i show ?thesis by (auto simp: contiguous_from_append)
  qed (use fs in auto)
  moreover have "filter (\<lambda>e. snapshot_index st < index e) fs = fs"
    using filter_above [OF fs, of "snapshot_index st"] by (simp add: last_index_def)
  moreover have "index (last fs) = last_index st + length fs" if "fs \<noteq> []"
    using contiguous_last [OF fs that] by simp
  ultimately show ?thesis using D d by (cases "fs = []") (auto simp: decodes_def last_index_def)
qed

lemma decodes_rewrite:
  assumes "decodes sd V st es" and "contiguous_from (snapshot_index st + 1) lg"
  shows "decodes sd (V(LogFile \<mapsto> lines sd lg)) (st\<lparr>log := lg\<rparr>) lg"
  using assms filter_above [OF assms(2), of "snapshot_index st"] contiguous_last [OF assms(2)]
  by (auto simp: decodes_def last_index_def)

text \<open>Writing a snapshot whose boundary the log contains already has the effect of the whole compaction.\<close>

lemma decodes_snapshot:
  assumes sd: "serde_ok sd" and d: "decodes sd V st es" and b: "snapshot_index st < last_included_index s"
    "last_included_index s \<le> last_index st"
  shows "decodes sd (V(SnapshotFile \<mapsto> enc_snap sd s)) (st\<lparr>snapshot := Some s,
    log := drop (last_included_index s - snapshot_index st) (log st)\<rparr>) es"
proof -
  let ?b = "last_included_index s" and ?si = "snapshot_index st"
  note D = decodesD [OF d]
  from D(7) obtain i where i: "contiguous_from i es" by blast
  have ne: "es \<noteq> []" using b D(4) by (auto simp: last_index_def)
  have "i \<le> ?si + 1" using contiguous_above(2) [OF i, of ?si] D(4,6) ne by (simp add: last_index_def)
  then have "?b - ?si + (?si + 1 - i) = ?b + 1 - i" using b by simp
  then have "drop (?b - ?si) (log st) = drop (?b + 1 - i) es"
    unfolding D(4) filter_above [OF i] drop_drop by (rule arg_cong)
  then have f: "drop (?b - ?si) (log st) = filter (\<lambda>e. ?b < index e) es" by (simp only: filter_above [OF i])
  have "?b + length (drop (?b - ?si) (log st)) = last_index st" using b by (simp add: last_index_def)
  with f show ?thesis using D d b ne i
    by (auto simp: decodes_def load_snapshot_def serdeD(4) [OF sd] last_index_def)
qed

lemma rewrite_log_io_done:
  assumes "quiet d V"
  shows "quiet (run (rewrite_log_io sd lg) d) (V(LogFile \<mapsto> lines sd lg))" and "linked (run (rewrite_log_io sd lg) d)"
proof -
  note w = write_atomic_done [OF assms, of LogFile "lines sd lg"]
  from open_append_log [OF w(1,5)] w(4)
  show "quiet (run (rewrite_log_io sd lg) d) (V(LogFile \<mapsto> lines sd lg))" "linked (run (rewrite_log_io sd lg) d)"
    by (simp_all add: rewrite_log_io_def)
qed

lemma take_snoc_cases: "take k (xs @ [x]) = xs @ [x] \<or> (\<exists>j. take k (xs @ [x]) = take j xs)"
  by (cases "k \<le> length xs") auto

lemma rewrite_log_io_crash:
  assumes q: "quiet d V" and c: "crash (run (take k (rewrite_log_io sd lg)) d) d'"
  shows "quiet d' V \<or> quiet d' (V(LogFile \<mapsto> lines sd lg))"
  using take_snoc_cases [of k "write_atomic LogFile (lines sd lg)" "open_append (File LogFile)"]
proof (elim disjE exE)
  assume e: "take k (write_atomic LogFile (lines sd lg) @ [open_append (File LogFile)]) =
    write_atomic LogFile (lines sd lg) @ [open_append (File LogFile)]"
  from c have "crash (run (rewrite_log_io sd lg) d) d'" by (simp only: rewrite_log_io_def e)
  with quiet_crash [OF rewrite_log_io_done(1) [OF q]] show ?thesis by blast
next
  fix j assume "take k (write_atomic LogFile (lines sd lg) @ [open_append (File LogFile)]) =
    take j (write_atomic LogFile (lines sd lg))"
  with c write_atomic_crash [OF q] show ?thesis by (metis rewrite_log_io_def)
qed

lemma snapshot_rewrite_crash:
  assumes q: "quiet d V" and c: "crash (run (take k (write_snapshot_io sd s @ rewrite_log_io sd lg)) d) d'"
  shows "quiet d' V \<or> quiet d' (V(SnapshotFile \<mapsto> enc_snap sd s)) \<or>
    quiet d' (V(SnapshotFile \<mapsto> enc_snap sd s, LogFile \<mapsto> lines sd lg))"
proof -
  let ?w = "write_atomic SnapshotFile (enc_snap sd s) @ write_atomic LogFile (lines sd lg)"
  have io: "write_snapshot_io sd s @ rewrite_log_io sd lg = ?w @ [open_append (File LogFile)]"
    by (simp add: write_snapshot_io_def rewrite_log_io_def)
  from take_snoc_cases [of k ?w "open_append (File LogFile)"] show ?thesis
  proof (elim disjE exE)
    assume e: "take k (?w @ [open_append (File LogFile)]) = ?w @ [open_append (File LogFile)]"
    from c have "crash (run (?w @ [open_append (File LogFile)]) d) d'" by (simp only: io e)
    then have "crash (run (rewrite_log_io sd lg) (run (write_snapshot_io sd s) d)) d'"
      by (simp add: rewrite_log_io_def write_snapshot_io_def)
    from quiet_crash [OF rewrite_log_io_done(1) [OF write_atomic_done(1) [OF q]] this [unfolded write_snapshot_io_def]]
    show ?thesis by blast
  next
    fix j assume e: "take k (?w @ [open_append (File LogFile)]) = take j ?w"
    from c have "crash (fold (\<lambda>f. f) (take j ?w) d) d'" by (simp only: io e run_def)
    from disk.two_replacements [OF q this] show ?thesis .
  qed
qed

subsection \<open>Every mutation\<close>

text \<open>A directory entry of the log that is on disk stays: the system calls of the mutations replace it, but
  never remove it.\<close>

definition logged :: "device \<Rightarrow> bool" where
  "logged d \<longleftrightarrow> dirs d \<noteq> [] \<and> (\<forall>m \<in> set (dirs d). m (File LogFile) \<noteq> None)"

definition io_steps :: "(device \<Rightarrow> device) set" where
  "io_steps = (\<Union>n bs. set (write_atomic n bs)) \<union> (\<Union>bs. set (append_steps bs)) \<union> {open_append (File LogFile)}"

lemma logged_cur: "logged d \<Longrightarrow> \<exists>i. cur d (File LogFile) = Some i"
  unfolding logged_def cur_def by (metis hd_in_set not_None_eq)

lemma logged_step:
  assumes l: "logged d" and "f \<in> io_steps"
  shows "logged (f d)"
proof -
  from logged_cur [OF l] obtain i where i: "cur d (File LogFile) = Some i" by blast
  show ?thesis
    using assms(2) l i
    by (auto simp: io_steps_def write_atomic_def append_steps_def create_def write_to_def sync_file_def rename_def
        sync_dir_def write_handle_def sync_handle_def open_append_def logged_def split: option.splits)
qed

lemma logged_run: "set fs \<subseteq> io_steps \<Longrightarrow> logged d \<Longrightarrow> logged (run fs d)"
  by (induction fs arbitrary: d) (auto simp: logged_step)

lemma mutate_io_steps: "set (mutate_io sd m st) \<subseteq> io_steps"
  by (cases m) (auto simp: io_steps_def save_hard_state_io_def append_io_def truncate_from_io_def compact_to_io_def
      install_snapshot_io_def write_snapshot_io_def rewrite_log_io_def split: option.splits if_splits)

text \<open>The boundary of a snapshot that is installed over a log that already has its last entry.\<close>

fun covered :: "'v mutation \<Rightarrow> 'v storage \<Rightarrow> bool" where
  "covered (InstallSnapshotTo s) st \<longleftrightarrow> term_at st (last_included_index s) = Some (last_included_term s)"
| "covered _ st \<longleftrightarrow> True"

lemma compact_snapshot:
  assumes "compact_to st b v m = Inr st'"
  obtains s where "last_included_index s = b" "snapshot_index st < b" "b \<le> last_index st"
    "compact_to_io sd st b v m = write_snapshot_io sd s @ rewrite_log_io sd (drop (b - snapshot_index st) (log st))"
    "st' = st\<lparr>snapshot := Some s, log := drop (b - snapshot_index st) (log st)\<rparr>"
proof -
  from assms obtain e where e: "entry st b = Some e" by (auto simp: compact_to_Inr_iff)
  then have b: "snapshot_index st < b" "b \<le> last_index st" by (auto simp: entry_Some_iff last_index_def)
  show ?thesis
    by (rule that [of "\<lparr>last_included_index = b, last_included_term = entry_term e, membership = m, state = v\<rparr>"])
      (use e b assms in \<open>simp_all add: compact_to_io_def entries_from_eq compact_to_ok [OF e]\<close>)
qed

lemma install_covered:
  assumes "install_snapshot st s = Inr st'" and "covered (InstallSnapshotTo s) st"
  shows "snapshot_index st < last_included_index s" "last_included_index s \<le> last_index st"
    "install_snapshot_io sd st s =
       write_snapshot_io sd s @ rewrite_log_io sd (drop (last_included_index s - snapshot_index st) (log st))"
    "st' = st\<lparr>snapshot := Some s, log := drop (last_included_index s - snapshot_index st) (log st)\<rparr>"
proof -
  show "last_included_index s \<le> last_index st"
    using assms term_at_None_iff [of st "last_included_index s"] by (auto simp: not_less)
qed (use assms in \<open>auto simp: install_snapshot_Inr_iff install_snapshot_io_def retained_suffix_def entries_from_eq\<close>)

text \<open>The two mutations that move the boundary.\<close>

lemma boundary_moves:
  assumes sd: "serde_ok sd" and q: "quiet d V" and D: "decodes sd V st es"
    and b: "snapshot_index st < last_included_index s" "last_included_index s \<le> last_index st"
    and st': "st' = st\<lparr>snapshot := Some s, log := drop (last_included_index s - snapshot_index st) (log st)\<rparr>"
    and io: "io = write_snapshot_io sd s @ rewrite_log_io sd (log st')"
  shows "holds sd (run io d) st' \<and> linked (run io d)"
    and "crash (run (take k io) d) d' \<Longrightarrow> \<exists>V'. quiet d' V' \<and> (torn sd V' st \<or> torn sd V' st')"
proof -
  note S = decodes_snapshot [OF sd D b, folded st']
  have "contiguous_from (snapshot_index st' + 1) (log st')" using decodesD(5) [OF S] by (simp add: storage_ok_def)
  from decodes_rewrite [OF S this] have R: "decodes sd (V(SnapshotFile \<mapsto> enc_snap sd s, LogFile \<mapsto> lines sd (log st'))) st' (log st')"
    by simp
  note q1 = write_atomic_done(1) [OF q, of SnapshotFile "enc_snap sd s", folded write_snapshot_io_def]
  from rewrite_log_io_done [OF q1, of sd "log st'"] R show "holds sd (run io d) st' \<and> linked (run io d)"
    by (auto simp: io holds_def)
  assume "crash (run (take k io) d) d'"
  from snapshot_rewrite_crash [OF q this [unfolded io]] decodes_torn [OF D] decodes_torn [OF S] decodes_torn [OF R]
  show "\<exists>V'. quiet d' V' \<and> (torn sd V' st \<or> torn sd V' st')" by blast
qed

lemma truncate_io:
  assumes "truncate_from st i = Inr st'" and "storage_ok st"
  shows "truncate_from_io sd st i = [] \<and> st' = st \<or>
    truncate_from_io sd st i = rewrite_log_io sd (log st') \<and> st' = st\<lparr>log := log st'\<rparr> \<and> storage_ok st'"
  using assms storage_ok_take [OF assms(2), of "i - snapshot_index st - 1"]
  by (auto simp: truncate_from_io_def truncate_from_def rewrite_log_def pos_def split: if_splits)

lemma install_done:
  assumes sd: "serde_ok sd" and q: "quiet d V" and D: "decodes sd V st es"
    and m: "install_snapshot st s = Inr st'" and c: "\<not> covered (InstallSnapshotTo s) st"
  shows "holds sd (run (install_snapshot_io sd st s) d) st' \<and> linked (run (install_snapshot_io sd st s) d)"
proof -
  have io: "install_snapshot_io sd st s = write_snapshot_io sd s @ rewrite_log_io sd []"
    and st': "st' = st\<lparr>snapshot := Some s, log := []\<rparr>"
    using m c by (auto simp: install_snapshot_Inr_iff install_snapshot_io_def retained_suffix_def)
  have "decodes sd (V(SnapshotFile \<mapsto> enc_snap sd s, LogFile \<mapsto> lines sd [])) st' []"
    using decodesD(1) [OF D] serdeD(4) [OF sd] by (auto simp: st' decodes_def load_snapshot_def)
  moreover note q1 = write_atomic_done(1) [OF q, of SnapshotFile "enc_snap sd s", folded write_snapshot_io_def]
  ultimately show ?thesis using rewrite_log_io_done [OF q1, of sd "[]"] by (auto simp: io holds_def)
qed

text \<open>The directory entry of a new log is on disk after the first mutation that syncs the directory.\<close>

lemma first_save_links:
  assumes q: "quiet d V" and h: "cur d (File LogFile) = Some (handle d)"
  shows "linked (run (save_hard_state_io sd hs) d)"
proof -
  let ?d1 = "create (Tmp HardStateFile) d"
  from create_tmp(2) [OF q] obtain j where "cur ?d1 (Tmp HardStateFile) = Some j" by blast
  then show ?thesis using h
    by (cases "cur d (Tmp HardStateFile)")
      (auto simp: save_hard_state_io_def write_atomic_def linked_def create_def write_to_def sync_file_def rename_def
        sync_dir_def cur_def)
qed

lemma linked_opened: "quiet d V \<Longrightarrow> linked d \<Longrightarrow> opened d"
  using quietD(2) by (auto simp: linked_def opened_def)

lemma opened_linked:
  assumes "holds sd d st" and "opened d" and "hard_state st \<noteq> default_hard_state"
  shows "linked d"
proof -
  from assms(1) obtain V es where q: "quiet d V" and D: "decodes sd V st es" by (auto simp: holds_def)
  have "m (File HardStateFile) \<noteq> None" if "m \<in> set (dirs d)" for m
  proof
    assume "m (File HardStateFile) = None"
    then have "V HardStateFile = None" using quietD(3) [OF q that] by (auto simp: view_def)
    with decodesD(1) [OF D] assms(3) show False by (simp add: load_hard_state_def)
  qed
  with assms(2) show ?thesis by (auto simp: opened_def linked_def)
qed

text \<open>Only an append needs the directory entry to be there already.\<close>

lemma mutate_done_opened:
  assumes sd: "serde_ok sd" and h: "holds sd d st" and o: "opened d" and m: "mutate m st = Inr st'"
    and l: "linked d \<or> (\<forall>es. m = Append es \<longrightarrow> es = [])"
  shows "holds sd (run (mutate_io sd m st) d) st' \<and> (mutate_io sd m st = [] \<or> linked (run (mutate_io sd m st) d))"
proof -
  from h obtain V es where q: "quiet d V" and D: "decodes sd V st es" by (auto simp: holds_def)
  note ok = decodesD(5) [OF D]
  show ?thesis
  proof (cases m)
    case (SaveHardState hs)
    with m decodes_hard_state [OF sd D, of hs] write_atomic_done(1) [OF q, of HardStateFile "enc_hard sd hs"]
      first_save_links [OF q, of sd hs] o
    show ?thesis by (auto simp: save_hard_state_def save_hard_state_io_def holds_def opened_def)
  next
    case (Append fs)
    with m have fs: "contiguous_from (last_index st + 1) fs" "st' = st\<lparr>log := log st @ fs\<rparr>"
      by (auto simp: append_Inr_iff)
    show ?thesis
    proof (cases "fs = []")
      case False
      with l Append have "linked d" by simp
      from append_steps_done [OF q this decodesD(3) [OF D], of "lines sd fs"] decodes_append [OF D fs(1)] fs(2) Append False
      show ?thesis by (auto simp: append_io_def holds_def)
    qed (use fs(2) Append h in \<open>simp add: append_io_def\<close>)
  next
    case (TruncateFrom i)
    with m truncate_io [OF _ ok, of i st' sd] have t: "mutate_io sd m st = [] \<and> st' = st \<or>
        mutate_io sd m st = rewrite_log_io sd (log st') \<and> st' = st\<lparr>log := log st'\<rparr> \<and> storage_ok st'" by simp
    then show ?thesis
    proof (elim disjE conjE)
      assume t: "mutate_io sd m st = rewrite_log_io sd (log st')" "st' = st\<lparr>log := log st'\<rparr>" "storage_ok st'"
      then have "contiguous_from (snapshot_index st + 1) (log st')"
        by (metis snapshot_index_simps(1) storage_ok_def)
      from decodes_rewrite [OF D this] t(2) have "decodes sd (V(LogFile \<mapsto> lines sd (log st'))) st' (log st')" by simp
      with rewrite_log_io_done [OF q, of sd "log st'"] t(1) show ?thesis by (auto simp: holds_def)
    qed (use h in simp)
  next
    case (CompactTo b v mb)
    with m have "compact_to st b v mb = Inr st'" by simp
    then obtain s where "last_included_index s = b" "snapshot_index st < b" "b \<le> last_index st"
      "compact_to_io sd st b v mb = write_snapshot_io sd s @ rewrite_log_io sd (drop (b - snapshot_index st) (log st))"
      "st' = st\<lparr>snapshot := Some s, log := drop (b - snapshot_index st) (log st)\<rparr>" by (rule compact_snapshot)
    with boundary_moves(1) [OF sd q D, of s st'] CompactTo show ?thesis by simp
  next
    case (InstallSnapshotTo s)
    with m have i: "install_snapshot st s = Inr st'" by simp
    show ?thesis
    proof (cases "covered (InstallSnapshotTo s) st")
      case True
      note I = install_covered [OF i True]
      from boundary_moves(1) [OF sd q D I(1,2,4), of "install_snapshot_io sd st s"] I InstallSnapshotTo
      show ?thesis by simp
    next
      case False
      with install_done [OF sd q D i] InstallSnapshotTo show ?thesis by simp
    qed
  qed
qed

lemma mutate_done:
  assumes "serde_ok sd" and "holds sd d st" and "linked d" and "mutate m st = Inr st'"
  shows "holds sd (run (mutate_io sd m st) d) st' \<and> linked (run (mutate_io sd m st) d)"
proof -
  from assms(2,3) have "opened d" using linked_opened by (auto simp: holds_def)
  from mutate_done_opened [OF assms(1,2) this assms(4)] assms(3) show ?thesis by auto
qed

text \<open>
  What a crash inside a mutation leaves of the storage: the state before, the state after, an append with a prefix of its
  entries, and an installation of a snapshot with the snapshot in place and the log not yet rewritten, of which the next
  start sees the entries above the new boundary.
\<close>

definition crash_result :: "'v mutation \<Rightarrow> 'v storage \<Rightarrow> 'v storage \<Rightarrow> 'v storage \<Rightarrow> bool" where
  "crash_result m st st' r \<longleftrightarrow>
     r = st \<or> r = st' \<or> (\<exists>es n. m = Append es \<and> append st (take n es) = Inr r) \<or>
     (\<exists>s. m = InstallSnapshotTo s \<and> snapshot st' = Some s \<and> r = unrewritten st s)"

text \<open>
  The installation of a snapshot beyond the end of the log is the one case in which the files do not decode to what the
  next start sees: the old entries are still in the log file.
\<close>

definition stale :: "'v serde \<Rightarrow> 'v mutation \<Rightarrow> 'v storage \<Rightarrow> device \<Rightarrow> bool" where
  "stale sd m st d \<longleftrightarrow>
     (\<exists>s V es. m = InstallSnapshotTo s \<and> last_index st < last_included_index s \<and> decodes sd V st es \<and> es \<noteq> [] \<and>
        quiet d (V(SnapshotFile \<mapsto> enc_snap sd s)))"

lemma install_crash:
  assumes sd: "serde_ok sd" and q: "quiet d V" and D: "decodes sd V st es"
    and m: "install_snapshot st s = Inr st'" and c: "\<not> covered (InstallSnapshotTo s) st"
    and cr: "crash (run (take k (install_snapshot_io sd st s)) d) d'"
  shows "(\<exists>V r. quiet d' V \<and> torn sd V r \<and> crash_result (InstallSnapshotTo s) st st' r) \<or> stale sd (InstallSnapshotTo s) st d'"
proof -
  let ?b = "last_included_index s" and ?m = "InstallSnapshotTo s" and ?W = "V(SnapshotFile \<mapsto> enc_snap sd s)"
  have io: "install_snapshot_io sd st s = write_snapshot_io sd s @ rewrite_log_io sd []" and b: "snapshot_index st < ?b"
    and st': "st' = st\<lparr>snapshot := Some s, log := []\<rparr>"
    using m c by (auto simp: install_snapshot_Inr_iff install_snapshot_io_def retained_suffix_def)
  have new: "decodes sd (W(SnapshotFile \<mapsto> enc_snap sd s)) st' []"
    if "W LogFile = Some []" "W HardStateFile = V HardStateFile" for W
    using that decodesD(1) [OF D] serdeD(4) [OF sd] by (simp add: st' decodes_def load_snapshot_def)
  from snapshot_rewrite_crash [OF q cr [unfolded io]] consider "quiet d' V" | "quiet d' ?W" "?b \<le> last_index st"
    | "quiet d' ?W" "last_index st < ?b" "es \<noteq> []" | "quiet d' ?W" "es = []"
    | "quiet d' (?W(LogFile \<mapsto> []))" by (force simp: not_le)
  then show ?thesis
  proof cases
    case 1
    with decodes_torn [OF D] show ?thesis by (auto simp: crash_result_def)
  next
    case 2
    with decodes_torn [OF decodes_snapshot [OF sd D b 2(2)]] st' show ?thesis
      by (auto simp: crash_result_def unrewritten_def)
  next
    case 3
    with D show ?thesis by (auto simp: stale_def)
  next
    case 4
    then have "decodes sd ?W st' []" using new [of V] decodesD(3) [OF D] by simp
    with 4 decodes_torn show ?thesis by (fastforce simp: crash_result_def)
  next
    case 5
    then have "decodes sd (?W(LogFile \<mapsto> [])) st' []" using new [of "V(LogFile \<mapsto> [])"] by (simp add: fun_upd_twist)
    with 5 decodes_torn show ?thesis by (fastforce simp: crash_result_def)
  qed
qed

lemma mutate_crash:
  assumes sd: "serde_ok sd" and h: "holds sd d st" and o: "opened d" and m: "mutate m st = Inr st'"
    and cr: "crash (run (take k (mutate_io sd m st)) d) d'"
  shows "(\<exists>V r. quiet d' V \<and> torn sd V r \<and> crash_result m st st' r) \<or> stale sd m st d'"
proof -
  from h obtain V es where q: "quiet d V" and D: "decodes sd V st es" by (auto simp: holds_def)
  note ok = decodesD(5) [OF D]
  have old: ?thesis if "quiet d' V" using that decodes_torn [OF D] by (auto simp: crash_result_def)
  show ?thesis
  proof (cases m)
    case (SaveHardState hs)
    with m cr write_atomic_crash [OF q, of k HardStateFile "enc_hard sd hs" d'] old
      decodes_torn [OF decodes_hard_state [OF sd D, of hs]]
    show ?thesis by (auto simp: save_hard_state_def save_hard_state_io_def crash_result_def)
  next
    case (Append fs)
    with m have fs: "contiguous_from (last_index st + 1) fs" "st' = st\<lparr>log := log st @ fs\<rparr>"
      by (auto simp: append_Inr_iff)
    show ?thesis
    proof (cases "fs = []")
      case True
      with cr Append quiet_crash [OF q] old show ?thesis by (simp add: append_io_def)
    next
      case False
      with cr Append have "crash (run (take k (append_steps (lines sd fs))) d) d'" by (simp add: append_io_def)
      from append_steps_crash_opened [OF q o decodesD(3) [OF D] this] obtain x where
        x: "prefix x (lines sd fs)" "quiet d' (V(LogFile \<mapsto> lines sd es @ x))" by blast
      from prefix_lines [OF sd x(1)] obtain n t where t: "x = lines sd (take n fs) @ t" "newline \<notin> set t" by blast
      have f: "contiguous_from (last_index st + 1) (take n fs)" using fs(1) by (rule contiguous_from_take)
      from decodes_append [OF D f] t have "torn sd (V(LogFile \<mapsto> lines sd es @ x)) (st\<lparr>log := log st @ take n fs\<rparr>)"
        unfolding torn_def by (intro exI [of _ "es @ take n fs"] exI [of _ t]) simp
      moreover have "append st (take n fs) = Inr (st\<lparr>log := log st @ take n fs\<rparr>)" using f by (rule append_ok)
      ultimately show ?thesis using x(2) Append by (auto simp: crash_result_def)
    qed
  next
    case (TruncateFrom i)
    with m truncate_io [OF _ ok, of i st' sd] have t: "mutate_io sd m st = [] \<and> st' = st \<or>
        mutate_io sd m st = rewrite_log_io sd (log st') \<and> st' = st\<lparr>log := log st'\<rparr> \<and> storage_ok st'" by simp
    then show ?thesis
    proof (elim disjE conjE)
      assume t: "mutate_io sd m st = rewrite_log_io sd (log st')" "st' = st\<lparr>log := log st'\<rparr>" "storage_ok st'"
      then have "contiguous_from (snapshot_index st + 1) (log st')"
        by (metis snapshot_index_simps(1) storage_ok_def)
      from decodes_rewrite [OF D this] t(2) have "decodes sd (V(LogFile \<mapsto> lines sd (log st'))) st' (log st')" by simp
      from rewrite_log_io_crash [OF q, of k sd "log st'" d'] cr t(1) decodes_torn [OF this] old show ?thesis
        by (simp add: crash_result_def) blast
    qed (use cr quiet_crash [OF q] old in simp)
  next
    case (CompactTo b v mb)
    with m have "compact_to st b v mb = Inr st'" by simp
    then obtain s where s: "last_included_index s = b" "snapshot_index st < b" "b \<le> last_index st"
      "compact_to_io sd st b v mb = write_snapshot_io sd s @ rewrite_log_io sd (drop (b - snapshot_index st) (log st))"
      "st' = st\<lparr>snapshot := Some s, log := drop (b - snapshot_index st) (log st)\<rparr>" by (rule compact_snapshot)
    with boundary_moves(2) [OF sd q D, of s st' _ k d'] CompactTo cr show ?thesis
      by (simp add: crash_result_def) blast
  next
    case (InstallSnapshotTo s)
    with m have i: "install_snapshot st s = Inr st'" by simp
    show ?thesis
    proof (cases "covered (InstallSnapshotTo s) st")
      case True
      note I = install_covered [OF i True]
      from boundary_moves(2) [OF sd q D I(1,2,4), of "install_snapshot_io sd st s" k d'] I InstallSnapshotTo cr
      show ?thesis by (simp add: crash_result_def) blast
    next
      case False
      with install_crash [OF sd q D i False, of k d'] cr InstallSnapshotTo show ?thesis by simp
    qed
  qed
qed

text \<open>The next start after such a crash.\<close>

lemma open_stale:
  assumes sd: "serde_ok sd" and s: "stale sd (InstallSnapshotTo s) st d" and one: "dirs d = [m]"
  shows "open_storage sd d = Inr (st\<lparr>snapshot := Some s, log := []\<rparr>, open_append (File LogFile) d)"
    and "m (File LogFile) \<noteq> None"
proof -
  let ?b = "last_included_index s"
  from s obtain V es where b: "last_index st < ?b" and D: "decodes sd V st es" and ne: "es \<noteq> []"
    and q: "quiet d (V(SnapshotFile \<mapsto> enc_snap sd s))" by (auto simp: stale_def)
  from decodesD(7) [OF D] obtain i where i: "contiguous_from i es" by blast
  note v = quiet_single_view [OF q one]
  have V: "view d m LogFile = Some (lines sd es)" using v(2) decodesD(3) [OF D] by simp
  show m: "m (File LogFile) \<noteq> None"
  proof
    assume "m (File LogFile) = None"
    with V ne show False by (cases es) (simp_all add: view_def)
  qed
  have "filter (\<lambda>e. ?b < index e) es = []"
    using filter_above [OF i, of ?b] contiguous_last [OF i ne] decodesD(6) [OF D ne] b by simp
  then have "replay_log sd ?b (Some (lines sd es @ [])) = Inr ([], None)"
    using replay_lines_ok [OF sd _ i, of "[]" ?b] by (simp add: replay_log_def)
  moreover have "load_hard_state sd (read_file d HardStateFile) = Inr (hard_state st)"
    "load_snapshot sd (read_file d SnapshotFile) = Inr (Some s)" "read_file d LogFile = Some (lines sd es)"
    using read_file_view [of _ m d] m v decodesD(1) [OF D] V serdeD(4) [OF sd] by (simp_all add: load_snapshot_def)
  ultimately show "open_storage sd d = Inr (st\<lparr>snapshot := Some s, log := []\<rparr>, open_append (File LogFile) d)"
    by (simp add: open_storage_def repair_io_def)
qed

lemma crash_logged: "logged d \<Longrightarrow> crash d d' \<Longrightarrow> \<exists>m. dirs d' = [m] \<and> m (File LogFile) \<noteq> None"
  by (auto simp: crash_def logged_def)

lemma linked_logged: "quiet d V \<Longrightarrow> linked d \<Longrightarrow> logged d"
  using quietD(1) by (auto simp: linked_def logged_def)

text \<open>A directory without a log is one without a hard state, at every moment of every mutation.\<close>

definition founded :: "device \<Rightarrow> bool" where
  "founded d \<longleftrightarrow> dirs d \<noteq> [] \<and> cur d (File LogFile) \<noteq> None \<and>
     (\<forall>m \<in> set (dirs d). m (File LogFile) \<noteq> None \<or> m (File HardStateFile) = None)"

lemma opened_founded: "quiet d V \<Longrightarrow> opened d \<Longrightarrow> founded d"
  using quietD(1) by (auto simp: opened_def founded_def)

lemma founded_step:
  assumes "founded d" and "f \<in> io_steps"
  shows "founded (f d)"
proof -
  from assms(1) obtain i where i: "cur d (File LogFile) = Some i" by (auto simp: founded_def)
  show ?thesis
    using assms i
    by (auto simp: io_steps_def write_atomic_def append_steps_def create_def write_to_def sync_file_def rename_def
        sync_dir_def write_handle_def sync_handle_def open_append_def founded_def cur_def split: option.splits)
qed

lemma founded_run: "set fs \<subseteq> io_steps \<Longrightarrow> founded d \<Longrightarrow> founded (run fs d)"
  by (induction fs arbitrary: d) (auto simp: founded_step)

lemma crash_founded: "founded d \<Longrightarrow> crash d d' \<Longrightarrow> \<exists>m. dirs d' = [m] \<and> (m (File LogFile) \<noteq> None \<or> m (File HardStateFile) = None)"
  by (auto simp: crash_def founded_def)

end
