(* ===== verification/Serde_Example.thy ===== *)
theory Serde_Example
  imports Storage_Disk
begin

section \<open>An encoding of the persisted types\<close>

text \<open>
  The encodings of \<^verbatim>\<open>serde_json\<close> are parameters of the storage. This theory gives one instance of them, for
  numbers as the values of the store, and shows that it has the properties of \<open>serde_ok\<close>: a value is a
  list of numbers, and a list of numbers a string of digits in unary.
\<close>

definition codes :: "('a \<Rightarrow> nat list) \<Rightarrow> (nat list \<Rightarrow> ('a \<times> nat list) option) \<Rightarrow> bool" where
  "codes enc dec \<longleftrightarrow> (\<forall>x r. dec (enc x @ r) = Some (x, r))"

fun dec_nat :: "nat list \<Rightarrow> (nat \<times> nat list) option" where
  "dec_nat [] = None"
| "dec_nat (n # r) = Some (n, r)"

definition dec_map :: "('a \<Rightarrow> 'b) \<Rightarrow> (nat list \<Rightarrow> ('a \<times> nat list) option) \<Rightarrow> nat list \<Rightarrow> ('b \<times> nat list) option" where
  "dec_map f dec r = map_option (\<lambda>(x, r). (f x, r)) (dec r)"

definition dec_pair ::
    "(nat list \<Rightarrow> ('a \<times> nat list) option) \<Rightarrow> (nat list \<Rightarrow> ('b \<times> nat list) option) \<Rightarrow>
       nat list \<Rightarrow> (('a \<times> 'b) \<times> nat list) option" where
  "dec_pair da db r = Option.bind (da r) (\<lambda>(a, r). Option.bind (db r) (\<lambda>(b, r). Some ((a, b), r)))"

fun dec_times :: "nat \<Rightarrow> (nat list \<Rightarrow> ('a \<times> nat list) option) \<Rightarrow> nat list \<Rightarrow> ('a list \<times> nat list) option" where
  "dec_times 0 dec r = Some ([], r)"
| "dec_times (Suc n) dec r =
     Option.bind (dec r) (\<lambda>(x, r). Option.bind (dec_times n dec r) (\<lambda>(xs, r). Some (x # xs, r)))"

definition enc_list :: "('a \<Rightarrow> nat list) \<Rightarrow> 'a list \<Rightarrow> nat list" where
  "enc_list enc xs = length xs # concat (map enc xs)"

fun dec_list :: "(nat list \<Rightarrow> ('a \<times> nat list) option) \<Rightarrow> nat list \<Rightarrow> ('a list \<times> nat list) option" where
  "dec_list dec [] = None"
| "dec_list dec (n # r) = dec_times n dec r"

definition enc_option :: "('a \<Rightarrow> nat list) \<Rightarrow> 'a option \<Rightarrow> nat list" where
  "enc_option enc x = (case x of None \<Rightarrow> [0] | Some a \<Rightarrow> 1 # enc a)"

fun dec_option :: "(nat list \<Rightarrow> ('a \<times> nat list) option) \<Rightarrow> nat list \<Rightarrow> ('a option \<times> nat list) option" where
  "dec_option dec [] = None"
| "dec_option dec (n # r) = (if n = 0 then Some (None, r) else dec_map Some dec r)"

lemma codesD: "codes enc dec \<Longrightarrow> dec (enc x @ r) = Some (x, r)"
  by (simp add: codes_def)

lemma codes_nat: "codes (\<lambda>n. [n]) dec_nat"
  by (simp add: codes_def)

lemma codes_map: "codes enc dec \<Longrightarrow> (\<And>x. f (g x) = x) \<Longrightarrow> codes (\<lambda>x. enc (g x)) (dec_map f dec)"
  by (simp add: codes_def dec_map_def)

lemma codes_pair: "codes ea da \<Longrightarrow> codes eb db \<Longrightarrow> codes (\<lambda>(a, b). ea a @ eb b) (dec_pair da db)"
  by (auto simp: codes_def dec_pair_def)

lemma dec_times: "codes enc dec \<Longrightarrow> dec_times (length xs) dec (concat (map enc xs) @ r) = Some (xs, r)"
  by (induction xs) (simp_all add: codes_def)

lemma codes_list: "codes enc dec \<Longrightarrow> codes (enc_list enc) (dec_list dec)"
  unfolding codes_def [of "enc_list enc"] by (simp add: enc_list_def dec_times)

lemma codes_option: "codes enc dec \<Longrightarrow> codes (enc_option enc) (dec_option dec)"
  by (auto simp: codes_def enc_option_def dec_map_def split: option.splits)

subsection \<open>The persisted types\<close>

definition str_enc :: "string \<Rightarrow> nat list" where
  "str_enc = enc_list (\<lambda>c. [of_char c])"

definition str_dec :: "nat list \<Rightarrow> (string \<times> nat list) option" where
  "str_dec = dec_list (dec_map char_of dec_nat)"

lemma codes_str: "codes str_enc str_dec"
  unfolding str_enc_def str_dec_def by (intro codes_list codes_map [where enc = "\<lambda>n. [n]"] codes_nat) simp

definition session_enc :: "session \<Rightarrow> nat list" where
  "session_enc s = [unat (client s), unat (seq s)]"

definition session_dec :: "nat list \<Rightarrow> (session \<times> nat list) option" where
  "session_dec = dec_map (\<lambda>(c, q). \<lparr>client = of_nat c, seq = of_nat q\<rparr>) (dec_pair dec_nat dec_nat)"

lemma codes_session: "codes session_enc session_dec"
  by (simp add: codes_def session_enc_def session_dec_def dec_map_def dec_pair_def)

definition addr_enc :: "member_addr \<Rightarrow> nat list" where
  "addr_enc a = str_enc (raft a) @ str_enc (client_url a)"

definition addr_dec :: "nat list \<Rightarrow> (member_addr \<times> nat list) option" where
  "addr_dec = dec_map (\<lambda>(r, c). \<lparr>raft = r, client_url = c\<rparr>) (dec_pair str_dec str_dec)"

lemma codes_addr: "codes addr_enc addr_dec"
  by (simp add: codes_def addr_enc_def addr_dec_def dec_map_def dec_pair_def codesD [OF codes_str])

definition members_enc :: "membership \<Rightarrow> nat list" where
  "members_enc m = enc_list (\<lambda>(k, a). [k] @ addr_enc a) (map (\<lambda>k. (k, the (fmlookup m k))) (bt_keys m))"

definition members_dec :: "nat list \<Rightarrow> (membership \<times> nat list) option" where
  "members_dec = dec_map fmap_of_list (dec_list (dec_pair dec_nat addr_dec))"

lemma fmap_of_bt_keys: "fmap_of_list (map (\<lambda>k. (k, the (fmlookup m k))) (bt_keys m)) = m"
proof (rule fmap_ext)
  fix k
  have "map_of (map (\<lambda>k. (k, the (fmlookup m k))) (bt_keys m)) k =
      (if k \<in> set (bt_keys m) then Some (the (fmlookup m k)) else None)"
    by (simp add: map_of_map_restrict restrict_map_def)
  then show "fmlookup (fmap_of_list (map (\<lambda>k. (k, the (fmlookup m k))) (bt_keys m))) k = fmlookup m k"
    by (cases "fmlookup m k") (auto simp: fmlookup_of_list fmlookup_dom_iff)
qed

lemma codes_members: "codes members_enc members_dec"
  unfolding members_enc_def members_dec_def
  by (rule codes_map [where enc = "enc_list (\<lambda>(k, a). [k] @ addr_enc a)"])
    (intro codes_list codes_pair codes_nat codes_addr fmap_of_bt_keys)+

fun of_command :: "nat command \<Rightarrow> (string \<times> nat option) option \<times> session option \<times> membership option" where
  "of_command (Put k v t) = (Some (k, Some v), t, None)"
| "of_command (Delete k t) = (Some (k, None), t, None)"
| "of_command Noop = (None, None, None)"
| "of_command (ConfigChange m) = (None, None, Some m)"

fun to_command :: "(string \<times> nat option) option \<times> session option \<times> membership option \<Rightarrow> nat command" where
  "to_command (Some (k, Some v), t, m) = Put k v t"
| "to_command (Some (k, None), t, m) = Delete k t"
| "to_command (None, t, None) = Noop"
| "to_command (None, t, Some m) = ConfigChange m"

definition command_enc :: "nat command \<Rightarrow> nat list" where
  "command_enc c = (case of_command c of (a, t, m) \<Rightarrow>
     enc_option (\<lambda>(k, v). str_enc k @ enc_option (\<lambda>n. [n]) v) a @ enc_option session_enc t @ enc_option members_enc m)"

definition command_dec :: "nat list \<Rightarrow> (nat command \<times> nat list) option" where
  "command_dec = dec_map to_command (dec_pair (dec_option (dec_pair str_dec (dec_option dec_nat)))
     (dec_pair (dec_option session_dec) (dec_option members_dec)))"

lemma to_of_command: "to_command (of_command c) = c"
  by (cases c) simp_all

lemma codes_command: "codes command_enc command_dec"
proof -
  have "codes (\<lambda>(a, t, m). enc_option (\<lambda>(k, v). str_enc k @ enc_option (\<lambda>n. [n]) v) a @
      (enc_option session_enc t @ enc_option members_enc m))
    (dec_pair (dec_option (dec_pair str_dec (dec_option dec_nat)))
      (dec_pair (dec_option session_dec) (dec_option members_dec)))"
    using codes_pair [OF codes_option [OF codes_pair [OF codes_str codes_option [OF codes_nat]]]
        codes_pair [OF codes_option [OF codes_session] codes_option [OF codes_members]]]
    by (simp add: case_prod_unfold)
  from codes_map [OF this to_of_command] show ?thesis
    unfolding command_enc_def [abs_def] command_dec_def .
qed

definition entry_enc :: "nat log_entry \<Rightarrow> nat list" where
  "entry_enc e = [entry_term e, index e] @ command_enc (command e)"

definition entry_dec :: "nat list \<Rightarrow> (nat log_entry \<times> nat list) option" where
  "entry_dec = dec_map (\<lambda>(t, i, c). \<lparr>entry_term = t, index = i, command = c\<rparr>)
     (dec_pair dec_nat (dec_pair dec_nat command_dec))"

definition hard_enc :: "hard_state \<Rightarrow> nat list" where
  "hard_enc h = [hs_current_term h] @ enc_option (\<lambda>n. [n]) (voted_for h)"

definition hard_dec :: "nat list \<Rightarrow> (hard_state \<times> nat list) option" where
  "hard_dec = dec_map (\<lambda>(t, v). \<lparr>hs_current_term = t, voted_for = v\<rparr>) (dec_pair dec_nat (dec_option dec_nat))"

definition snap_enc :: "nat snapshot \<Rightarrow> nat list" where
  "snap_enc s = [last_included_index s, last_included_term s] @ enc_option members_enc (membership s) @ [state s]"

definition snap_dec :: "nat list \<Rightarrow> (nat snapshot \<times> nat list) option" where
  "snap_dec = dec_map (\<lambda>(i, t, m, v). \<lparr>last_included_index = i, last_included_term = t, membership = m, state = v\<rparr>)
     (dec_pair dec_nat (dec_pair dec_nat (dec_pair (dec_option members_dec) dec_nat)))"

lemma codes_entry: "codes entry_enc entry_dec"
  by (simp add: codes_def entry_enc_def entry_dec_def dec_map_def dec_pair_def codesD [OF codes_command])

lemma codes_hard: "codes hard_enc hard_dec"
  by (simp add: codes_def hard_enc_def hard_dec_def dec_map_def dec_pair_def codesD [OF codes_option [OF codes_nat]])

lemma codes_snap: "codes snap_enc snap_dec"
  by (simp add: codes_def snap_enc_def snap_dec_def dec_map_def dec_pair_def codesD [OF codes_option [OF codes_members]])

subsection \<open>Numbers as text\<close>

definition unary :: "nat list \<Rightarrow> string" where
  "unary ns = concat (map (\<lambda>n. replicate n (CHR ''1'') @ [CHR '';'']) ns)"

fun numbers :: "nat \<Rightarrow> string \<Rightarrow> nat list" where
  "numbers k [] = []"
| "numbers k (c # cs) =
     (if c = CHR ''1'' then numbers (k + 1) cs else if c = CHR '';'' then k # numbers 0 cs else [])"

lemma numbers_replicate: "numbers k (replicate n (CHR ''1'') @ cs) = numbers (k + n) cs"
  by (induction n arbitrary: k) simp_all

lemma numbers_unary: "numbers 0 (unary ns @ cs) = ns @ numbers 0 cs"
  by (induction ns) (simp_all add: unary_def numbers_replicate)

lemma newline_unary: "newline \<notin> set (unary ns)"
  by (auto simp: unary_def newline_def)

definition example_serde :: "nat serde" where
  "example_serde = \<lparr>enc_entry = (\<lambda>e. unary (entry_enc e)), dec_entry = (\<lambda>s. map_option fst (entry_dec (numbers 0 s))),
     enc_hard = (\<lambda>h. unary (hard_enc h)), dec_hard = (\<lambda>s. map_option fst (hard_dec (numbers 0 s))),
     enc_snap = (\<lambda>x. unary (snap_enc x)), dec_snap = (\<lambda>s. map_option fst (snap_dec (numbers 0 s)))\<rparr>"

lemma example_serde_ok: "serde_ok example_serde"
proof -
  have "numbers 0 (unary ns @ [newline]) = ns" "numbers 0 (unary ns) = ns" for ns
    using numbers_unary [of ns "[newline]"] numbers_unary [of ns "[]"] by (simp_all add: newline_def)
  then show ?thesis
    using codesD [OF codes_entry, of _ "[]"] codesD [OF codes_hard, of _ "[]"] codesD [OF codes_snap, of _ "[]"]
    by (simp add: serde_ok_def example_serde_def newline_unary)
qed

end
