(* ===== verification/Storage_Crash.thy ===== *)
theory Storage_Crash
  imports Serde_Example
begin

section \<open>Crash safety of the storage\<close>

text \<open>
  The guarantees of \<^verbatim>\<open>src/raft/storage.rs\<close>: acknowledged mutations are durable, interrupted ones atomic,
  damage is reported. Three theorems show where they fall short: an append before the log is linked into the directory,
  and a crash inside \<^verbatim>\<open>install_snapshot\<close>.
\<close>

text \<open>A data directory with an empty log, as it is after the first start and the first saved hard state.\<close>

definition example_device :: device where
  "example_device = \<lparr>dirs = [[File LogFile \<mapsto> 0]], content = (\<lambda>_. []), durable = (\<lambda>_. []), fresh = 1, handle = 0\<rparr>"

definition example_entry :: "nat log_entry" where
  "example_entry = \<lparr>entry_term = 1, index = 1, command = Noop\<rparr>"

lemma example_holds: "holds example_serde example_device empty_storage \<and> linked example_device \<and> opened example_device"
proof -
  let ?V = "(\<lambda>n. if n = LogFile then Some [] else None) :: fname \<Rightarrow> string option"
  have "quiet example_device ?V"
    by (auto simp: quiet_def example_device_def view_def fun_eq_iff split: if_splits)
  moreover have "decodes example_serde ?V empty_storage []"
    by (auto simp: decodes_def load_hard_state_def load_snapshot_def empty_storage_def)
  ultimately show ?thesis by (auto simp: holds_def linked_def opened_def cur_def example_device_def)
qed

lemma crash_now: "dirs d = [m] \<Longrightarrow> crash d (d\<lparr>durable := content d\<rparr>)"
  by (auto simp: crash_def survives_def)

lemma recovered:
  assumes "serde_ok sd" and "quiet d' V" and "torn sd V r" and "founded d" and "crash d d'"
  shows "\<exists>d''. open_storage sd d' = Inr (r, d'') \<and> holds sd d'' r \<and> opened d'' \<and> (logged d \<longrightarrow> linked d'')"
proof -
  from crash_founded [OF assms(4,5)] obtain m where
    m: "dirs d' = [m]" "m (File LogFile) \<noteq> None \<or> m (File HardStateFile) = None" by blast
  have "logged d \<longrightarrow> m (File LogFile) \<noteq> None" using crash_logged [OF _ assms(5)] m(1) by auto
  with open_torn [OF assms(1,2) m(1) assms(3)] m(2) show ?thesis by blast
qed

lemma io_taken: "set (take k (mutate_io sd m st)) \<subseteq> io_steps"
  using mutate_io_steps set_take_subset by fast

lemma held_logged:
  assumes "holds sd d st" and "linked d"
  shows "logged (run (take k (mutate_io sd m st)) d)"
proof -
  from assms have "logged d" using linked_logged by (auto simp: holds_def)
  then show ?thesis by (rule logged_run [OF io_taken])
qed

lemma held_founded:
  assumes "holds sd d st" and "opened d"
  shows "founded (run (take k (mutate_io sd m st)) d)"
proof -
  from assms have "founded d" using opened_founded by (auto simp: holds_def)
  then show ?thesis by (rule founded_run [OF io_taken])
qed



text \<open>
  C37. Finding: an append that returned can be lost. \<^verbatim>\<open>open\<close> creates \<^verbatim>\<open>log.jsonl\<close> and does not sync the directory, nor does
  an append. As long as the directory entry is not on disk, a crash after the append can leave the directory without the
  log, and the next start finds the state before the append. So it is in every new data directory.
\<close>

theorem unlinked_append_can_be_lost:
  assumes "serde_ok sd" and "holds sd d st" and "opened d" and "\<not> linked d" and "mutate (Append (e # es)) st = Inr st'"
  shows "st' \<noteq> st \<and>
    (\<exists>d' d''. crash (run (mutate_io sd (Append (e # es)) st) d) d' \<and> open_storage sd d' = Inr (st, d''))"
proof
  show "st' \<noteq> st" using assms(5) by (cases st) (auto simp: append_Inr_iff)
  from assms(2) obtain V fs where q: "quiet d V" and D: "decodes sd V st fs" by (auto simp: holds_def)
  from assms(3,4) obtain m where m: "m \<in> set (dirs d)" "m (File LogFile) = None" by (auto simp: opened_def linked_def)
  define bs where "bs = lines sd (e # es)"
  have io: "mutate_io sd (Append (e # es)) st = append_steps bs" by (simp add: append_io_def bs_def)
  let ?io = "append_steps bs" let ?d = "run ?io (d\<lparr>dirs := [m]\<rparr>)" let ?d' = "?d\<lparr>durable := content ?d\<rparr>"
  have dirs: "run ?io (d\<lparr>dirs := ms\<rparr>) = (run ?io d)\<lparr>dirs := ms\<rparr>" "dirs (run ?io d) = dirs d" for ms
    using append_dirs [of "length ?io" bs] by simp_all
  have c: "crash ?d ?d'" by (rule crash_now [of _ m]) (simp only: dirs, simp)
  then have "crash (run (mutate_io sd (Append (e # es)) st) d) ?d'"
    using m(1) unfolding crash_def io dirs by (auto simp: dirs)
  moreover have "quiet ?d' V"
    using quiet_crash [OF _ c] append_unseen [OF q assms(3) m, of "length ?io" bs] by simp
  with open_torn [OF assms(1) _ _ decodes_torn [OF D], of ?d' m] have "\<exists>d''. open_storage sd ?d' = Inr (st, d'')"
    unfolding dirs by auto
  ultimately show "\<exists>d' d''. crash (run (mutate_io sd (Append (e # es)) st) d) d' \<and> open_storage sd d' = Inr (st, d'')" by blast
qed

text \<open>A data directory that has just been created, and what the first start makes of it.\<close>

definition empty_device :: device where
  "empty_device = \<lparr>dirs = [Map.empty], content = (\<lambda>_. []), durable = (\<lambda>_. []), fresh = 0, handle = 0\<rparr>"

lemma open_empty:
  "\<exists>d. open_storage sd empty_device = Inr (empty_storage, d) \<and> holds sd d empty_storage \<and> opened d \<and> \<not> linked d"
proof -
  let ?d = "open_append (File LogFile) empty_device"
  let ?V = "(\<lambda>n. if n = LogFile then Some [] else None) :: fname \<Rightarrow> string option"
  have one: "dirs empty_device = [Map.empty]" by (simp add: empty_device_def)
  have q: "quiet empty_device ?V" by (auto simp: quiet_def view_def empty_device_def fun_eq_iff)
  have "decodes sd ?V empty_storage []" by (auto simp: decodes_def load_hard_state_def load_snapshot_def empty_storage_def)
  with open_append_log(1,3) [OF q one] have "holds sd ?d empty_storage \<and> opened ?d" by (auto simp: holds_def)
  moreover have "\<not> linked ?d" by (simp add: linked_def open_append_def create_def cur_def empty_device_def)
  moreover have "open_storage sd empty_device = Inr (empty_storage, ?d)"
    by (simp add: open_storage_def read_file_def cur_def empty_device_def load_hard_state_def load_snapshot_def replay_log_def
        empty_storage_def repair_io_def)
  ultimately show ?thesis by blast
qed

theorem unlinked_append_can_be_lost_witness:
  "\<exists>d d' d''. open_storage example_serde empty_device = Inr (empty_storage, d) \<and>
     crash (run (append_io example_serde [example_entry]) d) d' \<and> open_storage example_serde d' = Inr (empty_storage, d'')"
proof -
  have m: "mutate (Append [example_entry]) empty_storage = Inr (empty_storage\<lparr>log := [example_entry]\<rparr>)"
    by (simp add: append_Inr_iff example_entry_def last_index_def snapshot_index_def empty_storage_def)
  from open_empty [of example_serde] obtain d where
    d: "open_storage example_serde empty_device = Inr (empty_storage, d)" "holds example_serde d (empty_storage :: nat storage)"
    "opened d" "\<not> linked d" by blast
  from unlinked_append_can_be_lost [OF example_serde_ok d(2-4) m] d(1) show ?thesis by auto
qed

lemma mutate_recovers:
  assumes "serde_ok sd" and "holds sd d st" and "opened d" and "mutate m st = Inr st'"
    and "crash (run (take k (mutate_io sd m st)) d) d'"
  shows "\<exists>r d''. open_storage sd d' = Inr (r, d'') \<and> crash_result m st st' r \<and> opened d'' \<and> (linked d \<longrightarrow> linked d'') \<and>
    (holds sd d'' r \<or> (\<exists>s. m = InstallSnapshotTo s \<and> last_index st < last_included_index s \<and> r = st'))"
proof -
  note F = held_founded [OF assms(2,3), of k m] and L = held_logged [OF assms(2), of k m]
  from mutate_crash [OF assms] consider V r where "quiet d' V" "torn sd V r" "crash_result m st st' r"
    | "stale sd m st d'" by blast
  then show ?thesis
  proof cases
    case 1
    from recovered [OF assms(1) 1(1,2) F assms(5)] 1(3) L show ?thesis by blast
  next
    case 2
    then obtain s where s: "m = InstallSnapshotTo s" "last_index st < last_included_index s" by (auto simp: stale_def)
    from crash_founded [OF F assms(5)] obtain n where n: "dirs d' = [n]" by blast
    from 2 obtain V where q: "quiet d' V" by (auto simp: stale_def)
    note O = open_stale [OF assms(1) 2 [unfolded s(1)] n]
    have "retained_suffix st s = []"
      using s(2) term_at_None_iff [of st "last_included_index s"] by (auto simp: retained_suffix_def)
    then have "st' = st\<lparr>snapshot := Some s, log := []\<rparr>" using assms(4) s(1) by (auto simp: install_snapshot_Inr_iff)
    with O s open_append_log(2,3) [OF q n] show ?thesis by (auto simp: crash_result_def)
  qed
qed



lemma replay_lines_reachable:
  assumes "\<forall>c \<in> set (butlast chunks). c \<noteq> [] \<and> last c = newline" and "len = offset + length (concat chunks)"
  shows "replay_lines sd si len prev g offset lg chunks \<noteq> Inl Unreachable_Line"
  using assms
proof (induction chunks arbitrary: prev g offset lg)
  case (Cons c cs)
  have IH: "replay_lines sd si len prev' g' (offset + length c) lg' cs \<noteq> Inl Unreachable_Line" for prev' g' lg'
    by (rule Cons.IH) (use Cons.prems in \<open>auto split: if_splits\<close>)
  have "cs = [] \<or> c \<noteq> [] \<and> last c = newline" using Cons.prems(1) by auto
  then show ?case
  proof
    assume "cs = []"
    then show ?thesis using Cons.prems IH by (auto simp: Let_def split: option.splits)
  next
    assume "c \<noteq> [] \<and> last c = newline"
    then show ?thesis using IH by (auto simp: Let_def split: option.splits)
  qed
qed simp

text \<open>A replay that succeeds has read every line but perhaps the last, in the order of their indices.\<close>

lemma replay_lines_reads:
  assumes "replay_lines sd si len prev g offset lg chunks = Inr (lg', k)" and "len = offset + length (concat chunks)"
    and "\<forall>c \<in> set chunks. c \<noteq> []"
  shows "\<exists>cs es tl. chunks = cs @ tl \<and> length tl \<le> 1 \<and> map (dec_entry sd) cs = map Some es \<and>
    (\<exists>i. contiguous_from i es \<and> (\<forall>p. prev = Some p \<longrightarrow> i = p + 1)) \<and> lg' = lg @ filter (\<lambda>e. si < index e) es"
  using assms
proof (induction chunks arbitrary: prev g offset lg)
  case Nil
  then show ?case by (intro exI [of _ "[]"]) (cases prev; auto)
next
  case (Cons c cs)
  show ?case
  proof (cases "\<exists>e. dec_entry sd c = Some e \<and> last c = newline")
    case True
    then obtain e where e: "dec_entry sd c = Some e" "last c = newline" by blast
    let ?o = "offset + length c" and ?lg = "if si < index e then lg @ [e] else lg"
    from Cons.prems e have r: "replay_lines sd si len (Some (index e)) ?o ?o ?lg cs = Inr (lg', k)"
      and p: "\<forall>p. prev = Some p \<longrightarrow> index e = p + 1" by (auto simp: Let_def split: option.splits if_splits)
    from Cons.IH [OF r] Cons.prems(2,3) obtain cs' es tl where
      "cs = cs' @ tl" "length tl \<le> 1" "map (dec_entry sd) cs' = map Some es" "contiguous_from (index e + 1) es"
      "lg' = ?lg @ filter (\<lambda>e. si < index e) es" by auto
    with e p show ?thesis
      by (intro exI [of _ "c # cs'"] exI [of _ "e # es"] exI [of _ tl]) auto
  next
    case False
    with Cons.prems have "offset + length c = len" "lg' = lg" by (auto simp: Let_def split: option.splits if_splits)
    then have "cs = []" using Cons.prems(2,3) by (cases cs) auto
    with \<open>lg' = lg\<close> show ?thesis
      by (intro exI [of _ "[]"] exI [of _ "[c]"]) (cases prev; auto)
  qed
qed

lemma split_inclusive_nonempty: "c \<in> set (split_inclusive xs) \<Longrightarrow> c \<noteq> []"
  by (induction xs arbitrary: c) (auto split: list.splits if_splits)

lemma open_reads:
  assumes "open_storage sd d = Inr (st, d')" and "read_file d LogFile = Some bs"
  shows "\<exists>cs es tl. split_inclusive bs = cs @ tl \<and> length tl \<le> 1 \<and> map (dec_entry sd) cs = map Some es \<and>
    (\<exists>i. contiguous_from i es) \<and> log st = filter (\<lambda>e. snapshot_index st < index e) es"
proof -
  from assms obtain k where "replay_log sd (snapshot_index st) (Some bs) = Inr (log st, k)"
    by (auto simp: open_storage_def bind_r_Inr_iff snapshot_index_def Let_def)
  then obtain lg k' where r: "replay_lines sd (snapshot_index st) (length bs) None 0 0 [] (split_inclusive bs) = Inr (lg, k')"
    and "(case lg of e # _ \<Rightarrow> if index e \<noteq> snapshot_index st + 1
        then Inl (Failed (Corrupt (LogStart (index e) (snapshot_index st)))) else Inr (lg, k') | [] \<Rightarrow> Inr (lg, k')) = Inr (log st, k)"
    unfolding replay_log_def option.case bind_r_Inr_iff by auto
  then have "lg = log st" by (cases lg) (simp_all split: if_splits)
  note r [unfolded this]
  from replay_lines_reads [OF this, unfolded split_inclusive_concat] obtain cs es tl where "split_inclusive bs = cs @ tl" "length tl \<le> 1"
    "map (dec_entry sd) cs = map Some es" "\<exists>i. contiguous_from i es"
    "log st = filter (\<lambda>e. snapshot_index st < index e) es"
    using split_inclusive_nonempty by auto
  then show ?thesis by blast
qed

lemma open_reachable: "open_storage sd d \<noteq> Inl Unreachable_Line"
proof -
  have r: "replay_lines sd x (length bs) None 0 0 [] (split_inclusive bs) \<noteq> Inl Unreachable_Line" for x bs
    by (rule replay_lines_reachable) (use split_inclusive_complete in \<open>auto simp: split_inclusive_concat\<close>)
  then have "replay_log sd x f \<noteq> Inl Unreachable_Line" for x f
    by (auto simp: replay_log_def bind_r_Inl_iff split: option.splits list.splits prod.splits if_splits)
  then show ?thesis
    by (auto simp: open_storage_def bind_r_Inl_iff load_hard_state_def load_snapshot_def split: option.splits)
qed

text \<open>
  C17. Damage is reported. \<^verbatim>\<open>open\<close> on any directory whose hard state and snapshot are readable, and whose log has a
  malformed line before its last, fails with the position of the line; a line that skips an index makes it fail with the
  index that was expected; an unreadable hard state or snapshot makes it fail. Conversely a start that succeeds, on whatever
  bytes, has skipped nothing: every line of the log but perhaps the last is an entry, their indices are consecutive, and
  the log in memory is those above the snapshot. And no bytes lead into the \<^verbatim>\<open>unreachable!\<close> of the replay.
\<close>

theorem damage_is_reported:
  assumes "serde_ok sd" and "load_hard_state sd (read_file d HardStateFile) = Inr hs"
    and "load_snapshot sd (read_file d SnapshotFile) = Inr sn"
    and "read_file d LogFile = Some (lines sd es @ bad @ newline # rest)"
    and "contiguous_from i es" and "newline \<notin> set bad"
  shows "(dec_entry sd (bad @ [newline]) = None \<and> rest \<noteq> [] \<longrightarrow>
      open_storage sd d = Inl (Failed (Corrupt (BadLine (length (lines sd es)))))) \<and>
    (dec_entry sd (bad @ [newline]) = Some e \<and> es \<noteq> [] \<and> index e \<noteq> index (last es) + 1 \<longrightarrow>
      open_storage sd d = Inl (Failed (Corrupt (IndexGap (index (last es) + 1) (index e))))) \<and>
    (\<forall>d bs. read_file d HardStateFile = Some bs \<and> dec_hard sd bs = None \<longrightarrow>
      open_storage sd d = Inl (Failed (Corrupt BadHardState))) \<and>
    (\<forall>d bs. read_file d SnapshotFile = Some bs \<and> dec_snap sd bs = None \<longrightarrow> (\<exists>e. open_storage sd d = Inl (Failed (Corrupt e)))) \<and>
    (\<forall>d bs st d'. open_storage sd d = Inr (st, d') \<and> read_file d LogFile = Some bs \<longrightarrow>
      (\<exists>cs es tl. split_inclusive bs = cs @ tl \<and> length tl \<le> 1 \<and> map (dec_entry sd) cs = map Some es \<and>
        (\<exists>i. contiguous_from i es) \<and> log st = filter (\<lambda>e. snapshot_index st < index e) es)) \<and>
    (\<forall>d. open_storage sd d \<noteq> Inl Unreachable_Line)"
proof -
  let ?f = "lines sd es @ bad @ newline # rest"
  have R: "replay_lines sd si (length ?f) None 0 0 [] (split_inclusive ?f) =
      replay_lines sd si (length ?f) (if es = [] then None else Some (index (last es))) (length (lines sd es))
        (length (lines sd es)) (filter (\<lambda>e. si < index e) es) ((bad @ [newline]) # split_inclusive rest)" for si
    using replay_lines_prefix [OF assms(1,5), of None si "length ?f" 0 "[]" "(bad @ [newline]) # split_inclusive rest"]
    by (simp add: split_lines_bad [OF assms(1,6)])
  have O: "open_storage sd d = Inl (Failed x)"
    if "\<And>si. replay_lines sd si (length ?f) None 0 0 [] (split_inclusive ?f) = Inl (Failed x)" for x
    using that assms(2-4) by (simp add: open_storage_def replay_log_def Let_def)
  have "open_storage sd d = Inl (Failed (Corrupt (BadLine (length (lines sd es)))))"
    if "dec_entry sd (bad @ [newline]) = None" "rest \<noteq> []"
    by (rule O) (unfold R, use that in \<open>simp add: Let_def\<close>)
  moreover have "open_storage sd d = Inl (Failed (Corrupt (IndexGap (index (last es) + 1) (index e))))"
    if "dec_entry sd (bad @ [newline]) = Some e" "es \<noteq> []" "index e \<noteq> index (last es) + 1"
    by (rule O) (unfold R, use that in \<open>simp add: Let_def\<close>)
  moreover have "open_storage sd d = Inl (Failed (Corrupt BadHardState))"
    if "read_file d HardStateFile = Some bs" "dec_hard sd bs = None" for d bs
    using that by (simp add: open_storage_def load_hard_state_def)
  moreover have "\<exists>e. open_storage sd d = Inl (Failed (Corrupt e))"
    if "read_file d SnapshotFile = Some bs" "dec_snap sd bs = None" for d bs
    using that by (auto simp: open_storage_def load_hard_state_def load_snapshot_def split: option.splits)
  ultimately show ?thesis by (intro conjI allI impI open_reachable open_reads) auto
qed

theorem damage_is_reported_witness:
  "open_storage example_serde (example_device\<lparr>content := (\<lambda>_. ''?'' @ newline # ''x'')\<rparr>) = Inl (Failed (Corrupt (BadLine 0)))"
proof -
  let ?d = "example_device\<lparr>content := (\<lambda>_. ''?'' @ newline # ''x'')\<rparr>"
  have f: "read_file ?d HardStateFile = None" "read_file ?d SnapshotFile = None"
    "read_file ?d LogFile = Some (lines example_serde [] @ ''?'' @ newline # ''x'')"
    by (simp_all add: read_file_def cur_def example_device_def)
  have "load_hard_state example_serde (read_file ?d HardStateFile) = Inr default_hard_state"
    "load_snapshot example_serde (read_file ?d SnapshotFile) = Inr None"
    by (simp_all only: f load_hard_state_def load_snapshot_def option.case)
  from damage_is_reported [OF example_serde_ok this f(3), of 1 example_entry] show ?thesis
    by (simp add: newline_def example_serde_def entry_dec_def dec_map_def dec_pair_def)
qed

subsection \<open>A crash inside the installation of a snapshot\<close>

lemma open_parts:
  assumes q: "quiet d V" and one: "dirs d = [m]" and m: "m (File LogFile) \<noteq> None"
    and hs: "load_hard_state sd (V HardStateFile) = Inr h" and sn: "load_snapshot sd (V SnapshotFile) = Inr (Some s)"
  shows "open_storage sd d = bind_r (replay_log sd (last_included_index s) (V LogFile))
    (\<lambda>(lg, keep_len). Inr (\<lparr>hard_state = h, snapshot = Some s, log = lg\<rparr>,
       run (repair_io keep_len @ [open_append (File LogFile)]) d))"
  using quiet_single_view [OF q one] read_file_view [of _ m d] m hs sn by (simp add: open_storage_def)

text \<open>
  C36. Finding: a crash inside \<^verbatim>\<open>install_snapshot\<close> does not complete on the next start when the node's entry at the boundary
  differs from the snapshot's: the installation would have cleared the log, the start keeps the divergent
  entries above the boundary.
\<close>

theorem crashed_install_keeps_divergent_log:
  assumes "serde_ok sd" and "holds sd d st" and "linked d"
    and "snapshot_index st < last_included_index s" and "last_included_index s \<le> last_index st"
    and "term_at st (last_included_index s) \<noteq> Some (last_included_term s)"
  shows "install_snapshot st s = Inr (st\<lparr>snapshot := Some s, log := []\<rparr>) \<and>
    (\<exists>d1 d2. crash (run (take 5 (install_snapshot_io sd st s)) d) d1 \<and>
      open_storage sd d1 = Inr (st\<lparr>snapshot := Some s,
        log := drop (last_included_index s - snapshot_index st) (log st)\<rparr>, d2))"
proof -
  from assms(2) obtain V es where q: "quiet d V" and D: "decodes sd V st es" by (auto simp: holds_def)
  let ?d1 = "run (write_snapshot_io sd s) d"
  have io: "take 5 (install_snapshot_io sd st s) = write_snapshot_io sd s"
    using assms(4) by (simp add: install_snapshot_io_def write_snapshot_io_def write_atomic_def)
  note w = write_atomic_done [OF q, of SnapshotFile "enc_snap sd s", folded write_snapshot_io_def]
  have c: "crash ?d1 (?d1\<lparr>durable := content ?d1\<rparr>)" by (rule crash_now [OF w(5)])
  from open_torn [OF assms(1) quiet_crash [OF w(1) c] _ decodes_torn [OF decodes_snapshot [OF assms(1) D assms(4,5)]]]
  have "\<exists>d2. open_storage sd (?d1\<lparr>durable := content ?d1\<rparr>) = Inr (st\<lparr>snapshot := Some s,
      log := drop (last_included_index s - snapshot_index st) (log st)\<rparr>, d2)"
    using w(5) by auto
  moreover have "install_snapshot st s = Inr (st\<lparr>snapshot := Some s, log := []\<rparr>)"
    using assms(4,6) by (simp add: install_snapshot_Inr_iff retained_suffix_def)
  ultimately show ?thesis using c io by metis
qed

theorem crashed_install_keeps_divergent_log_witness:
  "\<exists>d1 d2. crash (run (take 5 (install_snapshot_io example_serde (empty_storage\<lparr>log := [example_entry, example_entry\<lparr>index := 2\<rparr>]\<rparr>)
      \<lparr>last_included_index = 1, last_included_term = 2, membership = None, state = 0\<rparr>))
      (run (append_io example_serde [example_entry, example_entry\<lparr>index := 2\<rparr>]) example_device)) d1 \<and>
    open_storage example_serde d1 = Inr (empty_storage\<lparr>snapshot := Some \<lparr>last_included_index = 1, last_included_term = 2,
      membership = None, state = 0\<rparr>, log := [example_entry\<lparr>index := 2\<rparr>]\<rparr>, d2)"
proof -
  let ?es = "[example_entry, example_entry\<lparr>index := 2\<rparr>]" and ?s = "\<lparr>last_included_index = 1,
    last_included_term = 2, membership = None, state = 0\<rparr>"
  let ?st = "empty_storage\<lparr>log := ?es\<rparr>"
  have m: "mutate (Append ?es) empty_storage = Inr ?st"
    by (simp add: append_Inr_iff example_entry_def last_index_def snapshot_index_def empty_storage_def)
  have h: "holds example_serde (run (append_io example_serde ?es) example_device) ?st"
    "linked (run (append_io example_serde ?es) example_device)"
    using mutate_done [OF example_serde_ok _ _ m] example_holds by auto
  have "snapshot_index ?st = 0" "last_index ?st = 2" "term_at ?st 1 = Some 1"
    by (simp_all add: last_index_def snapshot_index_def empty_storage_def term_at_def entry_eq example_entry_def list_get_def)
  with crashed_install_keeps_divergent_log [OF example_serde_ok h, of ?s] show ?thesis
    by (simp add: empty_storage_def)
qed

text \<open>
  C35. Finding: the crash ordering of \<^verbatim>\<open>install_snapshot\<close> does not protect a node whose log ends below the
  snapshot boundary. If it crashes after the snapshot is written and before the log is rewritten, the next
  start succeeds but leaves the old entries in the file; the first append after it creates a gap in the file, and from
  then on every start fails with a corruption error.
\<close>

theorem crashed_install_breaks_log:
  assumes "serde_ok sd" and "holds sd d st" and "linked d" and "log st \<noteq> []"
    and "last_index st < last_included_index s" and "index e = last_included_index s + 1"
  shows "\<exists>d1 st1 d2 st2. crash (run (take 5 (install_snapshot_io sd st s)) d) d1 \<and>
    open_storage sd d1 = Inr (st1, d2) \<and> append st1 [e] = Inr st2 \<and>
    open_storage sd (run (append_io sd [e]) d2) =
      Inl (Failed (Corrupt (IndexGap (last_index st + 1) (last_included_index s + 1))))"
proof -
  from assms(2) obtain V es where q: "quiet d V" and D: "decodes sd V st es" by (auto simp: holds_def)
  from decodesD(7) [OF D] obtain i where i: "contiguous_from i es" by blast
  have ne: "es \<noteq> []" using assms(4) decodesD(4) [OF D] by auto
  have la: "index (last es) = last_index st" using decodesD(6) [OF D ne] .
  let ?b = "last_included_index s" and ?d1 = "run (write_snapshot_io sd s) d"
  let ?V = "V(SnapshotFile \<mapsto> enc_snap sd s)" and ?d1' = "?d1\<lparr>durable := content ?d1\<rparr>"
  let ?st1 = "\<lparr>hard_state = hard_state st, snapshot = Some s, log = []\<rparr>"
  let ?d2 = "open_append (File LogFile) ?d1'" let ?d3 = "run (append_io sd [e]) ?d2"
  have hs: "load_hard_state sd (?V HardStateFile) = Inr (hard_state st)" "load_snapshot sd (?V SnapshotFile) = Inr (Some s)"
    using decodesD(1) [OF D] serdeD(4) [OF assms(1)] by (simp_all add: load_snapshot_def)
  have io: "take 5 (install_snapshot_io sd st s) = write_snapshot_io sd s"
  proof -
    have "\<not> ?b \<le> snapshot_index st" using assms(5) snapshot_index_le_last [of st] by linarith
    then show ?thesis by (simp add: install_snapshot_io_def write_snapshot_io_def write_atomic_def)
  qed
  note w = write_atomic_done [OF q, of SnapshotFile "enc_snap sd s", folded write_snapshot_io_def]
  have c: "crash ?d1 ?d1'" by (rule crash_now [OF w(5)])
  have q1: "quiet ?d1' ?V" by (rule quiet_crash [OF w(1) c])
  have m: "dirs ?d1' = [cur ?d1]" using w(5) by simp
  have lk: "cur ?d1 (File LogFile) = Some (handle ?d1)" using w(3,5) assms(3) by (simp add: linked_def)
  then have m': "cur ?d1 (File LogFile) \<noteq> None" by simp
  have low: "filter (\<lambda>e. ?b < index e) es = []"
    using filter_above [OF i, of ?b] contiguous_last [OF i ne] la assms(5) by simp
  have "replay_log sd ?b (Some (lines sd es @ [])) = Inr ([], None)"
    using replay_lines_ok [OF assms(1) _ i, of "[]" ?b] low by (simp add: replay_log_def)
  then have o1: "open_storage sd ?d1' = Inr (?st1, ?d2)"
    using open_parts [OF q1 m m' hs] decodesD(3) [OF D] by (simp add: repair_io_def)
  have ap: "append ?st1 [e] = Inr (?st1\<lparr>log := [e]\<rparr>)"
    using assms(6) by (simp add: append_Inr_iff last_index_def snapshot_index_def)
  note o2 = open_append_log [OF q1 m]
  have q3: "quiet ?d3 (?V(LogFile \<mapsto> lines sd es @ lines sd [e]))"
    using append_steps_done(1) [OF o2(1) o2(2) [OF m']] decodesD(3) [OF D] by (simp add: append_io_def)
  have m3: "dirs ?d3 = [cur ?d1]"
    using m lk by (simp add: append_io_def append_steps_def write_handle_def sync_handle_def open_append_def cur_def)
  have "replay_log sd ?b (Some (lines sd es @ enc_entry sd e @ newline # [])) =
      Inl (Failed (Corrupt (IndexGap (last_index st + 1) (?b + 1))))"
    using replay_lines_prefix [OF assms(1) i, of None ?b "length (lines sd es @ enc_entry sd e @ newline # [])" 0 "[]"
        "[enc_entry sd e @ [newline]]"] ne la assms(5,6)
    by (simp add: replay_log_def split_lines_bad [OF assms(1) serdeD(2) [OF assms(1)]] serdeD(1) [OF assms(1)] Let_def)
  then have "open_storage sd ?d3 = Inl (Failed (Corrupt (IndexGap (last_index st + 1) (?b + 1))))"
    using open_parts [OF q3 m3 m', of sd "hard_state st" s] hs by simp
  with c o1 ap io show ?thesis by metis
qed

theorem crashed_install_breaks_log_witness:
  "\<exists>d1 st1 d2 st2.
    crash (run (take 5 (install_snapshot_io example_serde (empty_storage\<lparr>log := [example_entry]\<rparr>)
      \<lparr>last_included_index = 3, last_included_term = 1, membership = None, state = 0\<rparr>))
      (run (append_io example_serde [example_entry]) example_device)) d1 \<and>
    open_storage example_serde d1 = Inr (st1, d2) \<and> append st1 [\<lparr>entry_term = 1, index = 4, command = Noop\<rparr>] = Inr st2 \<and>
    open_storage example_serde (run (append_io example_serde [\<lparr>entry_term = 1, index = 4, command = Noop\<rparr>]) d2) =
      Inl (Failed (Corrupt (IndexGap 2 4)))"
proof -
  let ?st = "empty_storage\<lparr>log := [example_entry]\<rparr>"
  have m: "mutate (Append [example_entry]) empty_storage = Inr ?st"
    by (simp add: append_Inr_iff example_entry_def last_index_def snapshot_index_def empty_storage_def)
  have h: "holds example_serde (run (append_io example_serde [example_entry]) example_device) ?st"
    "linked (run (append_io example_serde [example_entry]) example_device)"
    using mutate_done [OF example_serde_ok _ _ m] example_holds by auto
  have "last_index ?st = 1" by (simp add: last_index_def snapshot_index_def empty_storage_def)
  with crashed_install_breaks_log [OF example_serde_ok h, of
      "\<lparr>last_included_index = 3, last_included_term = 1, membership = None, state = 0\<rparr>"
      "\<lparr>entry_term = 1, index = 4, command = Noop\<rparr>"]
  show ?thesis by (simp add: numeral_eq_Suc)
qed

end
