(* ===== verification/Text.thy ===== *)
theory Text
  imports Prelude
begin

section \<open>Text: the string functions of the standard library\<close>

text \<open>
  The functions on \<^verbatim>\<open>str\<close> that the configuration, the client API and the HTTP transport use: trimming, splitting
  and \<^verbatim>\<open>u64::from_str\<close> (an optional plus sign, then digits, with an overflow check at every digit).
  Strings are sequences of ASCII characters.
\<close>

definition is_space :: "char \<Rightarrow> bool" where
  "is_space c = (of_char c = (32 :: nat) \<or> (9 \<le> (of_char c :: nat) \<and> (of_char c :: nat) \<le> 13))"

definition trim_start :: "string \<Rightarrow> string" where
  "trim_start s = dropWhile is_space s"

definition trim_end :: "string \<Rightarrow> string" where
  "trim_end s = rev (dropWhile is_space (rev s))"

definition trim :: "string \<Rightarrow> string" where
  "trim s = trim_end (trim_start s)"

fun split_on :: "char \<Rightarrow> string \<Rightarrow> string list" where
  "split_on d [] = [[]]"
| "split_on d (c # cs) =
     (if c = d then [] # split_on d cs
      else case split_on d cs of [] \<Rightarrow> [[c]] | w # ws \<Rightarrow> (c # w) # ws)"

fun split_once :: "char \<Rightarrow> string \<Rightarrow> (string \<times> string) option" where
  "split_once d [] = None"
| "split_once d (c # cs) =
     (if c = d then Some ([], cs) else map_option (\<lambda>(a, b). (c # a, b)) (split_once d cs))"

definition is_digit :: "char \<Rightarrow> bool" where
  "is_digit c = (48 \<le> (of_char c :: nat) \<and> (of_char c :: nat) \<le> 57)"

definition digit_val :: "char \<Rightarrow> nat" where
  "digit_val c = of_char c - 48"

fun parse_digits :: "nat \<Rightarrow> string \<Rightarrow> nat option" where
  "parse_digits acc [] = Some acc"
| "parse_digits acc (c # cs) =
     (if is_digit c \<and> acc * 10 + digit_val c < 2 ^ 64 then parse_digits (acc * 10 + digit_val c) cs else None)"

definition parse_u64 :: "string \<Rightarrow> nat option" where
  "parse_u64 s =
     (case s of
        [] \<Rightarrow> None
      | c # cs \<Rightarrow> if c = CHR ''+'' then (if cs = [] then None else parse_digits 0 cs) else parse_digits 0 s)"

text \<open>Decimal printing, for the round trips.\<close>

definition digit :: "nat \<Rightarrow> char" where
  "digit n = char_of (48 + n)"

fun show_nat :: "nat \<Rightarrow> string" where
  "show_nat n = (if n < 10 then [digit n] else show_nat (n div 10) @ [digit (n mod 10)])"

declare show_nat.simps [simp del]

lemma digit_facts:
  assumes "n < 10"
  shows "is_digit (digit n)" and "digit_val (digit n) = n" and "\<not> is_space (digit n)"
  using assms by (simp_all add: digit_def is_digit_def digit_val_def is_space_def of_char_mod_256)

lemma parse_digits_bound: "parse_digits acc s = Some n \<Longrightarrow> acc < 2 ^ 64 \<Longrightarrow> n < 2 ^ 64"
  by (induction s arbitrary: acc) (auto split: if_splits)

lemma parse_u64_bound: "parse_u64 s = Some n \<Longrightarrow> n < 2 ^ 64"
  using parse_digits_bound [of 0 _ n]
  by (auto simp: parse_u64_def simp del: parse_digits.simps split: list.splits if_splits)

lemma parse_digits_append:
  "parse_digits acc (s @ t) = Option.bind (parse_digits acc s) (\<lambda>a. parse_digits a t)"
  by (induction s arbitrary: acc) auto

lemma parse_show: "n < 2 ^ 64 \<Longrightarrow> parse_digits 0 (show_nat n) = Some n"
proof (induction n rule: show_nat.induct)
  case (1 n)
  show ?case
  proof (cases "n < 10")
    case True
    then show ?thesis using 1 by (simp add: show_nat.simps [of n] digit_facts)
  next
    case False
    with 1 have "parse_digits 0 (show_nat (n div 10)) = Some (n div 10)" by simp
    then show ?thesis using 1(2) False
      by (simp add: show_nat.simps [of n] parse_digits_append digit_facts)
  qed
qed

lemma show_nat_digits: "c \<in> set (show_nat n) \<Longrightarrow> is_digit c \<and> \<not> is_space c"
proof (induction n rule: show_nat.induct)
  case (1 n)
  then show ?case by (cases "n < 10") (auto simp: show_nat.simps [of n] digit_facts)
qed

lemma show_nat_nonempty [simp]: "show_nat n \<noteq> []"
  by (simp add: show_nat.simps [of n])

lemma digit_chars: "is_digit c \<Longrightarrow> c \<noteq> CHR ''+'' \<and> c \<noteq> CHR ''='' \<and> c \<noteq> CHR '',''"
  by (auto simp: is_digit_def)

lemma parse_u64_show: "n < 2 ^ 64 \<Longrightarrow> parse_u64 (show_nat n) = Some n"
  using parse_show [of n] show_nat_digits [of _ n] digit_chars
  by (cases "show_nat n") (auto simp: parse_u64_def dest!: digit_chars)

text \<open>What \<^verbatim>\<open>u64::from_str\<close> is documented to accept: an optional plus sign and at least one digit, with a value of 64 bits.\<close>

definition decimal_value :: "nat \<Rightarrow> string \<Rightarrow> nat" where
  "decimal_value = foldl (\<lambda>a c. a * 10 + digit_val c)"

definition unsigned_text :: "string \<Rightarrow> nat \<Rightarrow> bool" where
  "unsigned_text s n \<longleftrightarrow>
     (\<exists>ds. (s = ds \<or> s = CHR ''+'' # ds) \<and> ds \<noteq> [] \<and> (\<forall>c \<in> set ds. is_digit c) \<and> n = decimal_value 0 ds) \<and> n < 2 ^ 64"

lemma decimal_value_ge: "acc \<le> decimal_value acc s"
  unfolding decimal_value_def
proof (induction s arbitrary: acc)
  case (Cons c s)
  from Cons.IH [of "acc * 10 + digit_val c"] show ?case by simp
qed simp

lemma parse_digits_iff:
  "acc < 2 ^ 64 \<Longrightarrow>
     parse_digits acc s = Some n \<longleftrightarrow> (\<forall>c \<in> set s. is_digit c) \<and> n = decimal_value acc s \<and> n < 2 ^ 64"
proof (induction s arbitrary: acc)
  case (Cons c s)
  let ?a = "acc * 10 + digit_val c"
  have v: "decimal_value acc (c # s) = decimal_value ?a s" by (simp add: decimal_value_def)
  show ?case
  proof (cases "?a < 2 ^ 64")
    case True
    with Cons.IH [OF True] v show ?thesis by auto
  next
    case False
    with decimal_value_ge [of ?a s] v show ?thesis by auto
  qed
qed (auto simp: decimal_value_def)

lemma parse_u64_iff: "parse_u64 s = Some n \<longleftrightarrow> unsigned_text s n"
proof -
  have d: "parse_digits 0 ds = Some n \<longleftrightarrow> (\<forall>c \<in> set ds. is_digit c) \<and> n = decimal_value 0 ds \<and> n < 2 ^ 64" for ds
    by (rule parse_digits_iff) simp
  have p: "\<not> is_digit (CHR ''+'')" by (simp add: is_digit_def)
  show ?thesis
  proof (cases s)
    case (Cons c cs)
    show ?thesis
    proof (cases "c = CHR ''+''")
      case True
      with Cons p d [of cs] show ?thesis by (auto simp: parse_u64_def unsigned_text_def simp del: parse_digits.simps)
    next
      case False
      with Cons d [of s] show ?thesis by (auto simp: parse_u64_def unsigned_text_def simp del: parse_digits.simps)
    qed
  qed (simp add: parse_u64_def unsigned_text_def)
qed

lemma unsigned_text_show: "n < 2 ^ 64 \<Longrightarrow> unsigned_text (show_nat n) n"
  using parse_u64_show parse_u64_iff by blast

lemma split_on_word: "d \<notin> set w \<Longrightarrow> split_on d w = [w]"
  by (induction w) auto

lemma split_on_cons: "d \<notin> set w \<Longrightarrow> split_on d (w @ d # s) = w # split_on d s"
  by (induction w) auto

lemma split_once_word: "d \<notin> set w \<Longrightarrow> split_once d (w @ d # s) = Some (w, s)"
  by (induction w) auto

lemma trim_id: "s = [] \<or> \<not> is_space (hd s) \<and> \<not> is_space (last s) \<Longrightarrow> trim s = s"
  by (cases s rule: rev_cases) (auto simp: trim_def trim_start_def trim_end_def neq_Nil_conv hd_append split: if_splits)

end
