(* ===== verification/Config.thy ===== *)
theory Config
  imports Text Node
begin

section \<open>Configuration and start-up\<close>

text \<open>
  \<^verbatim>\<open>src/config.rs\<close>: the node's configuration from environment variables, and the part of \<^verbatim>\<open>src/main.rs\<close> that turns
  it into the configuration of the Raft core and folds the membership watch into the address
  books of the transport and of the client API. The environment is a function from names to values.
  An error keeps the values its message interpolates.
\<close>

datatype peer_error = ExpectedPair string | BadPeerId string | DuplicateId nat

datatype config_error =
  BadNodeId string
| BadPeers peer_error
| BadClientUrls peer_error
| BadThreshold string
| BadTrailing string
| BadRpcTimeout string
| BadJoin string
| SelfInPeers nat

record node_config =
  nc_id :: node_id
  listen :: string
  raft_listen :: string
  data_dir :: string
  nc_peers :: "node_id \<rightharpoonup> string"
  peer_client_urls :: "node_id \<rightharpoonup> string"
  nc_snapshot_threshold :: "nat option"
  nc_snapshot_trailing :: nat
  nc_join :: bool
  rpc_timeout_ms :: nat
  advertise_raft_addr :: string
  advertise_client_url :: string

fun parse_entries :: "(node_id \<rightharpoonup> string) \<Rightarrow> string list \<Rightarrow> peer_error + (node_id \<rightharpoonup> string)" where
  "parse_entries m [] = Inr m"
| "parse_entries m (e # es) =
     (case split_once (CHR ''='') e of
        None \<Rightarrow> Inl (ExpectedPair e)
      | Some (i, v) \<Rightarrow>
          (case parse_u64 (trim i) of
             None \<Rightarrow> Inl (BadPeerId e)
           | Some n \<Rightarrow>
               if m n \<noteq> None then Inl (DuplicateId n) else parse_entries (m(n \<mapsto> trim v)) es))"

definition parse_peer_map :: "string \<Rightarrow> peer_error + (node_id \<rightharpoonup> string)" where
  "parse_peer_map raw =
     parse_entries Map.empty (filter (\<lambda>e. e \<noteq> []) (map trim (split_on (CHR '','') raw)))"

definition var_or :: "string option \<Rightarrow> string \<Rightarrow> string" where
  "var_or v d = (case v of Some s \<Rightarrow> s | None \<Rightarrow> d)"

definition from_vars :: "(string \<Rightarrow> string option) \<Rightarrow> config_error + node_config" where
  "from_vars get =
     bind_r (case get ''RUSTKV_NODE_ID'' of
               Some raw \<Rightarrow> (case parse_u64 raw of Some n \<Rightarrow> Inr n | None \<Rightarrow> Inl (BadNodeId raw))
             | None \<Rightarrow> Inr 1)
     (\<lambda>i. let ls = var_or (get ''RUSTKV_LISTEN'') ''127.0.0.1:8080'';
              rl = var_or (get ''RUSTKV_RAFT_LISTEN'') ''127.0.0.1:9080''
      in bind_r (map_err BadPeers (parse_peer_map (var_or (get ''RUSTKV_PEERS'') '''')))
     (\<lambda>ps. bind_r (map_err BadClientUrls (parse_peer_map (var_or (get ''RUSTKV_PEER_CLIENT_URLS'') '''')))
     (\<lambda>us. bind_r (case get ''RUSTKV_SNAPSHOT_THRESHOLD'' of
                      Some raw \<Rightarrow>
                        (case parse_u64 raw of
                           Some n \<Rightarrow> if n \<ge> 1 then Inr (Some n) else Inl (BadThreshold raw)
                         | None \<Rightarrow> Inl (BadThreshold raw))
                    | None \<Rightarrow> Inr None)
     (\<lambda>th. bind_r (case get ''RUSTKV_SNAPSHOT_TRAILING'' of
                      Some raw \<Rightarrow> (case parse_u64 raw of Some n \<Rightarrow> Inr n | None \<Rightarrow> Inl (BadTrailing raw))
                    | None \<Rightarrow> Inr 0)
     (\<lambda>tr. bind_r (case get ''RUSTKV_RPC_TIMEOUT_MS'' of
                      Some raw \<Rightarrow>
                        (case parse_u64 raw of
                           Some n \<Rightarrow> if n \<ge> 1 then Inr n else Inl (BadRpcTimeout raw)
                         | None \<Rightarrow> Inl (BadRpcTimeout raw))
                    | None \<Rightarrow> Inr 150)
     (\<lambda>rt. bind_r (case get ''RUSTKV_JOIN'' of
                      None \<Rightarrow> Inr False
                    | Some s \<Rightarrow>
                        if s = '''' \<or> s = ''0'' \<or> s = ''false'' then Inr False
                        else if s = ''1'' \<or> s = ''true'' then Inr True
                        else Inl (BadJoin s))
     (\<lambda>jn. if ps i \<noteq> None then Inl (SelfInPeers i)
            else Inr \<lparr>nc_id = i, listen = ls, raft_listen = rl,
                   data_dir = var_or (get ''RUSTKV_DATA_DIR'') ''./rustkv-data'',
                   nc_peers = ps, peer_client_urls = us, nc_snapshot_threshold = th,
                   nc_snapshot_trailing = tr, nc_join = jn, rpc_timeout_ms = rt,
                   advertise_raft_addr = var_or (get ''RUSTKV_ADVERTISE_RAFT_ADDR'') rl,
                   advertise_client_url =
                     var_or (get ''RUSTKV_ADVERTISE_CLIENT_URL'') (''http://'' @ ls)\<rparr>)))))))"

subsection \<open>The wiring of \<^verbatim>\<open>main\<close>\<close>

text \<open>\<open>ids\<close> are the keys of the peer map in ascending order, as \<^verbatim>\<open>main\<close> sorts them.\<close>

definition peer_ids_of :: "node_config \<Rightarrow> node_id list" where
  "peer_ids_of c = sorted_list_of_set (dom (nc_peers c))"

definition bootstrap_addrs_of :: "node_config \<Rightarrow> membership" where
  "bootstrap_addrs_of c =
     fmupd (nc_id c) \<lparr>raft = advertise_raft_addr c, client_url = advertise_client_url c\<rparr>
       (fmap_of_list (map (\<lambda>i. (i, \<lparr>raft = the (nc_peers c i),
          client_url = (case peer_client_urls c i of Some u \<Rightarrow> u | None \<Rightarrow> [])\<rparr>)) (peer_ids_of c)))"

definition raft_config_of :: "node_config \<Rightarrow> raft_config" where
  "raft_config_of c =
     (raft_config_new (nc_id c) (peer_ids_of c))
       \<lparr>snapshot_threshold := nc_snapshot_threshold c, snapshot_trailing := nc_snapshot_trailing c,
        join := nc_join c, bootstrap_addrs := bootstrap_addrs_of c\<rparr>"

text \<open>The address books that the membership task collects from a view: an iteration in the order of the ids, a filter, and
  insertions, the later ones winning. The transport's book goes over the members and then over the departing peers.\<close>

definition bt_iter :: "membership \<Rightarrow> (node_id \<times> member_addr) list" where
  "bt_iter m = map (\<lambda>i. (i, the (fmlookup m i))) (bt_keys m)"

definition collect_addrs ::
    "node_id \<Rightarrow> (member_addr \<Rightarrow> string) \<Rightarrow> (node_id \<times> member_addr) list \<Rightarrow> node_id \<rightharpoonup> string" where
  "collect_addrs self f xs =
     fold (\<lambda>(i, a) book. book(i \<mapsto> f a)) (filter (\<lambda>(i, a). i \<noteq> self \<and> f a \<noteq> []) xs) Map.empty"

definition raft_addrs :: "node_id \<Rightarrow> membership_view \<Rightarrow> node_id \<rightharpoonup> string" where
  "raft_addrs self vw = collect_addrs self raft (bt_iter (view_members vw) @ bt_iter (view_departing vw))"

definition client_urls :: "node_id \<Rightarrow> membership_view \<Rightarrow> node_id \<rightharpoonup> string" where
  "client_urls self vw = collect_addrs self client_url (bt_iter (view_members vw))"

subsection \<open>Properties\<close>

text \<open>The text an operator writes for a peer map.\<close>

fun commas :: "string list \<Rightarrow> string" where
  "commas [] = []"
| "commas [w] = w"
| "commas (w # ws) = w @ CHR '','' # commas ws"

definition peer_entry :: "node_id \<times> string \<Rightarrow> string" where
  "peer_entry p = show_nat (fst p) @ CHR ''='' # snd p"

definition plain_value :: "string \<Rightarrow> bool" where
  "plain_value v \<longleftrightarrow> CHR '','' \<notin> set v \<and> (v = [] \<or> \<not> is_space (hd v) \<and> \<not> is_space (last v))"

lemma split_commas:
  assumes "\<forall>w \<in> set ws. CHR '','' \<notin> set w" and "ws \<noteq> []"
  shows "split_on (CHR '','') (commas ws) = ws"
  using assms by (induction ws rule: commas.induct) (simp_all add: split_on_word split_on_cons)

lemma peer_entry_facts:
  assumes "plain_value (snd p)"
  shows "CHR '','' \<notin> set (peer_entry p)" and "trim (peer_entry p) = peer_entry p" and "peer_entry p \<noteq> []"
    and "split_once (CHR ''='') (peer_entry p) = Some (show_nat (fst p), snd p)"
    and "trim (show_nat (fst p)) = show_nat (fst p)" and "trim (snd p) = snd p"
proof -
  have d: "\<And>c. c \<in> set (show_nat (fst p)) \<Longrightarrow> is_digit c \<and> \<not> is_space c" by (rule show_nat_digits)
  have h: "hd (show_nat (fst p)) \<in> set (show_nat (fst p))" "last (show_nat (fst p)) \<in> set (show_nat (fst p))" by simp_all
  show "CHR '','' \<notin> set (peer_entry p)" using assms d digit_chars by (auto simp: peer_entry_def plain_value_def)
  show "trim (peer_entry p) = peer_entry p"
    using assms d [OF h(1)] by (intro trim_id) (auto simp: peer_entry_def plain_value_def is_space_def hd_append)
  show "split_once (CHR ''='') (peer_entry p) = Some (show_nat (fst p), snd p)"
    unfolding peer_entry_def by (rule split_once_word) (use d digit_chars in blast)
  show "trim (show_nat (fst p)) = show_nat (fst p)" using d [OF h(1)] d [OF h(2)] by (intro trim_id) simp
  show "trim (snd p) = snd p" using assms by (intro trim_id) (simp add: plain_value_def)
qed (simp add: peer_entry_def)

lemma parse_entries_ok:
  assumes "\<forall>p \<in> set ps. fst p < 2 ^ 64 \<and> plain_value (snd p)" and "distinct (map fst ps)"
    and "\<forall>p \<in> set ps. m (fst p) = None"
  shows "parse_entries m (map peer_entry ps) = Inr (m ++ map_of ps)"
  using assms
proof (induction ps arbitrary: m)
  case (Cons p ps)
  note F = peer_entry_facts [of p]
  have p: "plain_value (snd p)" "fst p < 2 ^ 64" "m (fst p) = None" using Cons.prems by auto
  have "parse_entries m (map peer_entry (p # ps)) = parse_entries (m(fst p \<mapsto> snd p)) (map peer_entry ps)"
    using F [OF p(1)] p parse_u64_show [OF p(2)] by simp
  also have "\<dots> = Inr (m(fst p \<mapsto> snd p) ++ map_of ps)"
  proof (rule Cons.IH)
    have "\<forall>q \<in> set ps. fst q \<noteq> fst p" using Cons.prems(2) by (metis distinct.simps(2) image_eqI list.set_map list.simps(9))
    then show "\<forall>q \<in> set ps. (m(fst p \<mapsto> snd p)) (fst q) = None" using Cons.prems(3) by simp
  qed (use Cons.prems in simp_all)
  also have "m(fst p \<mapsto> snd p) ++ map_of ps = m ++ map_of (p # ps)"
  proof -
    have "map_of ps (fst p) = None" using Cons.prems(2) by (simp add: map_of_eq_None_iff)
    then show ?thesis by (cases p) (auto simp: map_add_def fun_eq_iff split: option.splits)
  qed
  finally show ?case .
qed simp

text \<open>
  C27. Round trip of the peer lists: writing any list of distinct ids with their addresses as \<^verbatim>\<open>1=addr,2=addr\<close> and
  parsing it gives back exactly that map.
\<close>

theorem parse_peer_map_roundtrip:
  assumes "distinct (map fst ps)" and "list_all (\<lambda>p. fst p < 2 ^ 64 \<and> plain_value (snd p)) ps"
  shows "parse_peer_map (commas (map peer_entry ps)) = Inr (map_of ps)"
proof (cases "ps = []")
  case True
  then show ?thesis by (simp add: parse_peer_map_def trim_def trim_start_def trim_end_def)
next
  case False
  note F = peer_entry_facts
  have a: "\<forall>p \<in> set ps. fst p < 2 ^ 64 \<and> plain_value (snd p)" using assms(2) by (simp add: list_all_iff)
  then have "split_on (CHR '','') (commas (map peer_entry ps)) = map peer_entry ps"
    using False F(1) by (intro split_commas) auto
  moreover have "filter (\<lambda>e. e \<noteq> []) (map trim (map peer_entry ps)) = map peer_entry ps"
    using a F(2,3) by (induction ps) auto
  ultimately show ?thesis using parse_entries_ok [OF a assms(1), of Map.empty]
    by (simp add: parse_peer_map_def)
qed

theorem parse_peer_map_roundtrip_witness:
  "parse_peer_map (commas (map peer_entry [(2, ''b:90''), (3, ''c:90'')])) = Inr (map_of [(2, ''b:90''), (3, ''c:90'')])"
  by (rule parse_peer_map_roundtrip) (simp_all add: plain_value_def is_space_def)

lemma parse_entries_dom:
  assumes "parse_entries m es = Inr m'" and "finite (dom m)" and "dom m \<subseteq> {..<2 ^ 64}"
  shows "finite (dom m') \<and> dom m' \<subseteq> {..<2 ^ 64}"
  using assms
proof (induction es arbitrary: m)
  case (Cons e es)
  then obtain i v n where n: "parse_u64 (trim i) = Some n" "parse_entries (m(n \<mapsto> trim v)) es = Inr m'"
    by (auto split: option.splits prod.splits if_splits)
  from parse_u64_bound [OF n(1)] Cons.prems(2,3) show ?case by (intro Cons.IH [OF n(2)]) (simp_all del: fun_upd_apply)
qed simp

lemma parse_peer_map_dom:
  "parse_peer_map raw = Inr m \<Longrightarrow> finite (dom m) \<and> dom m \<subseteq> {..<2 ^ 64}"
  unfolding parse_peer_map_def by (rule parse_entries_dom) auto

lemma from_varsD:
  assumes "from_vars get = Inr c"
  shows "nc_id c < 2 ^ 64" and "nc_peers c (nc_id c) = None" and "finite (dom (nc_peers c))"
    and "dom (nc_peers c) \<subseteq> {..<2 ^ 64}" and "1 \<le> rpc_timeout_ms c" and "nc_snapshot_threshold c \<noteq> Some 0"
proof -
  from assms obtain i ps th rt where
    i: "(case get ''RUSTKV_NODE_ID'' of
          Some raw \<Rightarrow> (case parse_u64 raw of Some n \<Rightarrow> Inr n | None \<Rightarrow> Inl (BadNodeId raw)) | None \<Rightarrow> Inr 1) = Inr i"
    and ps: "parse_peer_map (var_or (get ''RUSTKV_PEERS'') '''') = Inr ps"
    and th: "(case get ''RUSTKV_SNAPSHOT_THRESHOLD'' of
          Some raw \<Rightarrow> (case parse_u64 raw of
             Some n \<Rightarrow> if n \<ge> 1 then Inr (Some n) else Inl (BadThreshold raw) | None \<Rightarrow> Inl (BadThreshold raw))
        | None \<Rightarrow> Inr None) = Inr th"
    and rt: "(case get ''RUSTKV_RPC_TIMEOUT_MS'' of
          Some raw \<Rightarrow> (case parse_u64 raw of
             Some n \<Rightarrow> if n \<ge> 1 then Inr n else Inl (BadRpcTimeout raw) | None \<Rightarrow> Inl (BadRpcTimeout raw))
        | None \<Rightarrow> Inr 150) = Inr rt"
    and c: "ps i = None" "nc_id c = i" "nc_peers c = ps" "nc_snapshot_threshold c = th" "rpc_timeout_ms c = rt"
    unfolding from_vars_def Let_def bind_r_Inr_iff map_err_Inr_iff
    by (elim exE conjE) (rule that, assumption, assumption, assumption, assumption, (auto split: if_splits)[5])
  show "nc_id c < 2 ^ 64" using i c(2) parse_u64_bound by (auto split: option.splits)
  show "nc_peers c (nc_id c) = None" using c by simp
  show "finite (dom (nc_peers c))" "dom (nc_peers c) \<subseteq> {..<2 ^ 64}" using parse_peer_map_dom [OF ps] c by simp_all
  show "1 \<le> rpc_timeout_ms c" using rt c by (auto split: option.splits if_splits)
  show "nc_snapshot_threshold c \<noteq> Some 0" using th c by (auto split: option.splits if_splits)
qed

text \<open>
  C26. What a configuration that \<^verbatim>\<open>from_vars\<close> accepts guarantees: ids that fit 64 bits, a node that is not its own peer, an
  RPC budget and a snapshot threshold of at least one; and what \<^verbatim>\<open>main\<close> makes of it: the Raft core's peers are the
  configured ones in ascending order, without repetition and without the node itself, the address book
  covers exactly the node and its peers, with the node's own advertised address, and the
  election timeouts are ordered.
\<close>

theorem accepted_config_is_valid:
  assumes "from_vars get = Inr c"
  shows "nc_id c < 2 ^ 64 \<and> dom (nc_peers c) \<subseteq> {..<2 ^ 64} \<and> 1 \<le> rpc_timeout_ms c \<and>
    snapshot_threshold (raft_config_of c) \<noteq> Some 0 \<and>
    set (peers (raft_config_of c)) = dom (nc_peers c) \<and> sorted_wrt (<) (peers (raft_config_of c)) \<and>
    cfg_id (raft_config_of c) \<notin> set (peers (raft_config_of c)) \<and>
    fset (fmdom (bootstrap_addrs (raft_config_of c))) = insert (nc_id c) (dom (nc_peers c)) \<and>
    map_option raft (fmlookup (bootstrap_addrs (raft_config_of c)) (nc_id c)) = Some (advertise_raft_addr c) \<and>
    (\<forall>i a. nc_peers c i = Some a \<longrightarrow>
      map_option raft (fmlookup (bootstrap_addrs (raft_config_of c)) i) = Some a) \<and>
    election_timeout_min (raft_config_of c) \<le> election_timeout_max (raft_config_of c)"
proof -
  note F = from_varsD [OF assms]
  have "fmdom (bootstrap_addrs_of c) = finsert (nc_id c) (fset_of_list (peer_ids_of c))"
    by (simp add: bootstrap_addrs_of_def comp_def)
  then have d: "fset (fmdom (bootstrap_addrs_of c)) = insert (nc_id c) (dom (nc_peers c))"
    using F(3) by (simp add: peer_ids_of_def fset_of_list.rep_eq)
  have "map_option raft (fmlookup (bootstrap_addrs_of c) i) = Some a" if "nc_peers c i = Some a" for i a
  proof -
    have "i \<in> set (peer_ids_of c)" "i \<noteq> nc_id c" using that F(2,3) by (auto simp: peer_ids_of_def)
    then show ?thesis using that
      by (simp add: bootstrap_addrs_of_def fmlookup_of_list map_of_map_restrict restrict_map_def)
  qed
  then show ?thesis using F d
    by (auto simp: raft_config_of_def raft_config_new_def peer_ids_of_def bootstrap_addrs_of_def)
qed

definition example_env :: "string \<Rightarrow> string option" where
  "example_env = [''RUSTKV_PEERS'' \<mapsto> ''2=b:90, 3=c:90'', ''RUSTKV_NODE_ID'' \<mapsto> ''1'']"

lemma example_env_accepted: "\<exists>c. from_vars example_env = Inr c \<and> peers (raft_config_of c) = [2, 3] \<and> nc_id c = 1"
proof -
  have p: "parse_peer_map ''2=b:90, 3=c:90'' = Inr [2 \<mapsto> ''b:90'', 3 \<mapsto> ''c:90'']" "parse_peer_map [] = Inr Map.empty"
    "parse_u64 ''1'' = Some 1"
    by (simp_all add: parse_peer_map_def trim_def trim_start_def trim_end_def is_space_def parse_u64_def is_digit_def digit_val_def)
      (simp add: numeral_2_eq_2)
  have "sorted_list_of_set {3, 2 :: nat} = [2, 3]" by simp
  then show ?thesis using p
    by (auto simp: Let_def from_vars_def example_env_def var_or_def raft_config_of_def raft_config_new_def peer_ids_of_def)
qed

theorem accepted_config_is_valid_witness:
  "\<exists>c. from_vars example_env = Inr c \<and> set (peers (raft_config_of c)) = {2, 3} \<and>
     fset (fmdom (bootstrap_addrs (raft_config_of c))) = {1, 2, 3}"
proof -
  from example_env_accepted obtain c where c: "from_vars example_env = Inr c" "peers (raft_config_of c) = [2, 3]"
    "nc_id c = 1" by blast
  from accepted_config_is_valid [OF c(1)] c show ?thesis by auto
qed

text \<open>The books, entry by entry.\<close>

definition addr_book :: "node_id \<Rightarrow> (member_addr \<Rightarrow> string) \<Rightarrow> membership \<Rightarrow> node_id \<rightharpoonup> string" where
  "addr_book self f m i =
     (case fmlookup m i of
        Some a \<Rightarrow> if i \<noteq> self \<and> f a \<noteq> [] then Some (f a) else None
      | None \<Rightarrow> None)"

lemma collect_lookup:
  assumes "distinct (map fst xs)"
  shows "fold (\<lambda>(i, a) book. book(i \<mapsto> f a)) (filter (\<lambda>(i, a). i \<noteq> self \<and> f a \<noteq> []) xs) book j =
    (case map_of xs j of Some a \<Rightarrow> if j \<noteq> self \<and> f a \<noteq> [] then Some (f a) else book j | None \<Rightarrow> book j)"
  using assms
proof (induction xs arbitrary: book)
  case (Cons x xs)
  obtain i a where x: "x = (i, a)" by (cases x)
  have "map_of xs i = None" using Cons.prems x by (simp add: map_of_eq_None_iff)
  then show ?case using Cons.IH [of book] Cons.IH [of "book(i \<mapsto> f a)"] Cons.prems x
    by (cases "j = i") (auto split: option.split)
qed simp

lemma bt_iter_lookup: "distinct (map fst (bt_iter m))" "map_of (bt_iter m) i = fmlookup m i"
proof -
  show "distinct (map fst (bt_iter m))" by (simp add: bt_iter_def comp_def)
  show "map_of (bt_iter m) i = fmlookup m i"
    by (cases "fmlookup m i")
      (auto simp: bt_iter_def map_of_map_restrict restrict_map_def fmdom_notD fmdomI)
qed

lemma collect_iter:
  "fold (\<lambda>(i, a) book. book(i \<mapsto> f a)) (filter (\<lambda>(i, a). i \<noteq> self \<and> f a \<noteq> []) (bt_iter m)) book = book ++ addr_book self f m"
  by (rule ext) (auto simp: collect_lookup bt_iter_lookup addr_book_def map_add_def split: option.split)

lemma client_urls_eq: "client_urls self vw = addr_book self client_url (view_members vw)"
  by (simp add: client_urls_def collect_addrs_def collect_iter)

lemma raft_addrs_eq: "raft_addrs self vw = addr_book self raft (view_members vw) ++ addr_book self raft (view_departing vw)"
  by (simp add: raft_addrs_def collect_addrs_def collect_iter)

end
