(* ===== verification/Http.thy ===== *)
theory Http
  imports Raft_Types Text "HOL-Library.Code_Target_Nat"
begin

section \<open>The HTTP transport\<close>

text \<open>
  \<^verbatim>\<open>src/raft/transport/http.rs\<close>: the address book, the pool of idle connections, the hand-written HTTP/1.1 client
  and the handler of inbound RPCs. A connection is what the peer will send on it, in the segments in which it will
  arrive, and how it ends: the peer closes it, resets it, or stays silent. \<open>Hang\<close> is an operation that
  does not complete before the RPC timeout elapses; the future is dropped then, and the stream with it.
  The JSON encodings and the outcome of \<^verbatim>\<open>TcpStream::connect\<close> are arguments.
\<close>

subsection \<open>Text\<close>

text \<open>\<^verbatim>\<open>std::str::from_utf8\<close>: the first character of a sequence of bytes, and the rest.\<close>

definition cont :: "nat \<Rightarrow> bool" where
  "cont b = (128 \<le> b \<and> b < 192)"

fun utf8_char :: "nat list \<Rightarrow> (nat \<times> nat list) option" where
  "utf8_char [] = None"
| "utf8_char (a # r) =
     (if a < 128 then Some (a, r)
      else if 192 \<le> a \<and> a < 224 then
        (case r of
           b # r \<Rightarrow> let n = (a - 192) * 64 + (b - 128) in if cont b \<and> 128 \<le> n then Some (n, r) else None
         | _ \<Rightarrow> None)
      else if 224 \<le> a \<and> a < 240 then
        (case r of
           b # c # r \<Rightarrow>
             let n = (a - 224) * 4096 + (b - 128) * 64 + (c - 128)
             in if cont b \<and> cont c \<and> 2048 \<le> n \<and> \<not> (55296 \<le> n \<and> n < 57344) then Some (n, r) else None
         | _ \<Rightarrow> None)
      else if 240 \<le> a \<and> a < 248 then
        (case r of
           b # c # d # r \<Rightarrow>
             let n = (a - 240) * 262144 + (b - 128) * 4096 + (c - 128) * 64 + (d - 128)
             in if cont b \<and> cont c \<and> cont d \<and> 65536 \<le> n \<and> n < 1114112 then Some (n, r) else None
         | _ \<Rightarrow> None)
      else None)"

lemma utf8_char_shorter: "utf8_char l = Some (n, r) \<Longrightarrow> length r < length l"
  by (cases l) (auto simp: Let_def split: if_splits list.splits)

function utf8_decode :: "nat list \<Rightarrow> nat list option" where
  "utf8_decode l =
     (if l = [] then Some []
      else case utf8_char l of None \<Rightarrow> None | Some (n, r) \<Rightarrow> map_option ((#) n) (utf8_decode r))"
  by pat_completeness auto
termination by (relation "measure length") (auto dest: utf8_char_shorter)

declare utf8_decode.simps [simp del]

definition unicode_space :: "nat \<Rightarrow> bool" where
  "unicode_space n = (n \<in> {133, 160, 5760, 8232, 8233, 8239, 8287, 12288} \<or> 8192 \<le> n \<and> n \<le> 8202)"

text \<open>
  The text of a response head, one \<open>char\<close> per character. The parser distinguishes characters beyond ASCII only by
  whether they are white space: those that are become a vertical tab, the others the character 128.
\<close>

definition text_char :: "nat \<Rightarrow> char" where
  "text_char n = (if n < 128 then char_of n else if unicode_space n then CHR 0x0B else CHR 0x80)"

definition str_from_utf8 :: "string \<Rightarrow> string option" where
  "str_from_utf8 raw = map_option (map text_char) (utf8_decode (map of_char raw))"

fun split_space :: "string \<Rightarrow> string list" where
  "split_space [] = [[]]"
| "split_space (c # cs) =
     (if is_space c then [] # split_space cs
      else case split_space cs of [] \<Rightarrow> [[c]] | w # ws \<Rightarrow> (c # w) # ws)"

definition split_whitespace :: "string \<Rightarrow> string list" where
  "split_whitespace s = filter (\<lambda>w. w \<noteq> []) (split_space s)"

definition strip_cr :: "string \<Rightarrow> string" where
  "strip_cr l = (if l \<noteq> [] \<and> last l = CHR 0x0D then butlast l else l)"

definition str_lines :: "string \<Rightarrow> string list" where
  "str_lines s =
     (let ws = split_on (CHR 0x0A) s
      in map strip_cr (butlast ws) @ (if last ws = [] then [] else [last ws]))"

fun str_contains :: "string \<Rightarrow> string \<Rightarrow> bool" where
  "str_contains p [] = (p = [])"
| "str_contains p (c # cs) = (take (length p) (c # cs) = p \<or> str_contains p cs)"

definition strip_prefix :: "string \<Rightarrow> string \<Rightarrow> string option" where
  "strip_prefix p s = (if take (length p) s = p then Some (drop (length p) s) else None)"

definition ascii_lower :: "char \<Rightarrow> char" where
  "ascii_lower c = (let n = of_char c :: nat in if 65 \<le> n \<and> n \<le> 90 then char_of (n + 32) else c)"

text \<open>\<^verbatim>\<open>u16::from_str\<close>: the value only grows from digit to digit, so checking it at the end is enough.\<close>

definition parse_u16 :: "string \<Rightarrow> nat option" where
  "parse_u16 s = (case parse_u64 s of Some n \<Rightarrow> if n < 2 ^ 16 then Some n else None | None \<Rightarrow> None)"

subsection \<open>Connections\<close>

datatype io_error = UnexpectedEof | InvalidData | ConnectionReset | OtherIo

datatype stop = Io io_error | Hang

datatype stream_end = PeerCloses | PeerResets | PeerSilent

text \<open>\<open>written\<close> and \<open>consumed\<close> are the bytes that went over the connection so far, in each direction.\<close>

record tcp_stream =
  conn :: nat
  written :: string
  consumed :: string
  segments :: "string list"
  stream_end :: stream_end
  write_stop :: "stop option"

definition end_of :: "tcp_stream \<Rightarrow> 'a \<Rightarrow> stop + 'a" where
  "end_of s x =
     (case stream_end s of PeerCloses \<Rightarrow> Inr x | PeerResets \<Rightarrow> Inl (Io ConnectionReset) | PeerSilent \<Rightarrow> Inl Hang)"

definition write_all :: "string \<Rightarrow> tcp_stream \<Rightarrow> stop + tcp_stream" where
  "write_all b s = (case write_stop s of Some e \<Rightarrow> Inl e | None \<Rightarrow> Inr (s\<lparr>written := written s @ b\<rparr>))"

text \<open>\<^verbatim>\<open>read\<close> into a buffer of \<open>k\<close> bytes: what has arrived, or nothing at the end of the stream.\<close>

definition tcp_read :: "nat \<Rightarrow> tcp_stream \<Rightarrow> stop + string \<times> tcp_stream" where
  "tcp_read k s =
     (case dropWhile (\<lambda>x. x = []) (segments s) of
        [] \<Rightarrow> end_of s ([], s)
      | x # xs \<Rightarrow>
          Inr (take k x, s\<lparr>consumed := consumed s @ take k x, segments := drop k x # xs\<rparr>))"

function read_exact :: "nat \<Rightarrow> tcp_stream \<Rightarrow> stop + string \<times> tcp_stream" where
  "read_exact n s =
     (if n = 0 then Inr ([], s)
      else case tcp_read n s of
        Inl e \<Rightarrow> Inl e
      | Inr (b, s) \<Rightarrow>
          if b = [] then Inl (Io UnexpectedEof)
          else bind_r (read_exact (n - length b) s) (\<lambda>(bs, s). Inr (b @ bs, s)))"
  by pat_completeness auto
termination by (relation "measure fst") auto

declare read_exact.simps [simp del]

definition read_to_end :: "tcp_stream \<Rightarrow> stop + string \<times> tcp_stream" where
  "read_to_end s = end_of s (concat (segments s), s\<lparr>consumed := consumed s @ concat (segments s), segments := []\<rparr>)"

subsection \<open>One request and its response\<close>

definition MAX_IDLE_PER_PEER :: nat where
  "MAX_IDLE_PER_PEER = 4"

definition MAX_RESPONSE_HEAD :: nat where
  "MAX_RESPONSE_HEAD = 16 * 1024"

definition crlf :: string where
  "crlf = [CHR 0x0D, CHR 0x0A]"

fun find_header_end :: "string \<Rightarrow> nat option" where
  "find_header_end [] = None"
| "find_header_end (c # cs) =
     (if take 4 (c # cs) = crlf @ crlf then Some 0 else map_option Suc (find_header_end cs))"

record response_head =
  content_length :: "nat option"
  keep_alive :: bool

fun scan_length :: "nat option \<Rightarrow> string list \<Rightarrow> stop + nat option" where
  "scan_length len [] = Inr len"
| "scan_length len (line # ls) =
     (case strip_prefix ''content-length:'' line of
        None \<Rightarrow> scan_length len ls
      | Some v \<Rightarrow> (case parse_u64 (trim v) of None \<Rightarrow> Inl (Io InvalidData) | Some n \<Rightarrow> scan_length (Some n) ls))"

definition parse_response_head :: "string \<Rightarrow> stop + response_head" where
  "parse_response_head raw =
     (case str_from_utf8 raw of
        None \<Rightarrow> Inl (Io InvalidData)
      | Some head \<Rightarrow>
          (case Option.bind (list_get (split_whitespace head) 1) parse_u16 of
             None \<Rightarrow> Inl (Io InvalidData)
           | Some status \<Rightarrow>
               if status \<noteq> 200 then Inl (Io InvalidData)
               else
                 let lower = map ascii_lower head
                 in if str_contains ''transfer-encoding: chunked'' lower then Inl (Io InvalidData)
                    else bind_r (scan_length None (drop 1 (str_lines lower))) (\<lambda>len.
                      Inr \<lparr>content_length = len, keep_alive = \<not> str_contains ''connection: close'' lower\<rparr>)))"

definition request_head :: "string \<Rightarrow> string \<Rightarrow> string \<Rightarrow> string" where
  "request_head addr path body =
     ''POST '' @ path @ '' HTTP/1.1'' @ crlf @ ''Host: '' @ addr @ crlf @ ''Content-Type: application/json'' @ crlf @
     ''Content-Length: '' @ show_nat (length body) @ crlf @ crlf"

function read_head :: "string \<Rightarrow> tcp_stream \<Rightarrow> stop + nat \<times> string \<times> tcp_stream" where
  "read_head buf s =
     (case find_header_end buf of
        Some end \<Rightarrow> Inr (end, buf, s)
      | None \<Rightarrow>
          if length buf > MAX_RESPONSE_HEAD then Inl (Io InvalidData)
          else case tcp_read 4096 s of
            Inl e \<Rightarrow> Inl e
          | Inr (b, s) \<Rightarrow> if b = [] then Inl (Io UnexpectedEof) else read_head (buf @ b) s)"
  by pat_completeness auto
termination
  by (relation "measure (\<lambda>(buf, s). MAX_RESPONSE_HEAD + 1 - length buf)")
    (auto simp: neq_Nil_conv intro!: diff_less_mono2)

declare read_head.simps [simp del]

definition request_response ::
    "tcp_stream \<Rightarrow> string \<Rightarrow> string \<Rightarrow> string \<Rightarrow> stop + string \<times> bool \<times> tcp_stream" where
  "request_response s addr path body =
     bind_r (write_all (request_head addr path body) s) (\<lambda>s.
     bind_r (write_all body s) (\<lambda>s.
     bind_r (read_head [] s) (\<lambda>(header_end, buf, s).
     bind_r (parse_response_head (take header_end buf)) (\<lambda>head.
       let response_body = drop (header_end + 4) buf
       in case content_length head of
            Some len \<Rightarrow>
              if length response_body < len then
                bind_r (read_exact (len - length response_body) s) (\<lambda>(rest, s).
                  Inr (response_body @ rest, keep_alive head, s))
              else
                Inr (take len response_body, keep_alive head \<and> length response_body = len, s)
          | None \<Rightarrow>
              bind_r (read_to_end s) (\<lambda>(rest, s). Inr (response_body @ rest, False, s))))))"

subsection \<open>The transport\<close>

record http_transport =
  ht_id :: node_id
  peers :: "node_id \<rightharpoonup> string"
  pool :: "string \<rightharpoonup> tcp_stream list"
  rpc_timeout :: duration

definition http_new :: "node_id \<Rightarrow> (node_id \<rightharpoonup> string) \<Rightarrow> duration \<Rightarrow> http_transport" where
  "http_new i book t = \<lparr>ht_id = i, peers = book, pool = Map.empty, rpc_timeout = t\<rparr>"

definition set_peers :: "(node_id \<rightharpoonup> string) \<Rightarrow> http_transport \<Rightarrow> http_transport" where
  "set_peers book t = t\<lparr>peers := book, pool := pool t |` ran book\<rparr>"

definition checkout :: "string \<Rightarrow> http_transport \<Rightarrow> tcp_stream option \<times> http_transport" where
  "checkout addr t =
     (case pool t addr of
        None \<Rightarrow> (None, t)
      | Some idle \<Rightarrow>
          if idle = [] then (None, t)
          else (Some (last idle), t\<lparr>pool := (pool t)(addr \<mapsto> butlast idle)\<rparr>))"

definition checkin :: "string \<Rightarrow> tcp_stream \<Rightarrow> http_transport \<Rightarrow> http_transport" where
  "checkin addr s t =
     (let idle = (case pool t addr of None \<Rightarrow> [] | Some idle \<Rightarrow> idle)
      in t\<lparr>pool := (pool t)(addr \<mapsto> (if length idle < MAX_IDLE_PER_PEER then idle @ [s] else idle))\<rparr>)"

text \<open>The rest of \<^verbatim>\<open>post_json\<close> once it holds a stream, and all of it. \<open>dial\<close> is the outcome of connecting.\<close>

definition post_on ::
    "(stop + string \<times> bool \<times> tcp_stream) \<Rightarrow> string \<Rightarrow> http_transport \<Rightarrow> (stop + string) \<times> http_transport" where
  "post_on r addr t =
     (case r of
        Inl e \<Rightarrow> (Inl e, t)
      | Inr (raw, reusable, s) \<Rightarrow> (Inr raw, if reusable then checkin addr s t else t))"

definition post_json ::
    "(stop + tcp_stream) \<Rightarrow> string \<Rightarrow> string \<Rightarrow> string \<Rightarrow> http_transport \<Rightarrow> (stop + string) \<times> http_transport" where
  "post_json dial addr path body t =
     (let fresh = (\<lambda>t. case dial of
            Inl e \<Rightarrow> (Inl e, t)
          | Inr s \<Rightarrow> post_on (request_response s addr path body) addr t)
      in case checkout addr t of
           (None, t) \<Rightarrow> fresh t
         | (Some s, t) \<Rightarrow>
             (case request_response s addr path body of
                Inl (Io e) \<Rightarrow> fresh t
              | r \<Rightarrow> post_on r addr t))"

record 'v envelope =
  env_from :: node_id
  env_request :: "'v rpc_request"

definition http_send ::
    "('v envelope \<Rightarrow> string) \<Rightarrow> (string \<Rightarrow> rpc_response option) \<Rightarrow> (string \<Rightarrow> stop + tcp_stream) \<Rightarrow> node_id \<Rightarrow>
       'v rpc_request \<Rightarrow> http_transport \<Rightarrow> (transport_error + rpc_response) \<times> http_transport" where
  "http_send to_vec from_slice connect to req t =
     (case peers t to of
        None \<Rightarrow> (Inl (Unreachable to), t)
      | Some addr \<Rightarrow>
          (let body = to_vec \<lparr>env_from = ht_id t, env_request = req\<rparr>
           in case post_json (connect addr) addr ''/raft'' body t of
                (Inl _, t) \<Rightarrow> (Inl Timeout, t)
              | (Inr raw, t) \<Rightarrow>
                  (case from_slice raw of None \<Rightarrow> (Inl Timeout, t) | Some r \<Rightarrow> (Inr r, t))))"

text \<open>
  The handler of the raft listener: what it puts into the inbound channel, and the status and body of its answer.
  \<open>delivered\<close> is whether the node still receives, \<open>answer\<close> the reply, if the node sends one before it goes away.
\<close>

definition handle_raft_rpc ::
    "(string \<Rightarrow> 'v envelope option) \<Rightarrow> (rpc_response \<Rightarrow> string) \<Rightarrow> bool \<Rightarrow>
       (node_id \<Rightarrow> 'v rpc_request \<Rightarrow> rpc_response option) \<Rightarrow> string \<Rightarrow>
       (node_id \<times> 'v rpc_request) option \<times> nat \<times> string" where
  "handle_raft_rpc from_slice to_vec delivered answer body =
     (case from_slice body of
        None \<Rightarrow> (None, 400, [])
      | Some e \<Rightarrow>
          if \<not> delivered then (None, 503, [])
          else (Some (env_from e, env_request e),
            case answer (env_from e) (env_request e) of None \<Rightarrow> (503, []) | Some r \<Rightarrow> (200, to_vec r)))"

subsection \<open>Reading\<close>

lemma tcp_read_sound:
  assumes "tcp_read k s = Inr (b, s')" and "0 < k"
  shows "conn s' = conn s" "written s' = written s" "consumed s' = consumed s @ b"
    "concat (segments s) = b @ concat (segments s')" "length b \<le> k"
proof -
  have e: "concat xs = concat (dropWhile (\<lambda>x. x = []) xs)" for xs :: "string list" by (induction xs) simp_all
  show "conn s' = conn s" "written s' = written s" "consumed s' = consumed s @ b"
    "concat (segments s) = b @ concat (segments s')" "length b \<le> k"
    using assms e [of "segments s"]
    by (cases "dropWhile (\<lambda>x. x = []) (segments s)", auto simp: tcp_read_def end_of_def split: stream_end.splits)+
qed

lemma tcp_read_total:
  assumes "concat (segments s) \<noteq> []" and "0 < k"
  shows "\<exists>b s'. tcp_read k s = Inr (b, s') \<and> b \<noteq> [] \<and> stream_end s' = stream_end s"
proof -
  obtain x xs where x: "dropWhile (\<lambda>x. x = []) (segments s) = x # xs"
    using assms(1) by (cases "dropWhile (\<lambda>x. x = []) (segments s)") (auto simp: dropWhile_eq_Nil_conv)
  then have "x \<noteq> []" using hd_dropWhile [of "\<lambda>x. x = []" "segments s"] by fastforce
  with x assms(2) show ?thesis by (simp add: tcp_read_def)
qed

lemma read_exact_sound:
  "read_exact n s = Inr (b, s') \<Longrightarrow>
    conn s' = conn s \<and> written s' = written s \<and> consumed s' = consumed s @ b \<and> length b = n"
proof (induction n s arbitrary: b s' rule: read_exact.induct)
  case (1 n s)
  show ?case
  proof (cases "n = 0")
    case True
    with 1(2) show ?thesis by (simp add: read_exact.simps [of 0])
  next
    case False
    with 1(2) obtain x t y where x: "tcp_read n s = Inr (x, t)" "x \<noteq> []"
      and y: "read_exact (n - length x) t = Inr (y, s')" "b = x @ y"
      by (subst (asm) read_exact.simps) (auto simp: bind_r_Inr_iff split: sum.splits if_splits)
    from tcp_read_sound [OF x(1)] 1(1) [OF False x(1) refl x(2) y(1)] y(2) False show ?thesis by simp
  qed
qed

lemma read_exact_total:
  "n \<le> length (concat (segments s)) \<Longrightarrow> \<exists>s'. read_exact n s = Inr (take n (concat (segments s)), s')"
proof (induction n s rule: read_exact.induct)
  case (1 n s)
  show ?case
  proof (cases "n = 0")
    case True
    then show ?thesis by (simp add: read_exact.simps [of 0])
  next
    case False
    with 1(2) have "concat (segments s) \<noteq> []" by (cases "concat (segments s)") auto
    with False obtain x t where x: "tcp_read n s = Inr (x, t)" "x \<noteq> []" using tcp_read_total [of s n] by auto
    note r = tcp_read_sound [OF x(1)]
    have "n - length x \<le> length (concat (segments t))" using 1(2) r(4) False by simp
    from 1(1) [OF False x(1) refl x(2) this] obtain s' where
      "read_exact (n - length x) t = Inr (take (n - length x) (concat (segments t)), s')" by blast
    with x r False show ?thesis by (subst read_exact.simps) simp
  qed
qed

lemma header_endD: "find_header_end b = Some e \<Longrightarrow> b = take e b @ crlf @ crlf @ drop (e + 4) b \<and> e + 4 \<le> length b"
proof (induction b arbitrary: e)
  case (Cons c cs)
  show ?case
  proof (cases "take 4 (c # cs) = crlf @ crlf")
    case True
    then have "c # cs = crlf @ crlf @ drop 4 (c # cs)" using append_take_drop_id [of 4 "c # cs"] by simp
    moreover have "4 \<le> length (c # cs)" using arg_cong [OF True, of length] by (simp add: crlf_def)
    moreover have "e = 0" using True Cons(2) by simp
    ultimately show ?thesis by (metis add_0 append_Nil take_0)
  next
    case False
    with Cons(2) obtain i where i: "e = Suc i" "find_header_end cs = Some i" by (auto simp del: take_Suc_Cons)
    have "drop (e + 4) (c # cs) = drop (i + 4) cs" unfolding i(1) add_Suc by (rule drop_Suc_Cons)
    with Cons(1) [OF i(2)] i(1) show ?thesis by simp
  qed
qed simp

lemma header_end_prefix:
  "find_header_end (a @ b) = Some e \<Longrightarrow> e + 4 \<le> length a \<Longrightarrow> find_header_end a = Some e"
proof (induction a arbitrary: e)
  case (Cons c cs)
  have t: "take 4 (c # cs @ b) = take 4 (c # cs)" using Cons(3) by (simp add: take_Cons')
  show ?case using Cons t by (auto split: if_splits)
qed simp

lemma header_end_append: "find_header_end a = Some e \<Longrightarrow> find_header_end (a @ b) = Some e"
proof (induction a arbitrary: e)
  case (Cons c cs)
  have t: "take 4 (c # cs @ b) = take 4 (c # cs)" using header_endD [OF Cons(2)] by (simp add: take_Cons')
  show ?case using Cons t by (auto split: if_splits)
qed simp

lemma read_head_sound:
  "read_head buf s = Inr (e, buf', s') \<Longrightarrow> conn s' = conn s \<and> written s' = written s \<and> find_header_end buf' = Some e \<and>
    (\<exists>x. buf' = buf @ x \<and> consumed s' = consumed s @ x \<and> concat (segments s) = x @ concat (segments s'))"
proof (induction buf s rule: read_head.induct)
  case (1 buf s)
  show ?case
  proof (cases "find_header_end buf")
    case (Some i)
    with 1(2) show ?thesis by (subst (asm) read_head.simps) simp
  next
    case None
    with 1(2) obtain x t where x: "\<not> length buf > MAX_RESPONSE_HEAD" "tcp_read 4096 s = Inr (x, t)" "x \<noteq> []"
      "read_head (buf @ x) t = Inr (e, buf', s')"
      by (subst (asm) read_head.simps) (auto split: sum.splits if_splits)
    from 1(1) [OF None x(1,2) refl x(3,4)] tcp_read_sound [OF x(2)] show ?thesis by auto
  qed
qed

lemma read_head_total:
  "find_header_end (buf @ concat (segments s)) = Some e \<Longrightarrow> e + 3 \<le> MAX_RESPONSE_HEAD \<Longrightarrow>
    \<exists>buf' s'. read_head buf s = Inr (e, buf', s')"
proof (induction buf s rule: read_head.induct)
  case (1 buf s)
  show ?case
  proof (cases "find_header_end buf")
    case (Some i)
    with header_end_append [OF Some] 1(2) show ?thesis by (subst read_head.simps) simp
  next
    case None
    with header_end_prefix [OF 1(2)] have l: "length buf < e + 4" by fastforce
    with header_endD [OF 1(2)] have "concat (segments s) \<noteq> []" by (intro notI) simp
    with tcp_read_total [of s 4096] obtain x t where x: "tcp_read 4096 s = Inr (x, t)" "x \<noteq> []" by auto
    have m: "\<not> length buf > MAX_RESPONSE_HEAD" using l 1(3) by simp
    from 1(1) [OF None m x(1) refl x(2)] 1(2,3) tcp_read_sound(4) [OF x(1)] obtain buf' s' where
      "read_head (buf @ x) t = Inr (e, buf', s')" by auto
    with None m x show ?thesis by (subst read_head.simps) simp
  qed
qed

subsection \<open>One exchange\<close>

lemma write_all_iff: "write_all b s = Inr s' \<longleftrightarrow> write_stop s = None \<and> s' = s\<lparr>written := written s @ b\<rparr>"
  by (auto simp: write_all_def split: option.splits)

text \<open>What an exchange did to the connection, when it succeeds.\<close>

lemma request_response_sound:
  assumes "request_response s addr path body = Inr (raw, reusable, s')"
  shows "conn s' = conn s \<and> written s' = written s @ request_head addr path body @ body \<and>
    (\<exists>h hd x. consumed s' = consumed s @ h @ crlf @ crlf @ raw @ x \<and> parse_response_head h = Inr hd \<and>
      (reusable \<longrightarrow> x = [] \<and> hd = \<lparr>content_length = Some (length raw), keep_alive = True\<rparr>))"
proof -
  let ?t = "s\<lparr>written := written s @ request_head addr path body @ body\<rparr>"
  from assms obtain e buf t hd where t: "read_head [] ?t = Inr (e, buf, t)"
    and hd: "parse_response_head (take e buf) = Inr hd"
    and r: "(case content_length hd of
            Some len \<Rightarrow>
              if length (drop (e + 4) buf) < len then
                bind_r (read_exact (len - length (drop (e + 4) buf)) t) (\<lambda>(rest, s).
                  Inr (drop (e + 4) buf @ rest, keep_alive hd, s))
              else
                Inr (take len (drop (e + 4) buf), keep_alive hd \<and> length (drop (e + 4) buf) = len, t)
          | None \<Rightarrow>
              bind_r (read_to_end t) (\<lambda>(rest, s). Inr (drop (e + 4) buf @ rest, False, s))) = Inr (raw, reusable, s')"
    by (auto simp: request_response_def bind_r_Inr_iff write_all_iff Let_def)
  from read_head_sound [OF t] have b: "conn t = conn s" "written t = written ?t"
    "consumed t = consumed s @ buf" "find_header_end buf = Some e" by auto
  have buf: "buf = take e buf @ crlf @ crlf @ drop (e + 4) buf" using header_endD [OF b(4)] by blast
  have "conn s' = conn s \<and> written s' = written ?t \<and> (\<exists>y x. consumed s' = consumed t @ y \<and>
      drop (e + 4) buf @ y = raw @ x \<and>
      (reusable \<longrightarrow> x = [] \<and> content_length hd = Some (length raw) \<and> keep_alive hd))"
  proof (cases "content_length hd")
    case None
    with r b show ?thesis
      by (auto simp: bind_r_Inr_iff read_to_end_def end_of_def split: stream_end.splits)
  next
    case (Some len)
    show ?thesis
    proof (cases "length (drop (e + 4) buf) < len")
      case True
      with r Some obtain y where y: "read_exact (len - length (drop (e + 4) buf)) t = Inr (y, s')"
        "raw = drop (e + 4) buf @ y" "reusable = keep_alive hd" by (auto simp: bind_r_Inr_iff)
      from read_exact_sound [OF y(1)] y(2,3) b True Some show ?thesis by simp
    next
      case False
      with r Some have y: "raw = take len (drop (e + 4) buf)" "s' = t"
        "reusable = (keep_alive hd \<and> length (drop (e + 4) buf) = len)" by auto
      with append_take_drop_id [of len "drop (e + 4) buf"] b Some show ?thesis
        by (intro conjI exI [of _ "[]"] exI [of _ "drop len (drop (e + 4) buf)"]) auto
    qed
  qed
  then obtain y x where f: "conn s' = conn s" "written s' = written ?t" "consumed s' = consumed t @ y"
    "drop (e + 4) buf @ y = raw @ x"
    "reusable \<longrightarrow> x = [] \<and> content_length hd = Some (length raw) \<and> keep_alive hd" by blast
  have "consumed s' = consumed s @ take e buf @ crlf @ crlf @ drop (e + 4) buf @ y"
    using f(3) b(3) buf by (metis append.assoc)
  with f hd show ?thesis
    by (intro conjI exI [of _ "take e buf"] exI [of _ hd] exI [of _ x]) auto
qed

text \<open>An exchange succeeds however the response is cut into segments.\<close>

lemma request_response_total:
  assumes "write_stop s = None" and "concat (segments s) = h @ crlf @ crlf @ b"
    and "find_header_end (h @ crlf @ crlf) = Some (length h)" and "length h + 3 \<le> MAX_RESPONSE_HEAD"
    and "parse_response_head h = Inr \<lparr>content_length = Some (length b), keep_alive = k\<rparr>"
  shows "\<exists>s'. request_response s addr path body = Inr (b, k, s')"
proof -
  let ?t = "s\<lparr>written := written s @ request_head addr path body @ body\<rparr>"
  have "find_header_end ([] @ concat (segments ?t)) = Some (length h)"
    using header_end_append [OF assms(3), of b] assms(2) by simp
  from read_head_total [OF this assms(4)] obtain buf t where t: "read_head [] ?t = Inr (length h, buf, t)" by blast
  from read_head_sound [OF t] have c: "find_header_end buf = Some (length h)"
    "h @ crlf @ crlf @ b = buf @ concat (segments t)" using assms(2) by auto
  note d = header_endD [OF c(1)]
  have th: "take (length h) buf = h" using arg_cong [OF c(2), of "take (length h)"] d by simp
  have b: "b = drop (length h + 4) buf @ concat (segments t)"
    using arg_cong [OF c(2), of "drop (length h + 4)"] d by (simp add: crlf_def)
  have "bind_r (write_all (request_head addr path body) s) (write_all body) = Inr ?t"
    using assms(1) by (simp add: write_all_def)
  then have eq: "request_response s addr path body =
      (if length (drop (length h + 4) buf) < length b then
         bind_r (read_exact (length b - length (drop (length h + 4) buf)) t) (\<lambda>(rest, s).
           Inr (drop (length h + 4) buf @ rest, k, s))
       else Inr (take (length b) (drop (length h + 4) buf), k \<and> length (drop (length h + 4) buf) = length b, t))"
    using t th assms(1,5) by (simp add: request_response_def write_all_def)
  show ?thesis
  proof (cases "concat (segments t) = []")
    case True
    with b have "drop (length h + 4) buf = b" by simp
    with eq show ?thesis by simp
  next
    case False
    from read_exact_total [of "length (concat (segments t))" t] obtain s' where
      "read_exact (length (concat (segments t))) t = Inr (concat (segments t), s')" by auto
    moreover have "length (drop (length h + 4) buf) < length b"
      "length b - length (drop (length h + 4) buf) = length (concat (segments t))"
      using arg_cong [OF b, of length] False unfolding length_append length_greater_0_conv [symmetric] by linarith+
    ultimately show ?thesis using eq b [symmetric] by simp
  qed
qed

subsection \<open>The pool under concurrent RPCs\<close>

text \<open>
  The RPCs of a node run concurrently and share the pool. The state of the machine is the transport, the streams
  the RPCs in flight hold (with the address each was opened for) and the number of connections opened so far. An RPC
  takes an idle stream or opens one; it finishes, and the stream is returned if the exchange allows it; or it fails
  or is cancelled, and the stream is dropped.
\<close>

type_synonym pool_state = "http_transport \<times> (string \<times> tcp_stream) set \<times> nat"

definition fresh_stream :: "nat \<Rightarrow> tcp_stream \<Rightarrow> bool" where
  "fresh_stream c s \<longleftrightarrow> conn s = c \<and> written s = [] \<and> consumed s = []"

inductive pool_step :: "pool_state \<Rightarrow> pool_state \<Rightarrow> bool" where
  ps_checkout: "checkout addr t = (Some s, t') \<Longrightarrow> pool_step (t, H, c) (t', insert (addr, s) H, c)"
| ps_connect: "fresh_stream c s \<Longrightarrow> pool_step (t, H, c) (t, insert (addr, s) H, Suc c)"
| ps_finish: "(addr, s) \<in> H \<Longrightarrow> request_response s addr path body = Inr (raw, reusable, s') \<Longrightarrow>
    pool_step (t, H, c) (if reusable then checkin addr s' t else t, H - {(addr, s)}, c)"
| ps_drop: "(addr, s) \<in> H \<Longrightarrow> pool_step (t, H, c) (t, H - {(addr, s)}, c)"
| ps_peers: "pool_step (t, H, c) (set_peers book t, H, c)"

text \<open>A connection is clean when exactly one complete response was read for each request written.\<close>

definition response_ok :: "string \<times> string \<Rightarrow> bool" where
  "response_ok r \<longleftrightarrow> parse_response_head (fst r) = Inr \<lparr>content_length = Some (length (snd r)), keep_alive = True\<rparr>"

definition clean :: "tcp_stream \<Rightarrow> bool" where
  "clean s \<longleftrightarrow> (\<exists>qs rs. length qs = length rs \<and> (\<forall>r \<in> set rs. response_ok r) \<and>
     written s = concat (map (\<lambda>(a, p, b). request_head a p b @ b) qs) \<and>
     consumed s = concat (map (\<lambda>(h, b). h @ crlf @ crlf @ b) rs))"

definition conns :: "tcp_stream list \<Rightarrow> nat list" where
  "conns l = map conn l"

definition pool_ok :: "pool_state \<Rightarrow> bool" where
  "pool_ok x \<longleftrightarrow> (case x of (t, H, c) \<Rightarrow>
     (\<forall>a l. pool t a = Some l \<longrightarrow> length l \<le> MAX_IDLE_PER_PEER \<and> (\<forall>s \<in> set l. clean s) \<and> distinct (conns l)) \<and>
     (\<forall>a a' l l'. pool t a = Some l \<longrightarrow> pool t a' = Some l' \<longrightarrow> a \<noteq> a' \<longrightarrow> set (conns l) \<inter> set (conns l') = {}) \<and>
     (\<forall>a s. (a, s) \<in> H \<longrightarrow> clean s \<and> (\<forall>b l. pool t b = Some l \<longrightarrow> conn s \<notin> set (conns l))) \<and>
     inj_on (\<lambda>(a, s). conn s) H \<and>
     (\<forall>a l. pool t a = Some l \<longrightarrow> (\<forall>i \<in> set (conns l). i < c)) \<and> (\<forall>(a, s) \<in> H. conn s < c))"

lemma clean_fresh: "fresh_stream c s \<Longrightarrow> clean s"
  unfolding clean_def fresh_stream_def by (intro exI [of _ "[]"]) simp

lemma clean_exchange:
  assumes "clean s" and "request_response s addr path body = Inr (raw, True, s')"
  shows "clean s'" and "conn s' = conn s"
proof -
  from request_response_sound [OF assms(2)] obtain h where
    s': "conn s' = conn s" "written s' = written s @ request_head addr path body @ body"
      "consumed s' = consumed s @ h @ crlf @ crlf @ raw" "response_ok (h, raw)" by (auto simp: response_ok_def)
  show "conn s' = conn s" by (rule s')
  from assms(1) obtain qs rs where "length qs = length rs" "\<forall>r \<in> set rs. response_ok r"
    "written s = concat (map (\<lambda>(a, p, b). request_head a p b @ b) qs)"
    "consumed s = concat (map (\<lambda>(h, b). h @ crlf @ crlf @ b) rs)" by (auto simp: clean_def)
  with s' show "clean s'" unfolding clean_def
    by (intro exI [of _ "qs @ [(addr, path, body)]"] exI [of _ "rs @ [(h, raw)]"]) auto
qed

lemma checkoutD:
  assumes "checkout addr t = (Some s, t')"
  shows "\<exists>l. pool t addr = Some (l @ [s]) \<and> t' = t\<lparr>pool := (pool t)(addr \<mapsto> l)\<rparr>"
  using assms by (auto simp: checkout_def split: option.splits if_splits) (metis append_butlast_last_id)

lemma checkin_pool:
  "pool (checkin addr s t) = (pool t)(addr \<mapsto>
     (let l = (case pool t addr of None \<Rightarrow> [] | Some l \<Rightarrow> l) in if length l < MAX_IDLE_PER_PEER then l @ [s] else l))"
  by (simp add: checkin_def Let_def)

lemma pool_okD:
  assumes "pool_ok (t, H, c)"
  shows "pool t a = Some l \<Longrightarrow> length l \<le> MAX_IDLE_PER_PEER"
    and "pool t a = Some l \<Longrightarrow> s \<in> set l \<Longrightarrow> clean s" and "pool t a = Some l \<Longrightarrow> distinct (conns l)"
    and "pool t a = Some l \<Longrightarrow> pool t a' = Some l' \<Longrightarrow> a \<noteq> a' \<Longrightarrow> i \<in> set (conns l) \<Longrightarrow> i \<notin> set (conns l')"
    and "(a, s) \<in> H \<Longrightarrow> clean s" and "(a, s) \<in> H \<Longrightarrow> pool t b = Some l \<Longrightarrow> conn s \<notin> set (conns l)"
    and "inj_on (\<lambda>(a, s). conn s) H" and "pool t a = Some l \<Longrightarrow> i \<in> set (conns l) \<Longrightarrow> i < c"
    and "(a, s) \<in> H \<Longrightarrow> conn s < c"
  using assms unfolding pool_ok_def by blast+

lemma pool_okI:
  assumes "\<And>a l. pool t a = Some l \<Longrightarrow> length l \<le> MAX_IDLE_PER_PEER \<and> (\<forall>s \<in> set l. clean s) \<and> distinct (conns l)"
    and "\<And>a a' l l' i. pool t a = Some l \<Longrightarrow> pool t a' = Some l' \<Longrightarrow> i \<in> set (conns l) \<Longrightarrow> i \<in> set (conns l') \<Longrightarrow> a = a'"
    and "\<And>a s. (a, s) \<in> H \<Longrightarrow> clean s \<and> (\<forall>b l. pool t b = Some l \<longrightarrow> conn s \<notin> set (conns l)) \<and> conn s < c"
    and "inj_on (\<lambda>(a, s). conn s) H"
    and "\<And>a l i. pool t a = Some l \<Longrightarrow> i \<in> set (conns l) \<Longrightarrow> i < c"
  shows "pool_ok (t, H, c)"
proof -
  have "set (conns l) \<inter> set (conns l') = {}" if "pool t a = Some l" "pool t a' = Some l'" "a \<noteq> a'" for a a' l l'
    using assms(2) [OF that(1,2)] that(3) by auto
  with assms(1,4) show ?thesis unfolding pool_ok_def prod.case using assms(3,5) by fastforce
qed

lemma pool_ok_fewer:
  assumes "pool_ok (t, H, c)" and "pool t' \<subseteq>\<^sub>m pool t" and "H' \<subseteq> H"
  shows "pool_ok (t', H', c)"
proof (rule pool_okI)
  note D = pool_okD [OF assms(1)]
  have p: "pool t a = Some l" if "pool t' a = Some l" for a l
    using assms(2) that by (metis domI map_le_def)
  show "length l \<le> MAX_IDLE_PER_PEER \<and> (\<forall>s \<in> set l. clean s) \<and> distinct (conns l)" if "pool t' a = Some l" for a l
    using D(1-3) [OF p [OF that]] by blast
  show "a = a'" if "pool t' a = Some l" "pool t' a' = Some l'" "i \<in> set (conns l)" "i \<in> set (conns l')" for a a' l l' i
    using D(4) [OF p [OF that(1)] p [OF that(2)] _ that(3)] that(4) by blast
  show "clean s \<and> (\<forall>b l. pool t' b = Some l \<longrightarrow> conn s \<notin> set (conns l)) \<and> conn s < c" if "(a, s) \<in> H'" for a s
    using D(5,6,9) [of a s] p that assms(3) by blast
  show "inj_on (\<lambda>(a, s). conn s) H'" by (rule inj_on_subset [OF D(7) assms(3)])
  show "i < c" if "pool t' a = Some l" "i \<in> set (conns l)" for a l i using D(8) [OF p [OF that(1)] that(2)] .
qed

lemma pool_ok_connect:
  assumes "pool_ok (t, H, c)" and "fresh_stream c s"
  shows "pool_ok (t, insert (addr, s) H, Suc c)"
proof (rule pool_okI)
  note D = pool_okD [OF assms(1)]
  have c: "conn s = c" "clean s" using assms(2) clean_fresh by (auto simp: fresh_stream_def)
  show "length l \<le> MAX_IDLE_PER_PEER \<and> (\<forall>s \<in> set l. clean s) \<and> distinct (conns l)" if "pool t a = Some l" for a l
    using D(1-3) [OF that] by blast
  show "a = a'" if "pool t a = Some l" "pool t a' = Some l'" "i \<in> set (conns l)" "i \<in> set (conns l')" for a a' l l' i
    using D(4) [OF that(1,2) _ that(3)] that(4) by blast
  have "conn s \<notin> (\<lambda>(a, s). conn s) ` H" using D(9) c(1) by (metis (no_types, lifting) case_prod_beta imageE less_irrefl surjective_pairing)
  then show "inj_on (\<lambda>(a, s). conn s) (insert (addr, s) H)"
    using D(7) by (auto simp: inj_on_insert image_iff)
  show "clean x \<and> (\<forall>b l. pool t b = Some l \<longrightarrow> conn x \<notin> set (conns l)) \<and> conn x < Suc c"
    if "(a, x) \<in> insert (addr, s) H" for a x
  proof (cases "(a, x) = (addr, s)")
    case True
    then show ?thesis using c D(8) [of _ _ c] by auto
  next
    case False
    with that have "(a, x) \<in> H" by auto
    from D(5) [OF this] D(6) [OF this] less_SucI [OF D(9) [OF this]] show ?thesis by blast
  qed
  show "i < Suc c" if "pool t a = Some l" "i \<in> set (conns l)" for a l i using D(8) [OF that] by simp
qed

lemma pool_ok_checkout:
  assumes ok: "pool_ok (t, H, c)" and "checkout addr t = (Some s, t')"
  shows "pool_ok (t', insert (addr, s) H, c)"
proof (rule pool_okI)
  from checkoutD [OF assms(2)] obtain l where l: "pool t addr = Some (l @ [s])"
    "t' = t\<lparr>pool := (pool t)(addr \<mapsto> l)\<rparr>" by blast
  note D = pool_okD [OF ok]
  note L = D(1,2,3,8) [OF l(1)]
  have p: "a = addr \<and> m = l \<or> a \<noteq> addr \<and> pool t a = Some m" if "pool t' a = Some m" for a m
    using that l(2) by (auto split: if_splits)
  have s: "conn s \<notin> set (conns m)" if "pool t' a = Some m" for a m
    using p [OF that] L(3) D(4) [OF l(1), of a m "conn s"] by (auto simp: conns_def)
  have q: "\<exists>m'. pool t a = Some m' \<and> set (conns m) \<subseteq> set (conns m')" if "pool t' a = Some m" for a m
    using p [OF that] l(1) by (auto simp: conns_def)
  show "length m \<le> MAX_IDLE_PER_PEER \<and> (\<forall>s \<in> set m. clean s) \<and> distinct (conns m)" if "pool t' a = Some m" for a m
    using p [OF that] L(1-3) D(1-3) [of a m] by (auto simp: conns_def)
  show "a = a'" if "pool t' a = Some m" "pool t' a' = Some m'" "i \<in> set (conns m)" "i \<in> set (conns m')" for a a' m m' i
    using q [OF that(1)] q [OF that(2)] D(4) [of a _ a' _ i] that(3,4) by blast
  show "clean x \<and> (\<forall>b m. pool t' b = Some m \<longrightarrow> conn x \<notin> set (conns m)) \<and> conn x < c"
    if "(a, x) \<in> insert (addr, s) H" for a x
  proof (cases "(a, x) = (addr, s)")
    case True
    then show ?thesis using s L(2) [of s] L(4) [of "conn s"] by (auto simp: conns_def)
  next
    case False
    with that have "(a, x) \<in> H" by auto
    from D(5) [OF this] D(6) [OF this] D(9) [OF this] q show ?thesis by blast
  qed
  have "conn s \<noteq> conn x" if "(a, x) \<in> H" for a x using D(6) [OF that l(1)] by (auto simp: conns_def)
  then show "inj_on (\<lambda>(a, s). conn s) (insert (addr, s) H)"
    using D(7) unfolding inj_on_insert by (auto simp: image_iff)
  show "i < c" if "pool t' a = Some m" "i \<in> set (conns m)" for a m i
    using q [OF that(1)] D(8) that(2) by blast
qed

lemma pool_ok_checkin:
  assumes ok: "pool_ok (t, H, c)" and s: "(addr, s) \<in> H" "clean s'" "conn s' = conn s"
  shows "pool_ok (checkin addr s' t, H - {(addr, s)}, c)"
proof (rule pool_okI)
  note D = pool_okD [OF ok]
  define l where "l = (case pool t addr of None \<Rightarrow> [] | Some l \<Rightarrow> l)"
  let ?t = "checkin addr s' t"
  have p: "a = addr \<and> (m = l \<or> m = l @ [s'] \<and> length l < MAX_IDLE_PER_PEER) \<or> a \<noteq> addr \<and> pool t a = Some m"
    if "pool ?t a = Some m" for a m
    using that by (auto simp: checkin_pool l_def [symmetric] Let_def split: if_splits)
  have L: "length l \<le> MAX_IDLE_PER_PEER \<and> (\<forall>x \<in> set l. clean x) \<and> distinct (conns l) \<and> conn s \<notin> set (conns l)"
  proof (cases "pool t addr")
    case (Some m)
    with D(1-3) [OF Some] D(6) [OF s(1) Some] show ?thesis by (simp add: l_def)
  qed (simp add: l_def conns_def)
  have q: "i = conn s \<and> a = addr \<or> (\<exists>m'. pool t a = Some m' \<and> i \<in> set (conns m'))"
    if "pool ?t a = Some m" "i \<in> set (conns m)" for a m i
    using p [OF that(1)] that(2) s(3) by (auto simp: conns_def l_def split: option.splits)
  show "length m \<le> MAX_IDLE_PER_PEER \<and> (\<forall>s \<in> set m. clean s) \<and> distinct (conns m)" if "pool ?t a = Some m" for a m
    using p [OF that] L D(1-3) [of a m] s(2,3) by (auto simp: conns_def)
  show "a = a'" if m: "pool ?t a = Some m" "pool ?t a' = Some m'" "i \<in> set (conns m)" "i \<in> set (conns m')" for a a' m m' i
    using q [OF m(1,3)] q [OF m(2,4)] D(4) [of a _ a' _ i] D(6) [OF s(1)] by blast
  show "clean x \<and> (\<forall>b m. pool ?t b = Some m \<longrightarrow> conn x \<notin> set (conns m)) \<and> conn x < c"
    if x: "(a, x) \<in> H - {(addr, s)}" for a x
  proof -
    from x have x': "(a, x) \<in> H" "(a, x) \<noteq> (addr, s)" by auto
    with s(1) D(7) have "conn x \<noteq> conn s" by (auto simp: inj_on_def)
    with D(5) [OF x'(1)] D(6) [OF x'(1)] D(9) [OF x'(1)] q show ?thesis by blast
  qed
  show "i < c" if "pool ?t a = Some m" "i \<in> set (conns m)" for a m i
    using q [OF that] D(8) D(9) [OF s(1)] by blast
  show "inj_on (\<lambda>(a, s). conn s) (H - {(addr, s)})" using D(7) by (rule inj_on_diff)
qed

lemma pool_ok_step: "pool_step x y \<Longrightarrow> pool_ok x \<Longrightarrow> pool_ok y"
proof (induction rule: pool_step.induct)
  case (ps_finish addr s H path body raw reusable s' t c)
  show ?case
  proof (cases reusable)
    case True
    with clean_exchange [OF pool_okD(5) [OF ps_finish(3,1)]] ps_finish(2) have "clean s'" "conn s' = conn s" by auto
    with pool_ok_checkin [OF ps_finish(3,1)] True show ?thesis by simp
  next
    case False
    with pool_ok_fewer [OF ps_finish(3), of t] show ?thesis by simp
  qed
next
  case (ps_drop addr s H t c)
  then show ?case using pool_ok_fewer [OF ps_drop(2), of t] by simp
next
  case (ps_peers t H c book)
  have "pool (set_peers book t) \<subseteq>\<^sub>m pool t" by (simp add: set_peers_def map_le_def)
  then show ?case using pool_ok_fewer [OF ps_peers] by simp
qed (auto intro: pool_ok_checkout pool_ok_connect)

lemma pool_ok_new: "pool_ok (http_new i book d, {}, 0)"
  by (simp add: pool_ok_def http_new_def)

text \<open>\<^verbatim>\<open>post_json\<close> is a run of this machine.\<close>

lemma post_on_steps:
  assumes ok: "pool_ok (t, insert (addr, s) H, c)" and n: "(addr, s) \<notin> H"
    and r: "post_on (request_response s addr path body) addr t = (r, t')"
  shows "pool_step (t, insert (addr, s) H, c) (t', H, c)"
proof (cases "request_response s addr path body")
  case (Inl e)
  with r have "t' = t" by (simp add: post_on_def)
  with ps_drop [of addr s "insert (addr, s) H" t c] n show ?thesis by simp
next
  case (Inr x)
  obtain raw reusable s' where x: "x = (raw, reusable, s')" by (cases x)
  with Inr r have "t' = (if reusable then checkin addr s' t else t)" by (simp add: post_on_def)
  with ps_finish [OF _ Inr [unfolded x], of "insert (addr, s) H" t c] n show ?thesis by simp
qed

lemma post_json_steps:
  assumes ok: "pool_ok (t, H, c)" and dial: "\<And>s. dial = Inr s \<Longrightarrow> fresh_stream c s"
    and r: "post_json dial addr path body t = (r, t')"
  shows "\<exists>c'. pool_step\<^sup>*\<^sup>* (t, H, c) (t', H, c')"
proof -
  have fresh: "\<exists>c'. pool_step\<^sup>*\<^sup>* (u, H, c) (u', H, c')"
    if u: "pool_ok (u, H, c)" and "(case dial of Inl e \<Rightarrow> (Inl e, u)
      | Inr s \<Rightarrow> post_on (request_response s addr path body) addr u) = (x, u')" for u u' x
  proof (cases dial)
    case (Inl e)
    with that(2) show ?thesis by auto
  next
    case (Inr s)
    have n: "(addr, s) \<notin> H" using pool_okD(9) [OF u, of addr s] dial [OF Inr] by (auto simp: fresh_stream_def)
    from that(2) Inr have "post_on (request_response s addr path body) addr u = (x, u')" by simp
    from post_on_steps [OF pool_ok_connect [OF u dial [OF Inr]] n this] ps_connect [OF dial [OF Inr], of u H addr]
    show ?thesis by (meson converse_rtranclp_into_rtranclp r_into_rtranclp)
  qed
  show ?thesis
  proof (cases "checkout addr t")
    case (Pair o_s u)
    show ?thesis
    proof (cases o_s)
      case None
      with Pair have "u = t" by (auto simp: checkout_def split: option.splits if_splits)
      with fresh [OF ok] r Pair None show ?thesis by (simp add: post_json_def)
    next
      case (Some s)
      note co = Pair [unfolded Some]
      note o = pool_ok_checkout [OF ok co] and st = ps_checkout [OF co, of H c]
      obtain l where l: "pool t addr = Some (l @ [s])" using checkoutD [OF co] by blast
      have n: "(addr, s) \<notin> H" using pool_okD(6) [OF ok _ l, of addr s] by (auto simp: conns_def)
      show ?thesis
      proof (cases "\<exists>e. request_response s addr path body = Inl (Io e)")
        case True
        have "pool_step (u, insert (addr, s) H, c) (u, H, c)"
          using ps_drop [of addr s "insert (addr, s) H" u c] n by simp
        moreover from this have "pool_ok (u, H, c)" using pool_ok_step o by blast
        from fresh [OF this] r co True obtain c' where "pool_step\<^sup>*\<^sup>* (u, H, c) (t', H, c')"
          by (auto simp: post_json_def)
        ultimately show ?thesis using st by (meson converse_rtranclp_into_rtranclp)
      next
        case False
        with r co have "post_on (request_response s addr path body) addr u = (r, t')"
          by (auto simp: post_json_def split: sum.splits stop.splits)
        from post_on_steps [OF o n this] st show ?thesis by (meson converse_rtranclp_into_rtranclp r_into_rtranclp)
      qed
    qed
  qed
qed

subsection \<open>Examples\<close>

definition example_head :: string where
  "example_head = ''HTTP/1.1 200 OK'' @ crlf @ ''content-length: 2''"

definition example_stream :: tcp_stream where
  "example_stream = \<lparr>conn = 0, written = [], consumed = [], segments = [take 20 example_head,
     drop 20 example_head @ crlf @ crlf @ ''{''  , ''}''], stream_end = PeerSilent, write_stop = None\<rparr>"

lemma example_parsed: "parse_response_head example_head = Inr \<lparr>content_length = Some 2, keep_alive = True\<rparr>"
  by code_simp

lemma example_end: "find_header_end (example_head @ crlf @ crlf) = Some (length example_head)"
  by code_simp

lemma example_bytes:
  "concat (segments example_stream) = example_head @ crlf @ crlf @ ''{}''" "write_stop example_stream = None"
  "length example_head + 3 \<le> MAX_RESPONSE_HEAD"
  by (simp_all add: example_stream_def example_head_def crlf_def MAX_RESPONSE_HEAD_def)

lemma example_exchange:
  "\<exists>s'. request_response example_stream a p b = Inr (''{}'', True, s')"
  by (rule request_response_total [OF example_bytes(2,1) example_end example_bytes(3)])
    (simp add: example_parsed)

subsection \<open>The theorems\<close>

text \<open>
  C33. The pool is safe under concurrent RPCs: whatever the interleaving of requests, failures, cancellations and
  changes of the address book, a connection is idle at most once and never while an RPC uses it, at most four are idle
  per address, and on every idle connection exactly one complete response was read for each request written, so that
  the next response read from it is the response to the next request.
\<close>

theorem pool_exclusive_and_clean:
  assumes "pool_step\<^sup>*\<^sup>* (http_new i book d, {}, 0) (t, H, c)" and "pool t a = Some l"
  shows "length l \<le> MAX_IDLE_PER_PEER \<and> (\<forall>s \<in> set l. clean s) \<and> distinct (map conn l) \<and>
    (\<forall>b m s. pool t b = Some m \<longrightarrow> s \<in> set m \<longrightarrow> conn s \<in> conn ` set l \<longrightarrow> b = a) \<and>
    (\<forall>b s. (b, s) \<in> H \<longrightarrow> conn s \<notin> conn ` set l)"
proof -
  have "pool_ok y" if "pool_step\<^sup>*\<^sup>* (http_new i book d, {}, 0) y" for y
    using that by (induction rule: rtranclp_induct) (auto intro: pool_ok_new pool_ok_step)
  note D = pool_okD [OF this [OF assms(1)]]
  have "b = a" if "pool t b = Some m" "s \<in> set m" "conn s \<in> conn ` set l" for b m s
    using D(4) [OF that(1) assms(2), of "conn s"] that by (auto simp: conns_def)
  moreover have "conn s \<notin> conn ` set l" if "(b, s) \<in> H" for b s
    using D(6) [OF that assms(2)] by (simp add: conns_def)
  ultimately show ?thesis using D(1-3) [OF assms(2)] by (simp add: conns_def)
qed

theorem pool_exclusive_and_clean_witness:
  "\<exists>t s. pool_step\<^sup>*\<^sup>* (http_new 1 [2 \<mapsto> ''b''] 5, {}, 0) (t, {}, 1) \<and> pool t ''b'' = Some [s] \<and> clean s"
proof -
  let ?t = "http_new 1 [2 \<mapsto> ''b''] 5"
  obtain s' where s': "request_response example_stream ''b'' ''/raft'' ''x'' = Inr (''{}'', True, s')"
    using example_exchange by blast
  have "fresh_stream 0 example_stream" by (simp add: fresh_stream_def example_stream_def)
  from ps_connect [OF this, of ?t "{}" "''b''"] ps_finish [OF _ s', of "{(''b'', example_stream)}" ?t 1]
  have st: "pool_step\<^sup>*\<^sup>* (?t, {}, 0) (checkin ''b'' s' ?t, {}, 1)"
    by (simp add: converse_rtranclp_into_rtranclp)
  have p: "pool (checkin ''b'' s' ?t) ''b'' = Some [s']"
    by (simp add: checkin_pool http_new_def MAX_IDLE_PER_PEER_def)
  from pool_exclusive_and_clean [OF st p] have "clean s'" by simp
  with st p show ?thesis by blast
qed

text \<open>
  C34. An RPC over HTTP returns the peer's answer, however the network cuts the response into segments: if the
  address is known, the connection used (an idle one, or a fresh one when none is idle) takes the request,
  and it delivers the answer of the peer's handler under a head that declares its length, then \<^verbatim>\<open>send\<close> returns what
  the peer's node answered to this request of this sender.
\<close>

theorem http_round_trip:
  assumes "peers t to = Some addr"
    and "fst (checkout addr t) = Some s \<or> fst (checkout addr t) = None \<and> connect addr = Inr s"
    and "decode_env (encode_env \<lparr>env_from = ht_id t, env_request = req\<rparr>) = Some \<lparr>env_from = ht_id t, env_request = req\<rparr>"
    and "decode (encode r) = Some r"
    and "answer (ht_id t) req = Some r" and "write_stop s = None"
    and "concat (segments s) = h @ crlf @ crlf @
      snd (snd (handle_raft_rpc decode_env encode True answer (encode_env \<lparr>env_from = ht_id t, env_request = req\<rparr>)))"
    and "find_header_end (h @ crlf @ crlf) = Some (length h)" and "length h + 3 \<le> MAX_RESPONSE_HEAD"
    and "parse_response_head h = Inr \<lparr>content_length = Some (length (encode r)), keep_alive = k\<rparr>"
  shows "fst (http_send encode_env decode connect to req t) = Inr r"
proof -
  let ?b = "encode_env \<lparr>env_from = ht_id t, env_request = req\<rparr>"
  have "concat (segments s) = h @ crlf @ crlf @ encode r" using assms(3,5,7) by (simp add: handle_raft_rpc_def)
  from request_response_total [OF assms(6) this assms(8-10), of addr "''/raft''" ?b] obtain s' where
    s': "request_response s addr ''/raft'' ?b = Inr (encode r, k, s')" by blast
  obtain u where "checkout addr t = (fst (checkout addr t), u)" by (metis prod.collapse)
  with assms(2) s' have "\<exists>u. post_json (connect addr) addr ''/raft'' ?b t = (Inr (encode r), u)"
    by (auto simp: post_json_def post_on_def split: option.splits)
  with assms(1,4) show ?thesis by (auto simp: http_send_def)
qed

theorem http_round_trip_witness:
  "fst (http_send (\<lambda>_. ''q'') (\<lambda>b. if b = ''{}'' then Some (PreVoteR \<lparr>rvr_term = 3, vote_granted = True\<rparr>) else None)
     (\<lambda>_. Inr example_stream) 2
     (PreVote \<lparr>rv_term = 3, candidate_id = 1, last_log_index = 0, last_log_term = 0\<rparr> :: nat rpc_request)
     (http_new 1 [2 \<mapsto> ''b''] 5)) = Inr (PreVoteR \<lparr>rvr_term = 3, vote_granted = True\<rparr>)"
proof -
  let ?q = "PreVote \<lparr>rv_term = 3, candidate_id = 1, last_log_index = 0, last_log_term = 0\<rparr> :: nat rpc_request"
  let ?r = "PreVoteR \<lparr>rvr_term = 3, vote_granted = True\<rparr>"
  show ?thesis
    by (rule http_round_trip [where addr = "''b''" and s = example_stream and h = example_head and k = True
          and answer = "\<lambda>i q. Some ?r" and encode = "\<lambda>_. ''{}''"
          and decode_env = "\<lambda>b. if b = ''q'' then Some \<lparr>env_from = 1, env_request = ?q\<rparr> else None"])
      (simp_all add: http_new_def checkout_def handle_raft_rpc_def example_bytes example_end
        example_parsed [simplified])
qed

text \<open>
  C39. A connection to an address that has left the address book can enter the pool after the pruning: an RPC that was
  in flight when the book changed returns its connection under the old address, where no later RPC looks
  for it.
\<close>

theorem departed_address_repooled:
  assumes "request_response s addr path body = Inr (raw, True, s')" and "addr \<notin> ran book"
  shows "\<exists>t'. pool_step\<^sup>*\<^sup>* (t, {(addr, s)}, c) (t', {}, c) \<and> peers t' = book \<and> addr \<notin> ran (peers t') \<and>
    pool t' addr = Some [s']"
proof -
  let ?u = "set_peers book t"
  have "pool_step (t, {(addr, s)}, c) (?u, {(addr, s)}, c)" by (rule ps_peers)
  moreover have "pool_step (?u, {(addr, s)}, c) (checkin addr s' ?u, {}, c)"
    using ps_finish [OF _ assms(1), of "{(addr, s)}" ?u c] by simp
  ultimately have "pool_step\<^sup>*\<^sup>* (t, {(addr, s)}, c) (checkin addr s' ?u, {}, c)"
    by (meson converse_rtranclp_into_rtranclp r_into_rtranclp)
  moreover have "pool (checkin addr s' ?u) addr = Some [s']" "peers (checkin addr s' ?u) = book"
    using assms(2) by (simp_all add: checkin_pool set_peers_def MAX_IDLE_PER_PEER_def) (simp add: checkin_def)
  ultimately show ?thesis using assms(2) by metis
qed

theorem departed_address_repooled_witness:
  "\<exists>t' s'. pool_step\<^sup>*\<^sup>* (http_new 1 [2 \<mapsto> ''b''] 5, {(''b'', example_stream)}, 1) (t', {}, 1) \<and>
     peers t' = Map.empty \<and> pool t' ''b'' = Some [s']"
proof -
  obtain s' where "request_response example_stream ''b'' ''/raft'' ''x'' = Inr (''{}'', True, s')"
    using example_exchange by blast
  from departed_address_repooled [OF this, of Map.empty "http_new 1 [2 \<mapsto> ''b''] 5" 1] show ?thesis by auto
qed

end
