(* ===== verification/Boot.thy ===== *)
theory Boot
  imports Clients Storage_Crash Config Http
begin

section \<open>The process\<close>

text \<open>
  \<^verbatim>\<open>src/main.rs\<close> puts the parts together: the configuration from the environment, the storage from the data
  directory, the key-value store as the state machine, the transport and the Raft core, and the task that
  folds the membership watch into the address books. \<open>process\<close> is what \<^verbatim>\<open>main\<close> holds when its servers listen;
  \<open>main_start\<close> is \<^verbatim>\<open>main\<close> up to there, with its three ways to die; \<open>fold_membership\<close> is one round of the task.

  The theorems say how processes make up the cluster of \<^verbatim>\<open>Cluster\<close>: started from configurations that name each
  other they are one of its initial states, and a process that dies anywhere in a turn and is started again on
  what its files hold makes one of its steps. The servers, the listeners and the signal handler are I/O.
\<close>

datatype start_error = BadConfig config_error | CannotOpen open_error | NodePanicked panic

record 'v process =
  pr_config :: node_config
  pr_node :: "('v, 'v kv_store) raft_node"
  pr_transport :: http_transport
  pr_urls :: "node_id \<rightharpoonup> string"
  pr_device :: device

definition main_start ::
    "'v serde \<Rightarrow> ('v kv_snapshot \<Rightarrow> 'v) \<Rightarrow> ('v \<Rightarrow> 'v kv_snapshot option) \<Rightarrow> instant \<Rightarrow> (string \<Rightarrow> string option) \<Rightarrow>
       device \<Rightarrow> start_error + 'v process" where
  "main_start sd to_value from_value now env d =
     bind_r (map_err BadConfig (from_vars env))
       (\<lambda>c. bind_r (map_err CannotOpen (open_storage sd d))
         (\<lambda>(st, d).
            let transport = http_new (nc_id c) (nc_peers c) (rpc_timeout_ms c * 1000)
            in bind_r (map_err NodePanicked (spawn now (raft_config_of c) st (kv_machine to_value from_value)))
                 (\<lambda>n. Inr \<lparr>pr_config = c, pr_node = n, pr_transport = transport, pr_urls = peer_client_urls c,
                        pr_device = d\<rparr>)))"

definition fold_membership :: "'v process \<Rightarrow> 'v process" where
  "fold_membership p =
     (let vw = watch_value (membership_tx (pr_node p)); self = nc_id (pr_config p)
      in p\<lparr>pr_transport := set_peers (raft_addrs self vw) (pr_transport p), pr_urls := client_urls self vw\<rparr>)"

subsection \<open>Starting\<close>

lemma main_start_Inr:
  "main_start sd tv fv now env d = Inr p \<longleftrightarrow>
     (\<exists>c st d' n. from_vars env = Inr c \<and> open_storage sd d = Inr (st, d') \<and>
        spawn now (raft_config_of c) st (kv_machine tv fv) = Inr n \<and>
        p = \<lparr>pr_config = c, pr_node = n, pr_transport = http_new (nc_id c) (nc_peers c) (rpc_timeout_ms c * 1000),
          pr_urls = peer_client_urls c, pr_device = d'\<rparr>)"
  by (auto simp: main_start_def bind_r_Inr_iff Let_def)

lemma static_config_of:
  assumes "from_vars env = Inr c" and "insert (nc_id c) (dom (nc_peers c)) = M" and "\<not> nc_join c"
  shows "static_config M (nc_id c) (raft_config_of c)"
  using from_varsD(3) [OF assms(1)] assms(2,3)
  by (simp add: static_config_def raft_config_of_def raft_config_new_def peer_ids_of_def)

text \<open>What is needed for the snapshots of the store, if they are on.\<close>

lemma snapshots_lawful:
  "nc_snapshot_threshold c \<noteq> None \<longrightarrow> (\<forall>x. fv (tv x) = Some x) \<Longrightarrow>
     snapshot_threshold (raft_config_of c) \<noteq> None \<longrightarrow> lawful (kv_machine tv fv)"
  by (auto simp: raft_config_of_def intro: kv_machine_lawful)

lemma first_start:
  assumes "from_vars env = Inr c" and "insert (nc_id c) (dom (nc_peers c)) = M" and "\<not> nc_join c"
  shows "\<exists>p. main_start sd tv fv now env empty_device = Inr p \<and> pr_config p = c \<and>
    spawn now (raft_config_of c) empty_storage (kv_machine tv fv) = Inr (pr_node p)"
proof -
  from open_empty [of sd] obtain d where d: "open_storage sd empty_device = Inr (empty_storage, d)" by blast
  from spawn_eq [OF static_config_of [OF assms], of empty_storage "kv_machine tv fv" "[]" now] obtain n where
    n: "spawn now (raft_config_of c) empty_storage (kv_machine tv fv) = Inr n"
    by (auto simp: empty_storage_def plain_def)
  with d assms(1) show ?thesis by (auto simp: main_start_Inr)
qed

text \<open>
  C12. Processes form the cluster: for each member of \<open>M\<close> an environment that is accepted and names exactly the other
  members as peers, none of them a joiner, and, if snapshots are on, a state that decodes from its encoding. Started on
  new data directories, every process comes up, and together they are an initial state of the cluster.
\<close>

theorem processes_form_cluster:
  assumes "finite M"
    and "\<forall>i \<in> M. from_vars (env i) = Inr (c i) \<and> nc_id (c i) = i \<and> insert i (dom (nc_peers (c i))) = M \<and> \<not> nc_join (c i)"
    and "\<forall>i \<in> M. nc_snapshot_threshold (c i) \<noteq> None \<longrightarrow> (\<forall>x. fv (tv x) = Some x)"
  shows "(\<forall>i \<in> M. \<exists>p. main_start sd tv fv (now i) (env i) empty_device = Inr p) \<and>
    (\<forall>C. wire C = {} \<and> mail C = {} \<and>
      (\<forall>i \<in> M. \<exists>p. main_start sd tv fv (now i) (env i) empty_device = Inr p \<and> nodes C i = pr_node p) \<longrightarrow>
      reachable M (kv_machine tv fv) C)"
proof -
  let ?sm = "kv_machine tv fv"
  have start: "\<exists>p. main_start sd tv fv (now i) (env i) empty_device = Inr p \<and>
      spawn (now i) (raft_config_of (c i)) empty_storage ?sm = Inr (pr_node p)" if "i \<in> M" for i
    using first_start [of "env i" "c i" M sd tv fv "now i"] assms(2) that by metis
  have "reachable M ?sm C"
    if C: "wire C = {}" "mail C = {}"
      "\<forall>i \<in> M. \<exists>p. main_start sd tv fv (now i) (env i) empty_device = Inr p \<and> nodes C i = pr_node p" for C
  proof (rule r_init [OF assms(1) _ C(1,2)], rule ballI)
    fix i assume i: "i \<in> M"
    from start [OF i] C(3) i have "spawn (now i) (raft_config_of (c i)) empty_storage ?sm = Inr (nodes C i)"
      by (metis sum.inject(2))
    moreover have "static_config M i (raft_config_of (c i))" using static_config_of [of "env i" "c i" M] assms(2) i by auto
    moreover have "snapshot_threshold (raft_config_of (c i)) \<noteq> None \<longrightarrow> lawful ?sm"
      using snapshots_lawful assms(3) i by blast
    ultimately show "\<exists>now c. static_config M i c \<and> (snapshot_threshold c \<noteq> None \<longrightarrow> lawful ?sm) \<and>
        spawn now c empty_storage ?sm = Inr (nodes C i)" by blast
  qed
  with start show ?thesis by blast
qed

definition example_envs :: "node_id \<Rightarrow> string \<Rightarrow> string option" where
  "example_envs i =
     (if i = 1 then [''RUSTKV_NODE_ID'' \<mapsto> ''1'', ''RUSTKV_PEERS'' \<mapsto> ''2=b:90,3=c:90'']
      else if i = 2 then [''RUSTKV_NODE_ID'' \<mapsto> ''2'', ''RUSTKV_PEERS'' \<mapsto> ''1=a:90,3=c:90'']
      else [''RUSTKV_NODE_ID'' \<mapsto> ''3'', ''RUSTKV_PEERS'' \<mapsto> ''1=a:90,2=b:90''])"

lemma example_envs_accepted:
  assumes "i \<in> {1, 2, 3}"
  shows "\<exists>c. from_vars (example_envs i) = Inr c \<and> nc_id c = i \<and> insert i (dom (nc_peers c)) = {1, 2, 3} \<and> \<not> nc_join c \<and>
    nc_snapshot_threshold c = None \<and> (\<forall>j. nc_peers c j \<noteq> Some [])"
proof -
  note P = parse_peer_map_def trim_def trim_start_def trim_end_def is_space_def parse_u64_def is_digit_def digit_val_def
  have p: "parse_peer_map ''2=b:90,3=c:90'' = Inr [2 \<mapsto> ''b:90'', 3 \<mapsto> ''c:90'']"
    "parse_peer_map ''1=a:90,3=c:90'' = Inr [1 \<mapsto> ''a:90'', 3 \<mapsto> ''c:90'']"
    "parse_peer_map ''1=a:90,2=b:90'' = Inr [1 \<mapsto> ''a:90'', 2 \<mapsto> ''b:90'']"
    "parse_peer_map [] = Inr Map.empty" "parse_u64 ''1'' = Some 1" "parse_u64 ''2'' = Some 2" "parse_u64 ''3'' = Some 3"
    by (simp_all add: P) (simp_all add: numeral_2_eq_2 numeral_3_eq_3)
  from assms show ?thesis by (auto simp: Let_def from_vars_def example_envs_def var_or_def p)
qed

theorem processes_form_cluster_witness:
  "\<exists>C. reachable {1, 2, 3} (kv_machine (\<lambda>_. 0 :: nat) (\<lambda>_. None)) C \<and>
     (\<forall>i \<in> {1, 2, 3}. \<exists>p. main_start example_serde (\<lambda>_. 0) (\<lambda>_. None) 0 (example_envs i) empty_device = Inr p \<and>
        nodes C i = pr_node p)"
proof -
  have "\<forall>i \<in> {1, 2, 3}. \<exists>c. from_vars (example_envs i) = Inr c \<and> nc_id c = i \<and> insert i (dom (nc_peers c)) = {1, 2, 3} \<and>
      \<not> nc_join c \<and> nc_snapshot_threshold c = None" using example_envs_accepted by blast
  from bchoice [OF this] obtain c where c: "\<forall>i \<in> {1, 2, 3}. from_vars (example_envs i) = Inr (c i) \<and> nc_id (c i) = i \<and>
      insert i (dom (nc_peers (c i))) = {1, 2, 3} \<and> \<not> nc_join (c i) \<and> nc_snapshot_threshold (c i) = None" by blast
  have c1: "\<forall>i \<in> {1, 2, 3}. from_vars (example_envs i) = Inr (c i) \<and> nc_id (c i) = i \<and>
      insert i (dom (nc_peers (c i))) = {1, 2, 3} \<and> \<not> nc_join (c i)"
    and c2: "\<forall>i \<in> {1, 2, 3}. nc_snapshot_threshold (c i) \<noteq> None \<longrightarrow> (\<forall>x. (None :: nat kv_snapshot option) = Some x)"
    using c by auto
  have "finite {1, 2, 3 :: nat}" by simp
  note P = processes_form_cluster [OF this c1 c2, where tv = "\<lambda>_. 0" and sd = example_serde and now = "\<lambda>_. 0"]
  from bchoice [OF conjunct1 [OF P]] obtain p where
    p: "\<forall>i \<in> {1, 2, 3}. main_start example_serde (\<lambda>_. 0) (\<lambda>_. None) 0 (example_envs i) empty_device = Inr (p i)" by blast
  define C :: "(nat, nat kv_store) cluster" where "C = \<lparr>nodes = (\<lambda>i. pr_node (p i)), wire = {}, mail = {}\<rparr>"
  have "nodes C i = pr_node (p i)" "wire C = {}" "mail C = {}" for i by (simp_all add: C_def)
  with p conjunct2 [OF P] show ?thesis by (intro exI [of _ C]) metis
qed

subsection \<open>Dying and starting again\<close>

text \<open>What a process has done to its device when it has done the effects \<open>fx\<close>: for each stored state the system calls of a
  mutation that gives it.\<close>

inductive performs :: "'v serde \<Rightarrow> 'v storage \<Rightarrow> device \<Rightarrow> 'v effect list \<Rightarrow> 'v storage \<Rightarrow> device \<Rightarrow> bool"
  for sd :: "'v serde" where
  performs_none: "performs sd st d [] st d"
| performs_store: "mutate m st = Inr st1 \<Longrightarrow> performs sd st1 (run (mutate_io sd m st) d) fx st' d' \<Longrightarrow>
    performs sd st d (Stored st1 # fx) st' d'"
| performs_other: "\<forall>st. e \<noteq> Stored st \<Longrightarrow> performs sd st d fx st' d' \<Longrightarrow> performs sd st d (e # fx) st' d'"

text \<open>The files of a process that died: at rest, or in the middle of the mutation that comes next.\<close>

definition died ::
    "'v serde \<Rightarrow> 'v effect list \<Rightarrow> 'v storage \<Rightarrow> device \<Rightarrow> device \<Rightarrow> bool" where
  "died sd gx st d d' \<longleftrightarrow>
     crash d d' \<or>
     (\<exists>m st' hx k. gx = Stored st' # hx \<and> mutate m st = Inr st' \<and> crash (run (take k (mutate_io sd m st)) d) d')"

text \<open>A node has no entry before its first term: its first mutation saves a hard state.\<close>

lemma request_terms: "(wstep qs)\<^sup>*\<^sup>* winit w \<Longrightarrow> MVoteReq t c lg \<in> ms w \<Longrightarrow> 0 < t"
proof (induction rule: rtranclp_induct)
  case (step w w')
  from step.hyps(2) obtain i p s where "pstep qs i (procs w i) (net w) p s" "w' = \<lparr>procs = (procs w)(i := p), net = s\<rparr>"
    by (auto elim: wstep.cases)
  with step.IH step.prems show ?case by (auto elim!: pstep.cases)
qed (simp add: winit_def)

lemma entries_have_terms:
  assumes "(wstep (is_majority M))\<^sup>*\<^sup>* winit w" and a: "at_run M sm w i L n s" and "log (storage n) \<noteq> []"
  shows "hard_state (storage n) \<noteq> default_hard_state"
proof -
  let ?w = "put w i (absp L n) s"
  from a have "finite M" "inv (is_majority M) w" and st: "(wstep (is_majority M))\<^sup>*\<^sup>* w ?w" and h: "holds_log L (storage n)"
    by (simp_all add: at_run_def node_ok_def)
  then have I: "inv (is_majority M) ?w" using raft_quorums.inv_steps [OF majority_locale] by blast
  have L: "L \<noteq> []" using assms(3) holds_logD(8) [OF h] by auto
  let ?t = "entry_term (hd L)"
  from I have inv: "inv_votes ?w" "inv_led (is_majority M) ?w" "inv_logs ?w" by (simp_all add: inv_def)
  have w: "lg_of ?w i = L" "trm ?w i = current_term n" by (simp_all add: put_def absp_def)
  from inv_logsD(1,2) [OF inv(3), where i = i, unfolded w] L have "wf_log (ld ?w) L" "?t \<le> current_term n" by simp_all
  then obtain c L' where "ld ?w ?t = Some (c, L')" using L by (auto simp: wf_log_def hd_conv_nth)
  from inv_ledD(1) [OF inv(2) this] obtain j lg where "MVote ?t j c lg \<in> ms ?w" by (fastforce simp: is_majority_def)
  from inv_votesD(6) [OF inv(1) this] obtain lg' where "MVoteReq ?t c lg' \<in> ms ?w" by blast
  with request_terms [OF rtranclp_trans [OF assms(1) st]] have "0 < ?t" by blast
  with \<open>?t \<le> current_term n\<close> show ?thesis by (auto simp: current_term_def default_hard_state_def)
qed

lemma performs_holds:
  assumes "performs sd st d fx st' d'" and "serde_ok sd" and "holds sd d st" and "opened d"
    and "\<And>gx hx r. fx = gx @ hx \<Longrightarrow> last_stored (Some st) gx = Some r \<Longrightarrow> log r \<noteq> [] \<Longrightarrow> hard_state r \<noteq> default_hard_state"
  shows "holds sd d' st' \<and> opened d' \<and> last_stored (Some st) fx = Some st'"
  using assms
proof (induction rule: performs.induct)
  case (performs_store m st st1 d fx st' d')
  have "linked d" if "m = Append es" "es \<noteq> []" for es
  proof (rule opened_linked [OF performs_store.prems(2,3)])
    from that performs_store.hyps(1) have "log st1 \<noteq> []" "hard_state st1 = hard_state st" by (auto simp: append_Inr_iff)
    with performs_store.prems(4) [of "[Stored st1]" fx st1] show "hard_state st \<noteq> default_hard_state" by simp
  qed
  then have "linked d \<or> (\<forall>es. m = Append es \<longrightarrow> es = [])" by blast
  from mutate_done_opened [OF performs_store.prems(1-3) performs_store.hyps(1) this]
  have h: "holds sd (run (mutate_io sd m st) d) st1" "opened (run (mutate_io sd m st) d)"
    using performs_store.prems(3) linked_opened by (auto simp: holds_def)
  have "hard_state r \<noteq> default_hard_state"
    if "fx = gx @ hx" "last_stored (Some st1) gx = Some r" "log r \<noteq> []" for gx hx r
    using performs_store.prems(4) [of "Stored st1 # gx" hx r] that by simp
  from performs_store.IH [OF performs_store.prems(1) h this] show ?case by simp
next
  case (performs_other e st d fx st' d')
  have l: "last_stored x (e # gx) = last_stored x gx" for x gx using performs_other.hyps(1) by (cases e) auto
  have "hard_state r \<noteq> default_hard_state"
    if "fx = gx @ hx" "last_stored (Some st) gx = Some r" "log r \<noteq> []" for gx hx r
    using performs_other.prems(4) [of "e # gx" hx r] that l by simp
  from performs_other.IH [OF performs_other.prems(1-3) this] l show ?case by simp
qed simp_all

lemma crash_result_left:
  assumes "last_stored None fx = Some st" and "gx = Stored st' # hx" and "mutate m st = Inr st'" and "crash_result m st st' r"
  shows "left_by fx gx r"
proof -
  have "cut_short st st' r" if "m = Append es" "append st (take n es) = Inr r" for es n
  proof -
    have "st' = st\<lparr>log := log st @ es\<rparr>" "r = st\<lparr>log := log st @ take n es\<rparr>"
      using assms(3) that by (auto simp: append_Inr_iff)
    then have "hard_state st' = hard_state st \<and> snapshot st' = snapshot st"
      "log st' = log st @ take n es @ drop n es \<and> r = st\<lparr>log := log st @ take n es\<rparr>" by simp_all
    then show ?thesis unfolding cut_short_def by blast
  qed
  moreover have "half_installed st st' r" if "m = InstallSnapshotTo s" "r = unrewritten st s" for s
    using assms(3) that by (auto simp: half_installed_def install_snapshot_Inr_iff)
  ultimately show ?thesis using assms by (auto simp: left_by_def left_whole_def crash_result_def)
qed

lemma died_recovers:
  assumes "serde_ok sd" and "holds sd d st" and "opened d" and "last_stored None fx = Some st" and "died sd gx st d d'"
  shows "\<exists>r d''. open_storage sd d' = Inr (r, d'') \<and> opened d'' \<and> left_by fx gx r \<and>
    (holds sd d'' r \<or> (\<exists>s hx. gx = Stored r # hx \<and> snapshot r = Some s \<and> last_index st < last_included_index s))"
  using assms(5) unfolding died_def
proof
  assume c: "crash d d'"
  from assms(2) obtain V es where q: "Disk.quiet d V" and D: "decodes sd V st es" by (auto simp: holds_def)
  from recovered [OF assms(1) quiet_crash [OF q c] decodes_torn [OF D] opened_founded [OF q assms(3)] c] assms(4) show ?thesis
    by (auto simp: left_by_def left_whole_def)
next
  assume "\<exists>m st' hx k. gx = Stored st' # hx \<and> mutate m st = Inr st' \<and> crash (run (take k (mutate_io sd m st)) d) d'"
  then obtain m st' hx k where m: "gx = Stored st' # hx" "mutate m st = Inr st'"
    and c: "crash (run (take k (mutate_io sd m st)) d) d'" by blast
  from mutate_recovers [OF assms(1-3) m(2) c] obtain r d'' where r: "open_storage sd d' = Inr (r, d'')" "opened d''"
    "crash_result m st st' r"
    "holds sd d'' r \<or> (\<exists>s. m = InstallSnapshotTo s \<and> last_index st < last_included_index s \<and> r = st')" by blast
  with crash_result_left [OF assms(4) m r(3)] m show ?thesis by (fastforce simp: install_snapshot_Inr_iff)
qed

text \<open>
  C13. A process that dies comes back. In a reachable state the directory of a node holds its storage; the node takes a turn
  and has done the effects \<open>fx\<close> of it, with the system calls of the mutations among them, when it dies: at rest, or after any
  number of the system calls of the mutation that comes next. This covers the first turns on a new directory and every
  mutation, the installation of a snapshot included. \<^verbatim>\<open>main\<close>, run again with the same configuration on whatever the
  crash left of the directory, comes up, on a storage as \<open>left_by\<close> describes it. Unless that is a
  snapshot over the old log, the new process in the place of the old one is a crash step of the cluster. And the directory
  holds the storage again, so that all of this applies to the next crash, unless the process died while installing a
  snapshot beyond the end of its log.
\<close>

theorem crashed_process_restarts:
  assumes "reachable M (kv_machine tv fv) C" and "i \<in> M" and "turn_enabled C i t"
    and "take_turn now t (drained (nodes C i)) = Inr (go, rep, n)"
    and "effects n = Stored (storage (nodes C i)) # fx @ gx"
    and "serde_ok sd" and "holds sd d0 (storage (nodes C i))" and "opened d0"
    and "performs sd (storage (nodes C i)) d0 fx st d" and "died sd gx st d d'"
    and "from_vars env = Inr c" and "raft_config_of c = config n"
  shows "\<exists>p. main_start sd tv fv now' env d' = Inr p \<and> opened (pr_device p) \<and>
    left_by (Stored (storage (nodes C i)) # fx) gx (storage (pr_node p)) \<and>
    (left_whole (Stored (storage (nodes C i)) # fx) gx (storage (pr_node p)) \<longrightarrow>
      cstep M (kv_machine tv fv) C (C\<lparr>nodes := (nodes C)(i := (pr_node p)\<lparr>effects := Stored (storage (nodes C i)) # fx\<rparr>),
        wire := wire C \<union> posted i ((pr_node p)\<lparr>effects := Stored (storage (nodes C i)) # fx\<rparr>)\<rparr>)) \<and>
    (holds sd (pr_device p) (storage (pr_node p)) \<or>
      (\<exists>s hx. gx = Stored (storage (pr_node p)) # hx \<and> snapshot (storage (pr_node p)) = Some s \<and>
        last_index st < last_included_index s))"
proof -
  let ?sm = "kv_machine tv fv" and ?fx = "Stored (storage (nodes C i)) # fx"
  from reachable_related [OF assms(1)] obtain w where R: "related M ?sm C w" by blast
  from turn_runs [OF R assms(2-4)] obtain L s where r: "runs M ?sm w i L n s" by blast
  have e: "effects n = ?fx @ gx" using assms(5) by simp
  have terms: "hard_state x \<noteq> default_hard_state"
    if "fx = hx @ kx" "last_stored (Some (storage (nodes C i))) hx = Some x" "log x \<noteq> []" for hx kx x
  proof -
    have e: "effects n = (Stored (storage (nodes C i)) # hx) @ (kx @ gx)" using that(1) assms(5) by simp
    have "left_whole (Stored (storage (nodes C i)) # hx) (kx @ gx) x" using that(2) by (simp add: left_whole_def)
    from crash_left [OF r e this] obtain L' m s' where "at_run M ?sm w i L' m s'" "storage m = x" by metis
    with entries_have_terms [of M w ?sm i L' m s'] R that(3) show ?thesis by (auto simp: related_def)
  qed
  from performs_holds [OF assms(9,6-8) terms] have d: "holds sd d st" "opened d" "last_stored None ?fx = Some st" by auto
  from died_recovers [OF assms(6) d assms(10)] obtain x d'' where
    x: "open_storage sd d' = Inr (x, d'')" "opened d''" "left_by ?fx gx x"
    "holds sd d'' x \<or> (\<exists>s hx. gx = Stored x # hx \<and> snapshot x = Some s \<and> last_index st < last_included_index s)" by blast
  from left_by_spawns [OF r e x(3), of now'] obtain n' where n': "spawn now' (config n) x ?sm = Inr n'" "storage n' = x" by blast
  with x(1) assms(11,12) obtain p where p: "main_start sd tv fv now' env d' = Inr p" "pr_node p = n'" "pr_device p = d''"
    by (auto simp: main_start_Inr)
  from c_crash [OF assms(2) UNIV_I assms(3,4) e _ n'(1)] p x(2-4) n'(2) show ?thesis by auto
qed

text \<open>A process without peers, alone in its cluster: its election timer makes it vote for itself, and it dies while
  the vote is written.\<close>

definition lone_config :: raft_config where
  "lone_config = (raft_config_new 1 [])\<lparr>bootstrap_addrs :=
     fmupd 1 \<lparr>raft = ''127.0.0.1:9080'', client_url = ''http://127.0.0.1:8080''\<rparr> fmempty\<rparr>"

definition lone_node :: "(nat, nat kv_store) raft_node" where
  "lone_node = projr (spawn 0 lone_config empty_storage example_machine)"

definition lone_vote :: "nat storage" where
  "lone_vote = empty_storage\<lparr>hard_state := \<lparr>hs_current_term = 1, voted_for = Some 1\<rparr>\<rparr>"

lemma lone_env: "\<exists>c. from_vars (\<lambda>_. None) = Inr c \<and> raft_config_of c = lone_config"
proof -
  define c where "c = \<lparr>nc_id = 1, listen = ''127.0.0.1:8080'', raft_listen = ''127.0.0.1:9080'', data_dir = ''./rustkv-data'',
    nc_peers = Map.empty, peer_client_urls = Map.empty, nc_snapshot_threshold = None, nc_snapshot_trailing = 0,
    nc_join = False, rpc_timeout_ms = 150, advertise_raft_addr = ''127.0.0.1:9080'',
    advertise_client_url = ''http://'' @ ''127.0.0.1:8080''\<rparr>"
  have "parse_peer_map [] = Inr Map.empty" by (simp add: parse_peer_map_def trim_def trim_start_def trim_end_def)
  then have "from_vars (\<lambda>_. None) = Inr c" unfolding from_vars_def Let_def var_or_def c_def by simp
  moreover have "raft_config_of c = lone_config"
    unfolding raft_config_of_def bootstrap_addrs_of_def peer_ids_of_def lone_config_def c_def by (simp add: raft_config_new_def)
  ultimately show ?thesis by blast
qed

lemma lone_spawned: "spawn 0 lone_config empty_storage example_machine = Inr lone_node"
proof -
  have "static_config {1} 1 lone_config" by (simp add: static_config_def lone_config_def raft_config_new_def)
  then have "\<exists>n. spawn 0 lone_config empty_storage example_machine = Inr n"
    using spawn_eq [of "{1}" 1 lone_config empty_storage example_machine "[]" 0] by (fastforce simp: empty_storage_def plain_def)
  then show ?thesis by (auto simp only: lone_node_def sum.sel)
qed

lemma lone_reachable: "reachable {1} example_machine \<lparr>nodes = (\<lambda>_. lone_node), wire = {}, mail = {}\<rparr>"
proof (rule r_init)
  have "static_config {1} 1 lone_config \<and> snapshot_threshold lone_config = None"
    by (simp add: static_config_def lone_config_def raft_config_new_def)
  with lone_spawned show "\<forall>i \<in> {1}. \<exists>now c. static_config {1} i c \<and> (snapshot_threshold c \<noteq> None \<longrightarrow> lawful example_machine) \<and>
      spawn now c empty_storage example_machine = Inr (nodes \<lparr>nodes = (\<lambda>_. lone_node), wire = {}, mail = {}\<rparr> i)"
    by (intro ballI exI [of _ 0] exI [of _ lone_config]) simp
qed simp_all

lemma lone_turn:
  "(case take_turn 400000 ElectionTimer (drained lone_node) of
      Inr (_, _, n) \<Rightarrow> effects n = Stored empty_storage # [] @ Stored lone_vote # drop 2 (effects n) \<and> config n = lone_config
    | Inl _ \<Rightarrow> False) \<and> \<not> is_leader lone_node \<and> storage lone_node = empty_storage"
  by code_simp

theorem crashed_process_restarts_witness:
  "\<exists>d0 p d'. open_storage example_serde empty_device = Inr (empty_storage :: nat storage, d0) \<and>
    crash (run (take 4 (save_hard_state_io example_serde \<lparr>hs_current_term = 1, voted_for = Some 1\<rparr>)) d0) d' \<and>
    main_start example_serde (\<lambda>_. 0) (\<lambda>_. None) 7 (\<lambda>_. None) d' = Inr p \<and> opened (pr_device p)"
proof -
  let ?C = "\<lparr>nodes = (\<lambda>_. lone_node), wire = {}, mail = {}\<rparr> :: (nat, nat kv_store) cluster"
  let ?h = "\<lparr>hs_current_term = 1, voted_for = Some 1\<rparr>"
  from open_empty [of example_serde] obtain d0 where
    d0: "open_storage example_serde empty_device = Inr (empty_storage :: nat storage, d0)" "holds example_serde d0 (empty_storage :: nat storage)"
    "opened d0" by blast
  let ?d = "run (take 4 (mutate_io example_serde (SaveHardState ?h) empty_storage)) d0"
  let ?d' = "?d\<lparr>dirs := [hd (dirs ?d)], durable := content ?d\<rparr>"
  have R: "reachable {1} (kv_machine (\<lambda>_. 0) (\<lambda>_. None)) ?C" using lone_reachable by (simp add: example_machine_def)
  have s: "storage lone_node = empty_storage" using lone_turn by (auto split: sum.splits prod.splits)
  from lone_turn obtain go rep n where n: "take_turn 400000 ElectionTimer (drained (nodes ?C 1)) = Inr (go, rep, n)"
    "effects n = Stored empty_storage # [] @ Stored lone_vote # drop 2 (effects n)" "config n = lone_config"
    by (auto split: sum.splits prod.splits)
  have t: "turn_enabled ?C 1 ElectionTimer" using lone_turn by (simp add: turn_enabled_def)
  from lone_env obtain c where c: "from_vars (\<lambda>_. None) = Inr c" "raft_config_of c = lone_config" by blast
  have "dirs ?d \<noteq> []" using held_founded [OF d0(2,3), of 4 "SaveHardState ?h"] by (simp add: founded_def)
  then have cr: "crash ?d ?d'" by (auto simp: crash_def survives_def)
  then have "died example_serde (Stored lone_vote # drop 2 (effects n)) empty_storage d0 ?d'"
    unfolding died_def by (intro disjI2 exI [of _ "SaveHardState ?h"]) (auto simp: lone_vote_def save_hard_state_def)
  from crashed_process_restarts [OF R _ t n(1), of "[]" _ example_serde d0 empty_storage d0, OF _ _ example_serde_ok _ d0(3) _ this c(1), of 7]
  obtain p where "main_start example_serde (\<lambda>_. 0) (\<lambda>_. None) 7 (\<lambda>_. None) ?d' = Inr p" "opened (pr_device p)"
    using n(2,3) s d0(2) c(2) performs_none by auto
  with cr d0(1) show ?thesis by auto
qed

subsection \<open>The address books\<close>

text \<open>What the task works on: the view that the node published last.\<close>

definition departing_of :: "('v, 'sm) raft_node \<Rightarrow> membership" where
  "departing_of n = (case role n of Leader l \<Rightarrow> fmmap snd (departing l) | _ \<Rightarrow> fmempty)"

lemma published_view:
  "watch_value (membership_tx (publish_membership n)) = \<lparr>view_members = members n, view_departing = departing_of n\<rparr>"
  by (simp add: publish_membership_def send_if_modified_def departing_of_def Let_def split: role.split)

lemma folded_books:
  assumes "pr_node p = publish_membership n"
  shows "peers (pr_transport (fold_membership p)) =
      addr_book (nc_id (pr_config p)) raft (members n) ++ addr_book (nc_id (pr_config p)) raft (departing_of n)"
    and "pr_urls (fold_membership p) = addr_book (nc_id (pr_config p)) client_url (members n)"
  using assms by (simp_all add: fold_membership_def Let_def set_peers_def published_view raft_addrs_eq client_urls_eq)

text \<open>
  C28. The address books follow the membership. After a round of the task on the view a node published, the transport has for
  a peer the address under which it is departing, if it is and has one, else the address it has as a member; the
  redirect map has for a peer the URL it has as a member and none for peers that are only departing; neither has the node
  itself or an empty address. So the node can reach every peer that it still replicates to, also one that was removed and
  is owed its removal, unless no address is known for it.
\<close>

theorem address_books_follow_view:
  assumes "pr_node p = publish_membership n" and "nc_id (pr_config p) = cfg_id (config n)"
  shows "(peers (pr_transport (fold_membership p)) j = Some a \<longleftrightarrow> j \<noteq> cfg_id (config n) \<and> a \<noteq> [] \<and>
      (map_option raft (fmlookup (departing_of n) j) = Some a \<or>
       map_option raft (fmlookup (departing_of n) j) \<in> {None, Some []} \<and> map_option raft (fmlookup (members n) j) = Some a)) \<and>
    (pr_urls (fold_membership p) j = Some u \<longleftrightarrow> j \<noteq> cfg_id (config n) \<and> u \<noteq> [] \<and>
      map_option client_url (fmlookup (members n) j) = Some u) \<and>
    (j \<in> set (replication_targets n) \<and> j \<noteq> cfg_id (config n) \<and> peers (pr_transport (fold_membership p)) j = None \<longrightarrow>
      (\<exists>x. raft x = [] \<and> (fmlookup (members n) j = Some x \<or> fmlookup (departing_of n) j = Some x)))"
proof -
  note B = folded_books [OF assms(1), unfolded assms(2)]
  have T: "fmlookup (members n) j \<noteq> None \<or> fmlookup (departing_of n) j \<noteq> None" if "j \<in> set (replication_targets n)"
    using that by (auto simp: replication_targets_def peer_ids_def departing_of_def fmlookup_dom_iff split: role.splits)
  show ?thesis unfolding B
    by (intro conjI) (use T in \<open>auto simp: addr_book_def map_add_def split: option.splits if_splits\<close>)
qed

text \<open>A leader that has removed member 7, which has not acknowledged that yet.\<close>

theorem address_books_follow_view_witness:
  "\<exists>p :: nat process. peers (pr_transport (fold_membership p)) 2 = Some ''b:90'' \<and>
     peers (pr_transport (fold_membership p)) 7 = Some ''g:90'' \<and> pr_urls (fold_membership p) 7 = None"
proof -
  from example_envs_accepted [of 1] obtain c where c: "from_vars (example_envs 1) = Inr c" "nc_id c = 1"
    "insert 1 (dom (nc_peers c)) = {1, 2, 3}" "\<not> nc_join c" by auto
  from first_start [OF c(1) _ c(4), of _ example_serde "\<lambda>_. 0" "\<lambda>_. None" 0] obtain p0 :: "nat process" where
    p0: "pr_config p0 = c" "spawn 0 (raft_config_of c) empty_storage (kv_machine (\<lambda>_. 0) (\<lambda>_. None)) = Inr (pr_node p0)" by auto
  define n where "n = (pr_node p0)\<lparr>config := (config (pr_node p0))\<lparr>cfg_id := 1\<rparr>,
    members := fmupd 2 \<lparr>raft = ''b:90'', client_url = ''http://b''\<rparr> fmempty,
    role := Leader \<lparr>next_index = Map.empty, match_index = Map.empty, term_start_index = 1, heartbeat_seq = 0,
      acked_seq = Map.empty, last_contact = Map.empty,
      departing = fmupd 7 (3, \<lparr>raft = ''g:90'', client_url = ''http://g''\<rparr>) fmempty, pending_reads = []\<rparr>\<rparr>"
  define p where "p = p0\<lparr>pr_node := publish_membership n\<rparr>"
  have p: "pr_node p = publish_membership n" "nc_id (pr_config p) = cfg_id (config n)" and i: "cfg_id (config n) = 1"
    using p0(1) c(2) by (simp_all add: p_def n_def)
  note A = address_books_follow_view [OF p, unfolded i]
  have l: "fmlookup (members n) 2 = Some \<lparr>raft = ''b:90'', client_url = ''http://b''\<rparr>" "fmlookup (members n) 7 = None"
    "fmlookup (departing_of n) 2 = None" "fmlookup (departing_of n) 7 = Some \<lparr>raft = ''g:90'', client_url = ''http://g''\<rparr>"
    by (simp_all add: n_def departing_of_def)
  have "peers (pr_transport (fold_membership p)) 2 = Some ''b:90''" using A [THEN conjunct1, of 2 "''b:90''"] l by simp
  moreover have "peers (pr_transport (fold_membership p)) 7 = Some ''g:90''" using A [THEN conjunct1, of 7 "''g:90''"] l by simp
  moreover have "pr_urls (fold_membership p) 7 \<noteq> Some u" for u using A [THEN conjunct2, THEN conjunct1, of 7 u] l by simp
  ultimately show ?thesis by blast
qed

lemma bootstrap_lookup:
  "fmlookup (bootstrap_membership c) i =
     (if i \<in> insert (cfg_id c) (set (raft_config.peers c))
      then Some (case fmlookup (bootstrap_addrs c) i of Some a \<Rightarrow> a | None \<Rightarrow> \<lparr>raft = [], client_url = []\<rparr>) else None)"
proof -
  have "fmlookup (fold (\<lambda>i m. fmupd i (f i) m) xs m) i = (if i \<in> set xs then Some (f i) else fmlookup m i)"
    for f :: "node_id \<Rightarrow> member_addr" and xs m
    by (induction xs arbitrary: m) auto
  then show ?thesis unfolding bootstrap_membership_def by simp
qed

lemma bootstrap_addr_of:
  assumes "nc_peers c (nc_id c) = None" and "finite (dom (nc_peers c))" and "nc_peers c i = Some a"
  shows "fmlookup (bootstrap_addrs_of c) i =
    Some \<lparr>raft = a, client_url = (case peer_client_urls c i of Some u \<Rightarrow> u | None \<Rightarrow> [])\<rparr>"
  using assms by (auto simp: bootstrap_addrs_of_def fmlookup_of_list peer_ids_of_def map_of_map_restrict restrict_map_def)

lemma first_view:
  assumes "main_start sd tv fv now env empty_device = Inr p" and "\<not> nc_join (pr_config p)"
  shows "watch_value (membership_tx (pr_node p)) =
    \<lparr>view_members = bootstrap_membership (raft_config_of (pr_config p)), view_departing = fmempty\<rparr>"
    and "from_vars env = Inr (pr_config p)" and "pr_urls p = peer_client_urls (pr_config p)"
    and "pr_transport p = http_new (nc_id (pr_config p)) (nc_peers (pr_config p)) (rpc_timeout_ms (pr_config p) * 1000)"
proof -
  from open_empty [of sd] obtain d where d: "open_storage sd empty_device = Inr (empty_storage, d)" by blast
  from assms(1) d obtain n where p: "from_vars env = Inr (pr_config p)" "pr_node p = n" "pr_urls p = peer_client_urls (pr_config p)"
    "spawn now (raft_config_of (pr_config p)) empty_storage (kv_machine tv fv) = Inr n"
    "pr_transport p = http_new (nc_id (pr_config p)) (nc_peers (pr_config p)) (rpc_timeout_ms (pr_config p) * 1000)"
    unfolding main_start_Inr by auto
  have timer: "membership_tx n' = membership_tx n" if "reset_election_timer now n = Inr n'" for n n' :: "('a, 'a kv_store) raft_node"
    using that by (auto simp: reset_election_timer_def Let_def split: if_splits option.splits)
  have dm: "derive_membership (empty_storage :: 'a storage) (raft_config_of (pr_config p)) = (bootstrap_membership (raft_config_of (pr_config p)), 0)"
    using assms(2) by (simp add: derive_membership_def empty_storage_def raft_config_of_def)
  have "snapshot (empty_storage :: 'a storage) = None" by (simp add: empty_storage_def)
  with p(4) dm have "watch_value (membership_tx n) =
      \<lparr>view_members = bootstrap_membership (raft_config_of (pr_config p)), view_departing = fmempty\<rparr>"
    by (auto simp: spawn_def dest!: timer)
  with p show "watch_value (membership_tx (pr_node p)) =
    \<lparr>view_members = bootstrap_membership (raft_config_of (pr_config p)), view_departing = fmempty\<rparr>"
    and "from_vars env = Inr (pr_config p)" and "pr_urls p = peer_client_urls (pr_config p)"
    and "pr_transport p = http_new (nc_id (pr_config p)) (nc_peers (pr_config p)) (rpc_timeout_ms (pr_config p) * 1000)"
    by simp_all
qed

lemma first_books:
  assumes "from_vars env = Inr c"
    and vw: "vw = \<lparr>view_members = bootstrap_membership (raft_config_of c), view_departing = fmempty\<rparr>"
  shows "raft_addrs (nc_id c) vw i = (if nc_peers c i = Some [] then None else nc_peers c i)"
    and "client_urls (nc_id c) vw i =
      (if nc_peers c i = None \<or> peer_client_urls c i = Some [] then None else peer_client_urls c i)"
proof -
  note F = from_varsD(2,3) [OF assms(1)]
  have p: "set (raft_config.peers (raft_config_of c)) = dom (nc_peers c)" "cfg_id (raft_config_of c) = nc_id c"
    "bootstrap_addrs (raft_config_of c) = bootstrap_addrs_of c"
    using F(2) by (simp_all add: raft_config_of_def raft_config_new_def peer_ids_of_def)
  have l: "fmlookup (bootstrap_membership (raft_config_of c)) i = (case nc_peers c i of None \<Rightarrow> None | Some a \<Rightarrow>
      Some \<lparr>raft = a, client_url = (case peer_client_urls c i of Some u \<Rightarrow> u | None \<Rightarrow> [])\<rparr>)" if "i \<noteq> nc_id c"
    using that bootstrap_addr_of [OF F, of i] by (auto simp: bootstrap_lookup p split: option.splits)
  show "raft_addrs (nc_id c) vw i = (if nc_peers c i = Some [] then None else nc_peers c i)"
    using l F(1) by (cases "i = nc_id c") (auto simp: raft_addrs_eq addr_book_def vw map_add_def split: option.splits)
  show "client_urls (nc_id c) vw i = (if nc_peers c i = None \<or> peer_client_urls c i = Some [] then None else peer_client_urls c i)"
    using l F(1) by (cases "i = nc_id c") (auto simp: client_urls_eq addr_book_def vw split: option.splits)
qed

text \<open>
  C29. The first round of the membership task on a new data directory keeps the configured address of every peer that
  has one and the configured URL of every peer that has one, and drops everything else: URLs of nodes that are not peers are
  gone before the first request. So it leaves the process as it was exactly if no address and no URL is empty
  and every URL belongs to a peer; a second round changes nothing.
\<close>

theorem first_fold_of_books:
  assumes "main_start sd tv fv now env empty_device = Inr p" and "pr_config p = c" and "\<not> nc_join c"
  shows "peers (pr_transport (fold_membership p)) = (\<lambda>i. if nc_peers c i = Some [] then None else nc_peers c i) \<and>
    pr_urls (fold_membership p) =
      (\<lambda>i. if nc_peers c i = None \<or> peer_client_urls c i = Some [] then None else peer_client_urls c i) \<and>
    (fold_membership p = p \<longleftrightarrow> (\<forall>i. nc_peers c i \<noteq> Some [] \<and> peer_client_urls c i \<noteq> Some [] \<and>
      (peer_client_urls c i \<noteq> None \<longrightarrow> nc_peers c i \<noteq> None))) \<and>
    fold_membership (fold_membership p) = fold_membership p"
proof -
  note V = first_view [OF assms(1), unfolded assms(2), OF assms(3)]
  note B = first_books [OF V(2) V(1)]
  let ?f = "\<lambda>i. if nc_peers c i = Some [] then None else nc_peers c i"
  let ?g = "\<lambda>i. if nc_peers c i = None \<or> peer_client_urls c i = Some [] then None else peer_client_urls c i"
  have "raft_addrs (nc_id c) (watch_value (membership_tx (pr_node p))) = ?f"
    "client_urls (nc_id c) (watch_value (membership_tx (pr_node p))) = ?g" using B by (intro ext; simp)+
  then have f: "fold_membership p = p\<lparr>pr_transport := (pr_transport p)\<lparr>peers := ?f\<rparr>, pr_urls := ?g\<rparr>"
    using assms(2) V(4) by (simp add: fold_membership_def Let_def set_peers_def http_new_def)
  have "fold_membership p = p \<longleftrightarrow> ?f = nc_peers c \<and> ?g = peer_client_urls c"
    unfolding f using V(3,4) by (cases p) (auto simp: http_new_def)
  moreover have "?f = nc_peers c \<and> ?g = peer_client_urls c \<longleftrightarrow> (\<forall>i. nc_peers c i \<noteq> Some [] \<and> peer_client_urls c i \<noteq> Some [] \<and>
      (peer_client_urls c i \<noteq> None \<longrightarrow> nc_peers c i \<noteq> None))"
    unfolding fun_eq_iff by (auto split: if_splits) (metis not_Some_eq option.distinct(1))
  moreover have "fold_membership (fold_membership p) = fold_membership p"
    using f assms(2) V(4) by (simp add: fold_membership_def Let_def set_peers_def http_new_def)
  ultimately show ?thesis unfolding f by simp
qed

theorem first_fold_of_books_witness:
  "\<exists>p. main_start example_serde (\<lambda>_. 0 :: nat) (\<lambda>_. None) 0 (example_envs 1) empty_device = Inr p \<and>
     peers (pr_transport (fold_membership p)) = nc_peers (pr_config p) \<and>
     fold_membership (fold_membership p) = fold_membership p"
proof -
  from example_envs_accepted [of 1] obtain c where c: "from_vars (example_envs 1) = Inr c" "nc_id c = 1"
    "insert 1 (dom (nc_peers c)) = {1, 2, 3}" "\<not> nc_join c" "\<And>j. nc_peers c j \<noteq> Some []" by auto
  from first_start [OF c(1) _ c(4), of _ example_serde "\<lambda>_. 0" "\<lambda>_. None" 0] obtain p where
    p: "main_start example_serde (\<lambda>_. 0 :: nat) (\<lambda>_. None) 0 (example_envs 1) empty_device = Inr p" "pr_config p = c" by auto
  from first_fold_of_books [OF p c(4)] p c(5) show ?thesis by simp
qed

end
