(* ===== verification/Sim.thy ===== *)
theory Sim
  imports Complex_Main Cluster_Safety
begin

section \<open>The simulated network\<close>

text \<open>
  \<^verbatim>\<open>src/raft/transport/sim.rs\<close>: the fault plan of a send, what becomes of the request and of its reply, and
  the observer that inspects every AppendEntries. A \<^verbatim>\<open>Duration\<close> is a number of nanoseconds; time is exact
  (the granularity of the timers is not modelled). \<open>None\<close> is a panic.
\<close>

subsection \<open>Random decisions (\<^verbatim>\<open>src/rng.rs\<close>)\<close>

text \<open>
  The probability is the real value of the \<^verbatim>\<open>f64\<close>: the top 53 bits are a double exactly, and so is
  their quotient by \<open>2 ^ 53\<close>, so the comparison is the one of the reals.
\<close>

definition next_bool :: "real \<Rightarrow> splitmix64 \<Rightarrow> bool \<times> splitmix64" where
  "next_bool p r =
     (let (x, r') = next_u64 r;
          unit = real (unat (drop_bit 11 x)) / 2 ^ 53
      in (unit < p, r'))"

lemma next_bool_state [simp]: "snd (next_bool p r) = snd (next_u64 r)"
  by (simp add: next_bool_def Let_def split: prod.splits)

lemma next_bool_saturates:
  shows "p \<le> 0 \<Longrightarrow> \<not> fst (next_bool p r)" and "1 \<le> p \<Longrightarrow> fst (next_bool p r)"
proof -
  define n where "n = unat (drop_bit 11 (fst (next_u64 r)))"
  have "n = unat (fst (next_u64 r)) div 2 ^ 11" by (simp add: n_def drop_bit_eq_div unat_div)
  also have "\<dots> < 2 ^ 53" using unat_u64 [of "fst (next_u64 r)"] by (simp add: div_less_iff_less_mult)
  finally have "real n < 2 ^ 53" by simp
  then have "0 \<le> real n / 2 ^ 53" "real n / 2 ^ 53 < 1" by simp_all
  moreover have "fst (next_bool p r) \<longleftrightarrow> real n / 2 ^ 53 < p"
    unfolding next_bool_def n_def by (simp add: Let_def split: prod.splits)
  ultimately show "p \<le> 0 \<Longrightarrow> \<not> fst (next_bool p r)" "1 \<le> p \<Longrightarrow> fst (next_bool p r)" by simp_all
qed

subsection \<open>The state\<close>

type_synonym duration = nat

definition as_micros :: "duration \<Rightarrow> nat" where
  "as_micros d = d div 1000"

definition from_micros :: "u64 \<Rightarrow> duration" where
  "from_micros x = unat x * 1000"

definition try_u64 :: "nat \<Rightarrow> u64 option" where
  "try_u64 n = (if n < 2 ^ 64 then Some (of_nat n) else None)"

record fault_config =
  min_delay :: duration
  max_delay :: duration
  drop_probability :: real
  duplicate_probability :: real
  fc_rpc_timeout :: duration

definition default_fault_config :: fault_config where
  "default_fault_config =
     \<lparr>min_delay = 1000000, max_delay = 10000000, drop_probability = 0, duplicate_probability = 0,
      fc_rpc_timeout = 100000000\<rparr>"

datatype violation =
  ElectionSafety node_id node_id term_no
| LogMatching term_no log_index
| MalformedIndex node_id log_index log_index log_index
| MalformedTerm node_id term_no log_index term_no term_no

record 'v sim_state =
  sim_rng :: splitmix64
  sim_config :: fault_config
  inboxes :: "node_id \<rightharpoonup> chan"
  blocked :: "(node_id \<times> node_id) set"
  leaders_per_term :: "term_no \<rightharpoonup> node_id"
  entries_seen :: "term_no \<times> log_index \<rightharpoonup> 'v command"
  violations :: "violation list"

definition sim_new :: "u64 \<Rightarrow> fault_config \<Rightarrow> 'v sim_state" where
  "sim_new seed cfg =
     \<lparr>sim_rng = rng_new seed, sim_config = cfg, inboxes = Map.empty, blocked = {},
      leaders_per_term = Map.empty, entries_seen = Map.empty, violations = []\<rparr>"

definition register :: "node_id \<Rightarrow> chan \<Rightarrow> 'v sim_state \<Rightarrow> 'v sim_state" where
  "register i tx st = st\<lparr>inboxes := (inboxes st)(i \<mapsto> tx)\<rparr>"

definition set_link_blocked :: "node_id \<Rightarrow> node_id \<Rightarrow> bool \<Rightarrow> 'v sim_state \<Rightarrow> 'v sim_state" where
  "set_link_blocked src to b st =
     (if b then st\<lparr>blocked := insert (src, to) (blocked st)\<rparr>
      else st\<lparr>blocked := blocked st - {(src, to)}\<rparr>)"

definition set_pair_blocked :: "node_id \<Rightarrow> node_id \<Rightarrow> bool \<Rightarrow> 'v sim_state \<Rightarrow> 'v sim_state" where
  "set_pair_blocked a b x st = set_link_blocked b a x (set_link_blocked a b x st)"

definition set_fault_config :: "fault_config \<Rightarrow> 'v sim_state \<Rightarrow> 'v sim_state" where
  "set_fault_config cfg st = st\<lparr>sim_config := cfg\<rparr>"

subsection \<open>The observer\<close>

definition violate :: "violation \<Rightarrow> 'v sim_state \<Rightarrow> 'v sim_state" where
  "violate x st = st\<lparr>violations := violations st @ [x]\<rparr>"

definition claim_leader :: "'v append_entries_args \<Rightarrow> 'v sim_state \<Rightarrow> 'v sim_state" where
  "claim_leader args st =
     (case leaders_per_term st (ae_term args) of
        None \<Rightarrow> st\<lparr>leaders_per_term := (leaders_per_term st)(ae_term args \<mapsto> ae_leader_id args)\<rparr>
      | Some known \<Rightarrow>
          if known \<noteq> ae_leader_id args
          then violate (ElectionSafety known (ae_leader_id args) (ae_term args)) st else st)"

fun shape_loop ::
    "'v append_entries_args \<Rightarrow> log_index \<Rightarrow> term_no \<Rightarrow> 'v log_entry list \<Rightarrow> 'v sim_state \<Rightarrow> 'v sim_state" where
  "shape_loop args expected min_term [] st = st"
| "shape_loop args expected min_term (e # es) st =
     (if index e \<noteq> expected
      then violate (MalformedIndex (ae_leader_id args) (index e) expected (prev_log_index args)) st
      else if entry_term e < min_term \<or> entry_term e > ae_term args
      then violate (MalformedTerm (ae_leader_id args) (entry_term e) (index e) min_term (ae_term args)) st
      else shape_loop args (expected + 1) (entry_term e) es st)"

definition check_shape :: "'v append_entries_args \<Rightarrow> 'v sim_state \<Rightarrow> 'v sim_state" where
  "check_shape args st = shape_loop args (prev_log_index args + 1) (prev_log_term args) (entries args) st"

definition see_entry :: "'v log_entry \<Rightarrow> 'v sim_state \<Rightarrow> 'v sim_state" where
  "see_entry e st =
     (case entries_seen st (entry_term e, index e) of
        None \<Rightarrow> st\<lparr>entries_seen := (entries_seen st)((entry_term e, index e) \<mapsto> command e)\<rparr>
      | Some seen \<Rightarrow>
          if seen \<noteq> command e then violate (LogMatching (entry_term e) (index e)) st else st)"

definition inspect_append_entries :: "'v rpc_request \<Rightarrow> 'v sim_state \<Rightarrow> 'v sim_state" where
  "inspect_append_entries req st =
     (case req of
        AppendEntries args \<Rightarrow> fold see_entry (entries args) (check_shape args (claim_leader args st))
      | _ \<Rightarrow> st)"

subsection \<open>A send\<close>

definition draw_delay :: "fault_config \<Rightarrow> splitmix64 \<Rightarrow> (duration \<times> splitmix64) option" where
  "draw_delay cfg r =
     Option.bind (try_u64 (as_micros (min_delay cfg))) (\<lambda>lo.
     Option.bind (try_u64 (as_micros (max_delay cfg))) (\<lambda>hi.
     if \<not> lo \<le> hi then None
     else map_option (\<lambda>(x, r'). (from_micros x, r')) (next_range lo hi r)))"

record send_plan =
  target :: "chan option"
  req_blocked :: bool
  req_dropped :: bool
  req_delay :: duration
  resp_dropped :: bool
  resp_delay :: duration
  req_duplicated :: bool
  dup_delay :: duration
  sp_rpc_timeout :: duration

definition plan_send ::
    "node_id \<Rightarrow> node_id \<Rightarrow> 'v rpc_request \<Rightarrow> 'v sim_state \<Rightarrow> (send_plan \<times> 'v sim_state) option" where
  "plan_send src to req st0 =
     (let st = inspect_append_entries req st0;
          cfg = sim_config st;
          (drop1, r1) = next_bool (drop_probability cfg) (sim_rng st)
      in Option.bind (draw_delay cfg r1) (\<lambda>(delay1, r2).
         let (drop2, r3) = next_bool (drop_probability cfg) r2
         in Option.bind (draw_delay cfg r3) (\<lambda>(delay2, r4).
            let (dup, r5) = next_bool (duplicate_probability cfg) r4
            in Option.bind (draw_delay cfg r5) (\<lambda>(delay3, r6).
               Some (\<lparr>target = inboxes st to, req_blocked = (src, to) \<in> blocked st,
                      req_dropped = drop1, req_delay = delay1, resp_dropped = drop2, resp_delay = delay2,
                      req_duplicated = dup, dup_delay = delay3, sp_rpc_timeout = fc_rpc_timeout cfg\<rparr>,
                     st\<lparr>sim_rng := r6\<rparr>)))))"

text \<open>
  What the target does with a request handed to its inbox: the inbox is gone, the reply sender is dropped,
  or the reply is sent after some time.
\<close>

datatype handling = InboxClosed | ReplyDropped | Replied rpc_response duration

text \<open>
  The exchange: the reply and the time it is back with the sender; \<open>None\<close> is the future that stays pending.
  The argument \<open>link\<close> tells whether the link from the target to the sender is blocked at a given time.
\<close>

definition exchange :: "send_plan \<Rightarrow> handling \<Rightarrow> (duration \<Rightarrow> bool) \<Rightarrow> (rpc_response \<times> duration) option" where
  "exchange plan h link =
     (if req_blocked plan \<or> req_dropped plan then None
      else case h of
        InboxClosed \<Rightarrow> None
      | ReplyDropped \<Rightarrow> None
      | Replied resp d \<Rightarrow>
          (let back = req_delay plan + d + resp_delay plan;
               reply_blocked = link back
           in if resp_dropped plan \<or> reply_blocked then None else Some (resp, back)))"

definition sim_send ::
    "node_id \<Rightarrow> send_plan \<Rightarrow> handling \<Rightarrow> (duration \<Rightarrow> bool) \<Rightarrow> transport_error + rpc_response" where
  "sim_send to plan h link =
     (case target plan of
        None \<Rightarrow> Inl (Unreachable to)
      | Some _ \<Rightarrow>
          (case exchange plan h link of
             None \<Rightarrow> Inl Timeout
           | Some (resp, back) \<Rightarrow> if back \<le> sp_rpc_timeout plan then Inr resp else Inl Timeout))"

text \<open>
  The copies of the request that reach the inbox, with the time of each: the duplicate runs on its own
  clock, the primary copy dies with the exchange when the timeout fires first.
\<close>

definition deliveries :: "send_plan \<Rightarrow> duration list" where
  "deliveries plan =
     (case target plan of
        None \<Rightarrow> []
      | Some _ \<Rightarrow>
          (if req_duplicated plan \<and> \<not> req_blocked plan then [dup_delay plan] else []) @
          (if \<not> req_blocked plan \<and> \<not> req_dropped plan \<and> req_delay plan \<le> sp_rpc_timeout plan
           then [req_delay plan] else []))"

subsection \<open>What the observer accepts\<close>

text \<open>The claims of a message, and when a set of claims gives every key one value.\<close>

definition functional :: "('k \<times> 'a) set \<Rightarrow> bool" where
  "functional R \<longleftrightarrow> (\<forall>k x y. (k, x) \<in> R \<longrightarrow> (k, y) \<in> R \<longrightarrow> x = y)"

fun leads :: "'v rpc_request \<Rightarrow> (term_no \<times> node_id) set" where
  "leads (AppendEntries a) = {(ae_term a, ae_leader_id a)}"
| "leads _ = {}"

lemma leads_iff: "(t, c) \<in> leads r \<longleftrightarrow> (\<exists>a. r = AppendEntries a \<and> t = ae_term a \<and> c = ae_leader_id a)"
  by (cases r) auto

definition shipped :: "'v log_entry list \<Rightarrow> ((term_no \<times> log_index) \<times> 'v command) set" where
  "shipped es = (\<lambda>e. ((entry_term e, index e), command e)) ` set es"

fun ships :: "'v rpc_request \<Rightarrow> ((term_no \<times> log_index) \<times> 'v command) set" where
  "ships (AppendEntries a) = shipped (entries a)"
| "ships _ = {}"

lemma ships_iff: "(k, v) \<in> ships r \<longleftrightarrow>
    (\<exists>a. r = AppendEntries a \<and> (\<exists>e \<in> set (entries a). k = (entry_term e, index e) \<and> v = command e))"
  by (cases r) (auto simp: shipped_def)

fun well_shaped :: "'v rpc_request \<Rightarrow> bool" where
  "well_shaped (AppendEntries a) \<longleftrightarrow>
     contiguous_from (prev_log_index a + 1) (entries a) \<and>
     sorted (prev_log_term a # map entry_term (entries a)) \<and> (\<forall>e \<in> set (entries a). entry_term e \<le> ae_term a)"
| "well_shaped _ \<longleftrightarrow> True"

text \<open>The claims recorded in a map.\<close>

definition claims :: "('k \<rightharpoonup> 'a) \<Rightarrow> ('k \<times> 'a) set" where
  "claims f = {(k, v). f k = Some v}"

lemma functional_mono: "functional R \<Longrightarrow> S \<subseteq> R \<Longrightarrow> functional S"
  unfolding functional_def by blast

lemma functional_claims: "functional (claims f)"
  by (simp add: functional_def claims_def)

lemma claims_upd: "f k = None \<or> f k = Some v \<Longrightarrow> claims (f(k \<mapsto> v)) = insert (k, v) (claims f)"
  by (auto simp: claims_def split: if_splits)

lemma functional_claim:
  "functional (claims f \<union> insert (k, v) X) \<longleftrightarrow>
     (f k = None \<or> f k = Some v) \<and> functional (claims (f(k \<mapsto> v)) \<union> X)"
proof -
  have "f k = None \<or> f k = Some v" if F: "functional (claims f \<union> insert (k, v) X)"
  proof (cases "f k")
    case (Some y)
    then have "(k, y) \<in> claims f" by (simp add: claims_def)
    with F Some show ?thesis unfolding functional_def by blast
  qed simp
  then show ?thesis using claims_upd [of f k v] by (metis Un_insert_left Un_insert_right)
qed

lemma violate_not_silent [simp]: "violations (violate x st) \<noteq> []"
  by (simp add: violate_def)

lemma see_entry_cases:
  "violations (see_entry e st) = [] \<longleftrightarrow> violations st = [] \<and>
     (entries_seen st (entry_term e, index e) = None \<or> entries_seen st (entry_term e, index e) = Some (command e))"
  "entries_seen st (entry_term e, index e) = None \<or> entries_seen st (entry_term e, index e) = Some (command e) \<Longrightarrow>
     see_entry e st = st\<lparr>entries_seen := (entries_seen st)((entry_term e, index e) \<mapsto> command e)\<rparr>"
  by (auto simp: see_entry_def fun_upd_idem split: option.splits)

lemma see_entries:
  "violations (fold see_entry es st) = [] \<longleftrightarrow>
     violations st = [] \<and> functional (claims (entries_seen st) \<union> shipped es)"
  "violations (fold see_entry es st) = [] \<Longrightarrow>
     leaders_per_term (fold see_entry es st) = leaders_per_term st \<and>
     claims (entries_seen (fold see_entry es st)) = claims (entries_seen st) \<union> shipped es"
proof (induction es arbitrary: st)
  case Nil
  { case 1 show ?case by (simp add: shipped_def functional_claims) }
  { case 2 show ?case by (simp add: shipped_def) }
next
  case (Cons e es)
  let ?k = "(entry_term e, index e)"
  have s: "shipped (e # es) = insert (?k, command e) (shipped es)" by (simp add: shipped_def)
  { case 1
    show ?case
    proof (cases "entries_seen st ?k = None \<or> entries_seen st ?k = Some (command e)")
      case True
      then show ?thesis unfolding s functional_claim using Cons.IH(1) [of "see_entry e st"] see_entry_cases(2) [OF True]
        by (simp del: fun_upd_apply)
    next
      case False
      then show ?thesis unfolding s functional_claim using Cons.IH(1) [of "see_entry e st"] see_entry_cases(1) [of e st] by auto
    qed }
  { case 2
    then have ok: "violations (fold see_entry es (see_entry e st)) = []" by simp
    with Cons.IH(1) [of "see_entry e st"] see_entry_cases(1) [of e st] have k: "entries_seen st ?k = None \<or> entries_seen st ?k = Some (command e)"
      by blast
    from Cons.IH(2) [OF ok] show ?case unfolding s see_entry_cases(2) [OF k] using claims_upd [of "entries_seen st" ?k "command e"] k see_entry_cases(2) [OF k]
      by (simp del: fun_upd_apply) }
qed

lemma shape_loop_cases:
  "violations (shape_loop a i t es st) = [] \<longleftrightarrow> violations st = [] \<and>
     contiguous_from i es \<and> sorted (t # map entry_term es) \<and> (\<forall>e \<in> set es. entry_term e \<le> ae_term a)"
  "violations (shape_loop a i t es st) = [] \<Longrightarrow> shape_loop a i t es st = st"
proof (induction a i t es st rule: shape_loop.induct)
  case (2 a i t e es st)
  { case 1
    show ?case
    proof (cases "index e \<noteq> i \<or> entry_term e < t \<or> entry_term e > ae_term a")
      case True
      then show ?thesis by auto
    next
      case False
      then show ?thesis using 2(1) by (auto simp: not_less intro: order_trans)
    qed }
  { case 2
    then show ?case using "2.IH"(2) by (auto split: if_splits) }
qed simp_all

lemma claim_leader_cases:
  "violations (claim_leader a st) = [] \<longleftrightarrow> violations st = [] \<and>
     (leaders_per_term st (ae_term a) = None \<or> leaders_per_term st (ae_term a) = Some (ae_leader_id a))"
  "leaders_per_term st (ae_term a) = None \<or> leaders_per_term st (ae_term a) = Some (ae_leader_id a) \<Longrightarrow>
     claim_leader a st = st\<lparr>leaders_per_term := (leaders_per_term st)(ae_term a \<mapsto> ae_leader_id a)\<rparr>"
  by (auto simp: claim_leader_def fun_upd_idem split: option.splits)

lemma inspect_cases:
  "violations (inspect_append_entries r st) = [] \<longleftrightarrow> violations st = [] \<and> well_shaped r \<and>
     functional (claims (leaders_per_term st) \<union> leads r) \<and> functional (claims (entries_seen st) \<union> ships r)"
  "violations (inspect_append_entries r st) = [] \<Longrightarrow>
     claims (leaders_per_term (inspect_append_entries r st)) = claims (leaders_per_term st) \<union> leads r \<and>
     claims (entries_seen (inspect_append_entries r st)) = claims (entries_seen st) \<union> ships r"
proof -
  have A: "(violations (inspect_append_entries r st) = [] \<longleftrightarrow> violations st = [] \<and> well_shaped r \<and>
      functional (claims (leaders_per_term st) \<union> leads r) \<and>
      functional (claims (entries_seen st) \<union> ships r)) \<and>
    (violations (inspect_append_entries r st) = [] \<longrightarrow>
      claims (leaders_per_term (inspect_append_entries r st)) = claims (leaders_per_term st) \<union> leads r \<and>
      claims (entries_seen (inspect_append_entries r st)) = claims (entries_seen st) \<union> ships r)"
  proof (cases r)
    case (AppendEntries a)
    let ?c = "claim_leader a st" and ?l = "leaders_per_term st (ae_term a)"
    note L = claim_leader_cases [where a = a and st = st]
    note S = shape_loop_cases [of a "prev_log_index a + 1" "prev_log_term a" "entries a" ?c, folded check_shape_def]
    note E = see_entries [of "entries a" "check_shape a ?c"]
    have f: "functional (claims (leaders_per_term st) \<union> leads r) \<longleftrightarrow> ?l = None \<or> ?l = Some (ae_leader_id a)"
      using functional_claim [of "leaders_per_term st" "ae_term a" "ae_leader_id a" "{}"]
      by (simp add: AppendEntries functional_claims)
    show ?thesis
    proof (cases "violations (check_shape a ?c) = []")
      case True
      note c = S(2) [OF True]
      from S(1) True have v: "violations ?c = []" and w: "well_shaped r" by (simp_all add: AppendEntries)
      from L(1) v have l: "?l = None \<or> ?l = Some (ae_leader_id a)" and s: "violations st = []" by blast+
      have r: "inspect_append_entries r st = fold see_entry (entries a) ?c"
        by (simp add: AppendEntries inspect_append_entries_def c)
      have "leads r = {(ae_term a, ae_leader_id a)}" "ships r = shipped (entries a)" by (simp_all add: AppendEntries)
      then show ?thesis using E [unfolded c] f l s w claims_upd [of "leaders_per_term st" "ae_term a" "ae_leader_id a"]
        unfolding r L(2) [OF l] by (simp del: fun_upd_apply)
    next
      case False
      with E(1) have "violations (inspect_append_entries r st) \<noteq> []"
        by (simp add: AppendEntries inspect_append_entries_def)
      moreover have "\<not> (violations st = [] \<and> well_shaped r \<and> functional (claims (leaders_per_term st) \<union> leads r))"
        using False S(1) L(1) unfolding f by (simp add: AppendEntries) blast
      ultimately show ?thesis by blast
    qed
  qed (simp_all add: inspect_append_entries_def functional_claims)
  show "violations (inspect_append_entries r st) = [] \<longleftrightarrow> violations st = [] \<and> well_shaped r \<and>
     functional (claims (leaders_per_term st) \<union> leads r) \<and> functional (claims (entries_seen st) \<union> ships r)"
    using A by blast
  show "violations (inspect_append_entries r st) = [] \<Longrightarrow>
     claims (leaders_per_term (inspect_append_entries r st)) = claims (leaders_per_term st) \<union> leads r \<and>
     claims (entries_seen (inspect_append_entries r st)) = claims (entries_seen st) \<union> ships r"
    using A by blast
qed

lemma inspect_all:
  "violations (fold inspect_append_entries rs st) = [] \<longleftrightarrow> violations st = [] \<and> list_all well_shaped rs \<and>
     functional (claims (leaders_per_term st) \<union> \<Union> (leads ` set rs)) \<and>
     functional (claims (entries_seen st) \<union> \<Union> (ships ` set rs))"
proof (induction rs arbitrary: st)
  case (Cons r rs)
  show ?case
  proof (cases "violations (inspect_append_entries r st) = []")
    case True
    with inspect_cases [of r st] Cons.IH [of "inspect_append_entries r st"] show ?thesis
      by (simp add: Un_assoc)
  next
    case False
    have "\<not> (violations st = [] \<and> list_all well_shaped (r # rs) \<and>
      functional (claims (leaders_per_term st) \<union> \<Union> (leads ` set (r # rs))) \<and>
      functional (claims (entries_seen st) \<union> \<Union> (ships ` set (r # rs))))"
      using False inspect_cases(1) [of r st] functional_mono [of "claims (leaders_per_term st) \<union> \<Union> (leads ` set (r # rs))"
          "claims (leaders_per_term st) \<union> leads r"]
        functional_mono [of "claims (entries_seen st) \<union> \<Union> (ships ` set (r # rs))" "claims (entries_seen st) \<union> ships r"]
      by auto
    with Cons.IH [of "inspect_append_entries r st"] False show ?thesis by auto
  qed
qed (simp add: functional_claims)

subsection \<open>What the nodes put on the wire\<close>

lemma wire_request:
  assumes "related M sm C w" and "(c, j, AppendEntries a, x) \<in> wire C"
  shows "ae_leader_id a = c" and "contiguous_from (prev_log_index a + 1) (entries a)"
    and "MLead (ae_term a) c \<in> ms w"
    and "MAppend (ae_term a) (prev_log_index a) (prev_log_term a) (entries a) (leader_commit a) \<in> ms w"
proof -
  have "req_ok sm (net w) c (AppendEntries a) x" using assms unfolding related_def by blast
  then show "ae_leader_id a = c" "contiguous_from (prev_log_index a + 1) (entries a)" "MLead (ae_term a) c \<in> ms w"
    "MAppend (ae_term a) (prev_log_index a) (prev_log_term a) (entries a) (leader_commit a) \<in> ms w"
    by (cases x; simp)+
qed

lemma batch_shape:
  assumes L: "inv_logs w" and A: "inv_appends w" and m: "MAppend t p pt es c \<in> ms w"
  shows "sorted (pt # map entry_term es)" and "e \<in> set es \<Longrightarrow> entry_term e \<le> t"
proof -
  from inv_appendsD(1) [OF A m] obtain d l where l: "ld w t = Some (d, l)" "p + length es \<le> length l"
    "es = take (length es) (drop p l)" "pt = lterm l p" by auto
  note s = inv_logsD(7) [OF L l(1)]
  have "map entry_term es = take (length es) (drop p (map entry_term l))"
    using l(3) by (metis take_map drop_map)
  then have "sorted (map entry_term es)" using s by (metis sorted_wrt_take sorted_wrt_drop)
  moreover have "pt \<le> entry_term e" if e: "e \<in> set es" for e
  proof (cases p)
    case (Suc q)
    from e obtain k where k: "k < length es" "e = es ! k" by (auto simp: in_set_conv_nth)
    with l(3) have "e = l ! (p + k)" using l(2) by (metis nth_take nth_drop add_leD1)
    with sorted_nth_mono [OF s, of q "p + k"] Suc l(2,4) k(1) show ?thesis by (simp add: lterm_def)
  qed (simp add: l(4) lterm_def)
  ultimately show "sorted (pt # map entry_term es)" by simp
  show "entry_term e \<le> t" if "e \<in> set es"
    using inv_logsD(8) [OF L l(1), of e] that l(3) by (metis in_set_takeD in_set_dropD)
qed

lemma batch_entry:
  assumes A: "inv_appends w" and m: "MAppend t p pt es c \<in> ms w" and g: "contiguous_from (p + 1) es"
    and e: "e \<in> set es"
  obtains d l where "ld w t = Some (d, l)" and "index e \<le> length l" and "0 < index e" and "e = l ! (index e - 1)"
proof -
  from inv_appendsD(1) [OF A m] obtain d l where l: "ld w t = Some (d, l)" "p + length es \<le> length l"
    "es = take (length es) (drop p l)" by auto
  from e obtain k where k: "k < length es" "e = es ! k" by (auto simp: in_set_conv_nth)
  from contiguous_from_nth [OF g k(1)] k(2) have i: "index e = p + 1 + k" by simp
  from k l have "e = l ! (p + k)" by (metis nth_take nth_drop add_leD1)
  with that [OF l(1)] i l(2) k(1) show thesis by simp
qed

lemma batches_agree:
  assumes L: "inv_logs w" and A: "inv_appends w"
    and m: "MAppend t p pt es c \<in> ms w" "contiguous_from (p + 1) es" "e \<in> set es"
    and m': "MAppend t' p' pt' es' c' \<in> ms w" "contiguous_from (p' + 1) es'" "e' \<in> set es'"
    and eq: "entry_term e = entry_term e'" "index e = index e'"
  shows "e = e'"
proof -
  from batch_entry [OF A m] obtain d l where l: "ld w t = Some (d, l)" "index e \<le> length l" "0 < index e"
    "e = l ! (index e - 1)" by blast
  from batch_entry [OF A m'] obtain d' l' where l': "ld w t' = Some (d', l')" "index e' \<le> length l'"
    "e' = l' ! (index e' - 1)" by blast
  from log_matching_take [OF inv_logsD(6) [OF L l(1)] inv_logsD(6) [OF L l'(1)], of "index e - 1"] l l' eq
  have "take (index e) l = take (index e) l'" by simp
  with l l' eq show ?thesis by (metis nth_take diff_less zero_less_one)
qed

lemma one_leader:
  assumes "related M sm C w" and "M \<noteq> {}" and "MLead t c \<in> ms w" and "MLead t c' \<in> ms w"
  shows "c = c'"
proof -
  from assms(2) obtain i where i: "i \<in> M" by blast
  note q = relatedD(1) [OF assms(1) i]
  have s: "(wstep (is_majority M))\<^sup>*\<^sup>* winit w" using assms(1) by (simp add: related_def)
  have "\<exists>l. ld w t = Some (d, l)" if "MLead t d \<in> ms w" for d
    using raft_quorums.lead_led [OF q s raft_quorums.inv_init [OF q] that] by (auto simp: winit_def)
  from this [OF assms(3)] this [OF assms(4)] show ?thesis by auto
qed

subsection \<open>The theorems\<close>

text \<open>
  C14. The simulator's safety observer is silent on this implementation: whatever requests of a reachable
  cluster pass through the simulated network, in whatever order and however often, no election safety, log
  matching or malformed-batch violation is recorded.
\<close>

theorem observer_stays_silent:
  assumes "reachable M sm C" and "M \<noteq> {}" and "\<forall>r \<in> set rs. \<exists>c j x. (c, j, r, x) \<in> wire C"
  shows "violations (fold inspect_append_entries rs (sim_new seed cfg)) = []"
proof -
  from reachable_related [OF assms(1)] obtain w where R: "related M sm C w" by blast
  from assms(2) obtain i where "i \<in> M" by blast
  then have L: "inv_logs w" and A: "inv_appends w" using R by (simp_all add: related_def inv_def)
  have req: "\<exists>c j x. (c, j, AppendEntries a, x) \<in> wire C" if "AppendEntries a \<in> set rs" for a
    using that assms(3) by blast
  note W = wire_request [OF R]
  have "well_shaped r" if "r \<in> set rs" for r
  proof (cases r)
    case (AppendEntries a)
    from req [of a] that AppendEntries obtain c j x where x: "(c, j, AppendEntries a, x) \<in> wire C" by blast
    from W(2) [OF x] batch_shape [OF L A W(4) [OF x]] show ?thesis by (simp add: AppendEntries)
  qed simp_all
  moreover have "functional (\<Union> (leads ` set rs))"
    unfolding functional_def
    by (simp add: leads_iff) (metis req W(1,3) one_leader [OF R assms(2)])
  moreover have "functional (\<Union> (ships ` set rs))"
  proof -
    have "command e = command e'"
      if "AppendEntries a \<in> set rs" "e \<in> set (entries a)" "AppendEntries a' \<in> set rs" "e' \<in> set (entries a')"
        and k: "entry_term e = entry_term e'" "index e = index e'" for a e a' e'
    proof -
      from req that obtain c j x c' j' x' where
        x: "(c, j, AppendEntries a, x) \<in> wire C" "(c', j', AppendEntries a', x') \<in> wire C" by meson
      from batches_agree [OF L A W(4,2) [OF x(1)] that(2) W(4,2) [OF x(2)] that(4) k] show ?thesis by simp
    qed
    then show ?thesis unfolding functional_def by (auto simp: ships_iff)
  qed
  ultimately show ?thesis
    by (simp add: inspect_all sim_new_def claims_def list_all_iff)
qed

lemma wire4: "(1, 2, append_req 0 0 two_entries 0, AppendCtx 1 0 2 0) \<in> wire cluster4"
    "(1, 2, append_req 2 1 [] 2, AppendCtx 1 2 0 0) \<in> wire cluster4"
  using run_a by (simp_all add: cluster4_def cluster3_def after_def mailed_def posted_def del: One_nat_def)

theorem observer_stays_silent_witness:
  "violations (fold inspect_append_entries
     [append_req 2 1 [] 2, append_req 0 0 two_entries 0, append_req 2 1 [] 2] (sim_new 7 default_fault_config)) = []"
  by (rule observer_stays_silent [OF reachable4]) (use wire4 in auto)

text \<open>
  C30. The observer is exact: it stays silent on a sequence of requests if and only if every batch among them is
  well shaped, every term is claimed by one leader, and every pair of a term and an index ships one command.
\<close>

theorem observer_is_exact:
  "violations (fold inspect_append_entries rs (sim_new seed cfg)) = [] \<longleftrightarrow>
     (\<forall>r \<in> set rs. well_shaped r) \<and> functional (\<Union> (leads ` set rs)) \<and> functional (\<Union> (ships ` set rs))"
  by (simp add: inspect_all sim_new_def claims_def list_all_iff)

theorem observer_is_exact_witness:
  "violations (fold inspect_append_entries [append_req 0 0 two_entries 0,
     AppendEntries \<lparr>ae_term = 1, ae_leader_id = 2, prev_log_index = 0, prev_log_term = 0, entries = [],
       leader_commit = 0\<rparr>] (sim_new 7 default_fault_config)) \<noteq> []"
  unfolding observer_is_exact by (auto simp: append_req_def functional_def)

subsection \<open>Sends\<close>

lemma draw_delay_bounds:
  assumes "draw_delay cfg r = Some (d, r')"
  shows "as_micros (min_delay cfg) \<le> as_micros d \<and> as_micros d \<le> as_micros (max_delay cfg) \<and>
    r' = snd (next_u64 r)"
proof -
  let ?lo = "as_micros (min_delay cfg)" and ?hi = "as_micros (max_delay cfg)"
  from assms obtain x where x: "next_range (of_nat ?lo) (of_nat ?hi) r = Some (x, r')" "d = from_micros x"
    and b: "?lo < 2 ^ 64" "?hi < 2 ^ 64"
    by (auto simp: draw_delay_def try_u64_def bind_eq_Some_conv split: if_splits)
  from next_range_in_bounds [OF x(1)] have "unat (of_nat ?lo :: u64) \<le> unat x" "unat x \<le> unat (of_nat ?hi :: u64)"
    by (simp_all add: word_le_nat_alt)
  moreover have "unat (of_nat ?lo :: u64) = ?lo" "unat (of_nat ?hi :: u64) = ?hi"
    using b by (simp_all add: unsigned_of_nat take_bit_nat_eq_self)
  moreover have "as_micros d = unat x" by (simp add: x(2) as_micros_def from_micros_def)
  ultimately show ?thesis using next_range_state [OF x(1)] by simp
qed

lemma see_entry_keeps:
  "sim_rng (see_entry e st) = sim_rng st" "sim_config (see_entry e st) = sim_config st"
  "inboxes (see_entry e st) = inboxes st" "blocked (see_entry e st) = blocked st"
  by (simp_all add: see_entry_def violate_def split: option.splits)

lemma see_entries_keep:
  "sim_rng (fold see_entry es st) = sim_rng st" "sim_config (fold see_entry es st) = sim_config st"
  "inboxes (fold see_entry es st) = inboxes st" "blocked (fold see_entry es st) = blocked st"
  by (induction es arbitrary: st) (simp_all add: see_entry_keeps)

lemma shape_loop_keeps:
  "sim_rng (shape_loop a i t es st) = sim_rng st" "sim_config (shape_loop a i t es st) = sim_config st"
  "inboxes (shape_loop a i t es st) = inboxes st" "blocked (shape_loop a i t es st) = blocked st"
  by (induction a i t es st rule: shape_loop.induct) (simp_all add: violate_def)

lemma claim_leader_keeps:
  "sim_rng (claim_leader a st) = sim_rng st" "sim_config (claim_leader a st) = sim_config st"
  "inboxes (claim_leader a st) = inboxes st" "blocked (claim_leader a st) = blocked st"
  by (simp_all add: claim_leader_def violate_def split: option.splits)

lemma inspect_keeps [simp]:
  "sim_rng (inspect_append_entries r st) = sim_rng st" "sim_config (inspect_append_entries r st) = sim_config st"
  "inboxes (inspect_append_entries r st) = inboxes st" "blocked (inspect_append_entries r st) = blocked st"
  by (simp_all add: inspect_append_entries_def see_entries_keep check_shape_def shape_loop_keeps claim_leader_keeps
      split: rpc_request.splits)

text \<open>
  C31. The determinism contract of the simulator: a send consumes exactly six draws of the generator, whatever
  the request, the links and the probabilities are, and the three delays drawn lie in the configured range
  (in whole microseconds); nothing else but the observer's books changes.
\<close>

theorem send_plan_contract:
  assumes "plan_send src to req st = Some (plan, st')"
  shows "rng_state (sim_rng st') = rng_state (sim_rng st) + 6 * 0x9E3779B97F4A7C15 \<and>
    (\<forall>d \<in> {req_delay plan, resp_delay plan, dup_delay plan}.
      as_micros (min_delay (sim_config st)) \<le> as_micros d \<and> as_micros d \<le> as_micros (max_delay (sim_config st))) \<and>
    st' = (inspect_append_entries req st)\<lparr>sim_rng := sim_rng st'\<rparr>"
proof -
  let ?g = "\<lambda>r. snd (next_u64 r)"
  obtain b1 r1 where 1: "next_bool (drop_probability (sim_config st)) (sim_rng st) = (b1, r1)" by fastforce
  with assms obtain d2 r2 where 2: "draw_delay (sim_config st) r1 = Some (d2, r2)"
    by (auto simp: plan_send_def Let_def bind_eq_Some_conv)
  obtain b3 r3 where 3: "next_bool (drop_probability (sim_config st)) r2 = (b3, r3)" by fastforce
  with assms 1 2 obtain d4 r4 where 4: "draw_delay (sim_config st) r3 = Some (d4, r4)"
    by (auto simp: plan_send_def Let_def bind_eq_Some_conv)
  obtain b5 r5 where 5: "next_bool (duplicate_probability (sim_config st)) r4 = (b5, r5)" by fastforce
  with assms 1 2 3 4 obtain d6 r6 where 6: "draw_delay (sim_config st) r5 = Some (d6, r6)"
    by (auto simp: plan_send_def Let_def bind_eq_Some_conv)
  have r: "r1 = ?g (sim_rng st)" "r3 = ?g r2" "r5 = ?g r4"
    using next_bool_state [of "drop_probability (sim_config st)"] next_bool_state [of "duplicate_probability (sim_config st)"]
      1 3 5 by (metis snd_conv)+
  note D = draw_delay_bounds [OF 2] draw_delay_bounds [OF 4] draw_delay_bounds [OF 6]
  from assms 1 2 3 4 5 6 have p: "req_delay plan = d2" "resp_delay plan = d4" "dup_delay plan = d6"
    "st' = (inspect_append_entries req st)\<lparr>sim_rng := r6\<rparr>"
    by (auto simp: plan_send_def Let_def)
  from D r have "rng_state r6 = rng_state (sim_rng st) + 6 * 0x9E3779B97F4A7C15" by (simp add: next_u64_state)
  with D p show ?thesis by simp
qed

lemma plan_send_total:
  assumes "\<And>r. \<exists>d. draw_delay (sim_config st) r = Some d"
  shows "\<exists>plan st'. plan_send src to req st = Some (plan, st')"
proof -
  from assms obtain f where "\<And>r. draw_delay (sim_config st) r = Some (f r)" by metis
  then show ?thesis by (simp add: plan_send_def split_beta Let_def)
qed

lemma default_draws: "\<exists>d. draw_delay default_fault_config r = Some d"
  using next_range_total [of 1000 10000 r]
  by (auto simp: draw_delay_def default_fault_config_def as_micros_def try_u64_def)

theorem send_plan_contract_witness:
  "\<exists>plan st'. plan_send 1 2 (append_req 0 0 two_entries 0) (register 2 5 (sim_new 7 default_fault_config)) =
      Some (plan, st') \<and> rng_state (sim_rng st') = 7 + 6 * 0x9E3779B97F4A7C15 \<and> 1000 \<le> as_micros (req_delay plan)"
proof -
  let ?st = "register 2 5 (sim_new 7 default_fault_config) :: nat sim_state"
  have "sim_config ?st = default_fault_config" by (simp add: register_def sim_new_def)
  with plan_send_total [of ?st] default_draws obtain plan st where
    p: "plan_send 1 2 (append_req 0 0 two_entries 0) ?st = Some (plan, st)"
    by metis
  from send_plan_contract [OF p] p show ?thesis
    by (auto simp: register_def sim_new_def rng_new_def default_fault_config_def as_micros_def)
qed

lemma sim_send_Inr:
  "sim_send to plan h link = Inr resp \<longleftrightarrow>
     target plan \<noteq> None \<and> \<not> req_blocked plan \<and> \<not> req_dropped plan \<and> \<not> resp_dropped plan \<and>
     (\<exists>d. h = Replied resp d \<and> \<not> link (req_delay plan + d + resp_delay plan) \<and>
        req_delay plan + d + resp_delay plan \<le> sp_rpc_timeout plan)"
  by (cases "target plan"; cases h) (auto simp: sim_send_def exchange_def Let_def split: if_splits)

text \<open>
  C32. What a send may do: a reply is returned only for a request whose primary copy was delivered, and only
  within the timeout; at most two copies are delivered, none of them through a blocked link.
\<close>

theorem send_outcome_sound:
  "(sim_send to plan h link = Inr resp \<longrightarrow> req_delay plan \<in> set (deliveries plan) \<and>
      (\<exists>d. h = Replied resp d \<and> req_delay plan + d + resp_delay plan \<le> sp_rpc_timeout plan)) \<and>
   length (deliveries plan) \<le> 2 \<and> (req_blocked plan \<longrightarrow> deliveries plan = [])"
  unfolding sim_send_Inr by (auto simp: deliveries_def split: option.splits)

definition fair_plan :: send_plan where
  "fair_plan = \<lparr>target = Some 5, req_blocked = False, req_dropped = False, req_delay = 2, resp_dropped = False,
     resp_delay = 3, req_duplicated = True, dup_delay = 9, sp_rpc_timeout = 100\<rparr>"

theorem send_outcome_sound_witness:
  "\<exists>resp. sim_send 2 fair_plan (Replied resp 4) (\<lambda>_. False) = Inr resp \<and> deliveries fair_plan = [9, 2] \<and>
    req_delay fair_plan \<in> set (deliveries fair_plan)"
  using send_outcome_sound [of 2 fair_plan "Replied (PreVoteR \<lparr>rvr_term = 0, vote_granted = True\<rparr>) 4" "\<lambda>_. False"]
  by (simp add: sim_send_Inr fair_plan_def deliveries_def)

text \<open>
  C40. The reply leg samples the link when the reply arrives, not when the handler answers: a block that
  lands while the reply is in flight destroys it, although the link was open when the handler answered.
\<close>

theorem block_destroys_reply_in_flight:
  assumes "target plan = Some tx" and "\<not> req_blocked plan" and "\<not> req_dropped plan" and "0 < resp_delay plan"
    and "answered = req_delay plan + d" and "\<forall>t. link t \<longleftrightarrow> answered < t"
  shows "\<not> link answered \<and> sim_send to plan (Replied resp d) link = Inl Timeout"
  using assms by (simp add: sim_send_def exchange_def Let_def)

theorem block_destroys_reply_in_flight_witness:
  "\<exists>resp. sim_send 2 fair_plan (Replied resp 4) (\<lambda>t. 6 < t) = Inl Timeout \<and>
     sim_send 2 fair_plan (Replied resp 4) (\<lambda>t. False) = Inr resp"
  using block_destroys_reply_in_flight [of fair_plan 5 6 4 "\<lambda>t. 6 < t" 2]
  by (simp add: fair_plan_def sim_send_Inr)

end
