(* ===== verification/Kv.thy ===== *)
theory Kv
  imports Node_Handlers Store
begin

section \<open>The KV service\<close>

text \<open>
  \<^verbatim>\<open>src/kv.rs\<close> and the client side of \<^verbatim>\<open>RaftHandle\<close>: client operations mapped onto the Raft core. What a client
  waits for is a one-shot channel; its outcome within the timeout is a \<open>wait\<close>: the time elapsed, the sender was
  dropped, or a value arrived. \<open>oneshot\<close> reads the outcome off the effects of the node, which
  are in the order it produced them.
\<close>

datatype 'a wait = Elapsed | Dropped | Got 'a

datatype write_error =
  WNotLeader "node_id option" | WTimeout | WSuperseded | WInvalidConfig config_rejection | WShutdown

datatype read_error = RNotLeader "node_id option" | RTimeout | RRetry | RShutdown

text \<open>\<^verbatim>\<open>RaftHandle::propose\<close> and \<^verbatim>\<open>read\<close>: \<open>sent\<close> is whether the control channel took the request, \<open>reply\<close> the outcome of the
  reply channel, which has no timeout.\<close>

definition call :: "bool \<Rightarrow> (propose_error + 'a) option \<Rightarrow> propose_error + 'a" where
  "call sent reply =
     (if \<not> sent then Inl ProposeShutdown
      else case reply of None \<Rightarrow> Inl ProposeShutdown | Some r \<Rightarrow> r)"

definition kv_write :: "(propose_error + proposal) \<Rightarrow> (chan \<Rightarrow> bool wait) \<Rightarrow> write_error + unit" where
  "kv_write proposed await =
     (case proposed of
        Inl (NotLeader h) \<Rightarrow> Inl (WNotLeader h)
      | Inl (InvalidConfigChange r) \<Rightarrow> Inl (WInvalidConfig r)
      | Inl ProposeShutdown \<Rightarrow> Inl WShutdown
      | Inr p \<Rightarrow>
          (case await (proposal_committed p) of
             Elapsed \<Rightarrow> Inl WTimeout
           | Dropped \<Rightarrow> Inl WShutdown
           | Got b \<Rightarrow> if b then Inr () else Inl WSuperseded))"

text \<open>\<open>st\<close> is the local store at the moment the read is granted.\<close>

definition get_linearizable ::
    "(propose_error + chan) \<Rightarrow> (chan \<Rightarrow> unit wait) \<Rightarrow> 'v kv_store \<Rightarrow> string \<Rightarrow> read_error + 'v option" where
  "get_linearizable ticket await st key =
     (case ticket of
        Inl (NotLeader h) \<Rightarrow> Inl (RNotLeader h)
      | Inl (InvalidConfigChange _) \<Rightarrow> Inl RRetry
      | Inl ProposeShutdown \<Rightarrow> Inl RShutdown
      | Inr g \<Rightarrow>
          (case await g of
             Elapsed \<Rightarrow> Inl RTimeout
           | Dropped \<Rightarrow> Inl RRetry
           | Got _ \<Rightarrow> Inr (kv_get st key)))"

text \<open>The outcomes, read off the effects of the node.\<close>

fun propose_reply :: "chan \<Rightarrow> 'v effect list \<Rightarrow> (propose_error + proposal) option" where
  "propose_reply ch [] = None"
| "propose_reply ch (ReplyPropose c r # fx) = (if c = ch then Some r else propose_reply ch fx)"
| "propose_reply ch (_ # fx) = propose_reply ch fx"

fun read_reply :: "chan \<Rightarrow> 'v effect list \<Rightarrow> (propose_error + chan) option" where
  "read_reply ch [] = None"
| "read_reply ch (ReplyRead c r # fx) = (if c = ch then Some r else read_reply ch fx)"
| "read_reply ch (_ # fx) = read_reply ch fx"

fun oneshot :: "'v effect list \<Rightarrow> chan \<Rightarrow> bool wait" where
  "oneshot [] ch = Elapsed"
| "oneshot (Committed p b # fx) ch = (if pp_committed p = ch then Got b else oneshot fx ch)"
| "oneshot (Closed c # fx) ch = (if c = ch then Dropped else oneshot fx ch)"
| "oneshot (_ # fx) ch = oneshot fx ch"

fun oneshot_read :: "'v effect list \<Rightarrow> chan \<Rightarrow> unit wait" where
  "oneshot_read [] ch = Elapsed"
| "oneshot_read (Granted c # fx) ch = (if c = ch then Got () else oneshot_read fx ch)"
| "oneshot_read (Closed c # fx) ch = (if c = ch then Dropped else oneshot_read fx ch)"
| "oneshot_read (_ # fx) ch = oneshot_read fx ch"

lemma propose_reply_in: "propose_reply ch fx = Some r \<Longrightarrow> ReplyPropose ch r \<in> set fx"
  by (induction ch fx rule: propose_reply.induct) (auto split: if_splits)

lemma oneshot_in: "oneshot fx ch = Got b \<Longrightarrow> \<exists>p. pp_committed p = ch \<and> Committed p b \<in> set fx"
  by (induction fx ch rule: oneshot.induct) (auto split: if_splits)

lemma kv_write_ok: "kv_write p await = Inr () \<longleftrightarrow> (\<exists>q. p = Inr q \<and> await (proposal_committed q) = Got True)"
  by (auto simp: kv_write_def split: sum.splits propose_error.splits wait.splits)

end
