(* ===== verification/Api.thy ===== *)
theory Api
  imports Kv Text "HOL-Library.Code_Target_Nat"
begin

section \<open>The client API\<close>

text \<open>
  \<^verbatim>\<open>src/api.rs\<close>: the handlers behind the routes, as functions from the request to the response. The operations of
  the KV service are arguments of the handlers: \<open>write\<close> is \<^verbatim>\<open>KvNode::write\<close>, \<open>read\<close> is \<^verbatim>\<open>get_linearizable\<close>. Parsing a JSON
  body (\<^verbatim>\<open>serde_json::from_slice\<close>) is a parameter. A response has a status, a \<^verbatim>\<open>Location\<close> header and a body.
  The routing table and the extractors belong to axum.
\<close>

datatype 'v body =
  Empty | Text string | Json 'v | Members membership | StatusJson status | Rejected config_rejection

record 'v response =
  code :: nat
  location :: "string option"
  rbody :: "'v body"

definition respond :: "nat \<Rightarrow> 'v body \<Rightarrow> 'v response" where
  "respond c b = \<lparr>code = c, location = None, rbody = b\<rparr>"

text \<open>A line of text; the message of a rejected configuration change is kept as the reason.\<close>

definition line :: "string \<Rightarrow> string" where
  "line s = s @ [CHR 0x0A]"

text \<open>\<^verbatim>\<open>HeaderValue::to_str\<close>: visible ASCII only.\<close>

definition to_str :: "string \<Rightarrow> string option" where
  "to_str s =
     (if list_all (\<lambda>c. (32 \<le> (of_char c :: nat) \<and> (of_char c :: nat) < 127) \<or> (of_char c :: nat) = 9) s
      then Some s else None)"

datatype token_error = Unparseable | OnlyOne

definition session_from_headers :: "(string \<rightharpoonup> string) \<Rightarrow> token_error + session option" where
  "session_from_headers headers =
     (let parse = (\<lambda>name. map_option (\<lambda>v. Option.bind (to_str v) parse_u64) (headers name))
      in case (parse ''x-client-id'', parse ''x-client-seq'') of
           (None, None) \<Rightarrow> Inr None
         | (Some (Some c), Some (Some q)) \<Rightarrow> Inr (Some \<lparr>client = of_nat c, seq = of_nat q\<rparr>)
         | (Some None, _) \<Rightarrow> Inl Unparseable
         | (_, Some None) \<Rightarrow> Inl Unparseable
         | _ \<Rightarrow> Inl OnlyOne)"

definition redirect_to_leader :: "(node_id \<rightharpoonup> string) \<Rightarrow> string \<Rightarrow> node_id option \<Rightarrow> 'v response option" where
  "redirect_to_leader urls path hint =
     Option.bind hint (\<lambda>l. Option.bind (urls l) (\<lambda>base.
       Some \<lparr>code = 307, location = Some (base @ ''/'' @ path), rbody = Empty\<rparr>))"

definition write_error_response :: "(node_id \<rightharpoonup> string) \<Rightarrow> string \<Rightarrow> write_error \<Rightarrow> 'v response" where
  "write_error_response urls path e =
     (case e of
        WNotLeader h \<Rightarrow>
          (case redirect_to_leader urls path h of
             Some r \<Rightarrow> r | None \<Rightarrow> respond 503 (Text (line ''no leader known; retry shortly'')))
      | WTimeout \<Rightarrow>
          respond 504 (Text (line ''write not confirmed: this node cannot reach a majority; the write may or may not commit later''))
      | WSuperseded \<Rightarrow>
          respond 503 (Text (line ''leadership changed before the write committed; safe to retry''))
      | WInvalidConfig r \<Rightarrow> respond 409 (Rejected r)
      | WShutdown \<Rightarrow> respond 503 (Text (line ''node shutting down'')))"

definition read_error_response :: "(node_id \<rightharpoonup> string) \<Rightarrow> string \<Rightarrow> read_error \<Rightarrow> 'v response" where
  "read_error_response urls key e =
     (case e of
        RNotLeader h \<Rightarrow>
          (case redirect_to_leader urls key h of
             Some r \<Rightarrow> r | None \<Rightarrow> respond 503 (Text (line ''no leader known; retry shortly'')))
      | RTimeout \<Rightarrow>
          respond 504 (Text (line ''read not confirmed: this node cannot reach a majority; retry (or use ?stale=true for a possibly-stale local read)''))
      | RRetry \<Rightarrow> respond 503 (Text (line ''leadership changed during the read; safe to retry''))
      | RShutdown \<Rightarrow> respond 503 (Text (line ''node shutting down'')))"

definition get_key ::
    "(node_id \<rightharpoonup> string) \<Rightarrow> 'v kv_store \<Rightarrow> (string \<Rightarrow> read_error + 'v option) \<Rightarrow> string \<Rightarrow> bool \<Rightarrow> 'v response" where
  "get_key urls local read key stale =
     (if stale then
        (case kv_get local key of Some v \<Rightarrow> respond 200 (Json v) | None \<Rightarrow> respond 404 Empty)
      else
        (case read key of
           Inr (Some v) \<Rightarrow> respond 200 (Json v)
         | Inr None \<Rightarrow> respond 404 Empty
         | Inl e \<Rightarrow> read_error_response urls key e))"

definition get_status :: "status \<Rightarrow> 'v response" where
  "get_status s = respond 200 (StatusJson s)"

definition token_message :: "token_error \<Rightarrow> string" where
  "token_message e =
     (case e of
        Unparseable \<Rightarrow> ''X-Client-Id and X-Client-Seq must be unsigned integers''
      | OnlyOne \<Rightarrow> ''X-Client-Id and X-Client-Seq must be provided together'')"

definition put_key ::
    "(string \<Rightarrow> 'v option) \<Rightarrow> (node_id \<rightharpoonup> string) \<Rightarrow> ('v command \<Rightarrow> write_error + unit) \<Rightarrow>
       string \<Rightarrow> (string \<rightharpoonup> string) \<Rightarrow> string \<Rightarrow> 'v response" where
  "put_key from_slice urls write key headers bdy =
     (case session_from_headers headers of
        Inl e \<Rightarrow> respond 400 (Text (line (token_message e)))
      | Inr tok \<Rightarrow>
          (case from_slice bdy of
             None \<Rightarrow> respond 400 (Text (line ''body must be valid JSON''))
           | Some v \<Rightarrow>
               (case write (Put key v tok) of
                  Inr _ \<Rightarrow> respond 201 Empty
                | Inl e \<Rightarrow> write_error_response urls key e)))"

definition delete_key ::
    "(node_id \<rightharpoonup> string) \<Rightarrow> ('v command \<Rightarrow> write_error + unit) \<Rightarrow> string \<Rightarrow> (string \<rightharpoonup> string) \<Rightarrow> 'v response" where
  "delete_key urls write key headers =
     (case session_from_headers headers of
        Inl e \<Rightarrow> respond 400 (Text (line (token_message e)))
      | Inr tok \<Rightarrow>
          (case write (Delete key tok) of
             Inr _ \<Rightarrow> respond 204 Empty
           | Inl e \<Rightarrow> write_error_response urls key e))"

subsection \<open>Cluster administration\<close>

definition list_members :: "membership \<Rightarrow> 'v response" where
  "list_members m = respond 200 (Members m)"

definition put_member ::
    "(string \<Rightarrow> member_addr option) \<Rightarrow> (node_id \<rightharpoonup> string) \<Rightarrow> membership \<Rightarrow>
       ('v command \<Rightarrow> write_error + unit) \<Rightarrow> node_id \<Rightarrow> string \<Rightarrow> 'v response" where
  "put_member from_slice urls membs write i bdy =
     (case from_slice bdy of
        None \<Rightarrow> respond 400 (Text (line ''body must be {\"raft\": \"host:port\", \"client\": \"http://host:port\"}''))
      | Some a \<Rightarrow>
          if bt_contains membs i
          then respond 409 (Text (line ''already a member (address changes are not supported)''))
          else
            (case write (ConfigChange (fmupd i a membs)) of
               Inr _ \<Rightarrow> respond 201 Empty
             | Inl e \<Rightarrow> write_error_response urls (''cluster/members/'' @ show_nat i) e))"

definition delete_member ::
    "(node_id \<rightharpoonup> string) \<Rightarrow> membership \<Rightarrow> ('v command \<Rightarrow> write_error + unit) \<Rightarrow> node_id \<Rightarrow> 'v response" where
  "delete_member urls membs write i =
     (if \<not> bt_contains membs i then respond 404 Empty
      else
        (case write (ConfigChange (fmdrop i membs)) of
           Inr _ \<Rightarrow> respond 204 Empty
         | Inl e \<Rightarrow> write_error_response urls (''cluster/members/'' @ show_nat i) e))"

subsection \<open>Properties\<close>

lemma error_codes [simp]:
  "code (respond c b) = c"
  "code (write_error_response urls path e :: 'v response) \<in> {307, 409, 503, 504}"
  "code (read_error_response urls path r :: 'v response) \<in> {307, 503, 504}"
  by (auto simp: respond_def write_error_response_def read_error_response_def redirect_to_leader_def
      split: write_error.splits read_error.splits option.splits bind_splits)

lemma success_codes [simp]:
  "code (write_error_response urls path e :: 'v response) \<noteq> 200"
  "code (write_error_response urls path e :: 'v response) \<noteq> 201"
  "code (write_error_response urls path e :: 'v response) \<noteq> 204"
  "code (write_error_response urls path e :: 'v response) \<noteq> 404"
  "code (write_error_response urls path e :: 'v response) \<noteq> 400"
  using error_codes(2) [of urls path e, where 'v = 'v] by auto

text \<open>
  C22. Success means committed: a write request is answered 201 (or 204 for a delete) exactly when its headers and body are
  valid and the Raft core accepted the very command the request describes and reported it committed on the
  channel it handed out. No other path of the handlers answers a write with success.
\<close>

theorem write_success_means_committed:
  shows "(code (put_key from_slice urls (\<lambda>cmd. kv_write (call sent (propose_reply ch (fx cmd))) (oneshot (fx cmd)))
      key headers bdy) = 201 \<longleftrightarrow>
    (\<exists>tok v p. session_from_headers headers = Inr tok \<and> from_slice bdy = Some v \<and> sent \<and>
      propose_reply ch (fx (Put key v tok)) = Some (Inr p) \<and>
      oneshot (fx (Put key v tok)) (proposal_committed p) = Got True)) \<and>
   (code (delete_key urls (\<lambda>cmd. kv_write (call sent (propose_reply ch (fx cmd))) (oneshot (fx cmd)))
      key headers) = 204 \<longleftrightarrow>
    (\<exists>tok p. session_from_headers headers = Inr tok \<and> sent \<and>
      propose_reply ch (fx (Delete key tok)) = Some (Inr p) \<and>
      oneshot (fx (Delete key tok)) (proposal_committed p) = Got True))"
proof -
  have w: "kv_write (call sent (propose_reply ch f)) (oneshot f) = Inr () \<longleftrightarrow>
      sent \<and> (\<exists>p. propose_reply ch f = Some (Inr p) \<and> oneshot f (proposal_committed p) = Got True)" for f
    by (auto simp: kv_write_ok call_def split: option.splits)
  have P: "code (put_key from_slice urls wr key headers bdy) = 201 \<longleftrightarrow>
      (\<exists>tok v. session_from_headers headers = Inr tok \<and> from_slice bdy = Some v \<and> wr (Put key v tok) = Inr ())" for wr
    by (auto simp: put_key_def split: sum.splits option.splits)
  have D: "code (delete_key urls wr key headers) = 204 \<longleftrightarrow>
      (\<exists>tok. session_from_headers headers = Inr tok \<and> wr (Delete key tok) = Inr ())" for wr
    by (auto simp: delete_key_def split: sum.splits)
  show ?thesis by (simp add: P D w)
qed

text \<open>
  The dedup token as the documentation of the API describes it: no header, or both, each of them the text of an unsigned
  64-bit number.
\<close>

definition token_spec :: "(string \<rightharpoonup> string) \<Rightarrow> session option \<Rightarrow> bool" where
  "token_spec headers tok \<longleftrightarrow>
     (case tok of
        None \<Rightarrow> headers ''x-client-id'' = None \<and> headers ''x-client-seq'' = None
      | Some t \<Rightarrow> \<exists>u v. headers ''x-client-id'' = Some u \<and> headers ''x-client-seq'' = Some v \<and>
          unsigned_text u (unat (client t)) \<and> unsigned_text v (unat (seq t)))"

lemma unsigned_text_bound: "unsigned_text s n \<Longrightarrow> n < 2 ^ 64"
  by (simp add: unsigned_text_def)

lemma to_str_unsigned: "unsigned_text s n \<Longrightarrow> to_str s = Some s"
  by (fastforce simp: unsigned_text_def to_str_def list_all_iff is_digit_def)

lemma header_number: "Option.bind (to_str s) parse_u64 = Some n \<longleftrightarrow> unsigned_text s n"
proof
  assume "Option.bind (to_str s) parse_u64 = Some n"
  then show "unsigned_text s n" by (auto simp: to_str_def parse_u64_iff split: if_splits)
qed (simp add: to_str_unsigned parse_u64_iff)

lemma session_iff: "session_from_headers headers = Inr tok \<longleftrightarrow> token_spec headers tok"
proof -
  have "x = of_nat m \<longleftrightarrow> m = unat x" if "m < 2 ^ 64" for m and x :: u64
    using that by (auto simp: unsigned_of_nat take_bit_nat_eq_self)
  then have w: "unsigned_text s m \<and> x = of_nat m \<longleftrightarrow> unsigned_text s (unat x) \<and> m = unat x" for s m and x :: u64
    using unsigned_text_bound by metis
  let ?f = "\<lambda>s. Option.bind (to_str s) parse_u64"
  show ?thesis
  proof (cases "headers ''x-client-id''"; cases "headers ''x-client-seq''")
    fix u v assume h: "headers ''x-client-id'' = Some u" "headers ''x-client-seq'' = Some v"
    have "session_from_headers headers = Inr tok \<longleftrightarrow>
        (\<exists>c q. ?f u = Some c \<and> ?f v = Some q \<and> tok = Some \<lparr>client = of_nat c, seq = of_nat q\<rparr>)"
      using h by (auto simp: session_from_headers_def Let_def split: option.splits)
    also have "\<dots> \<longleftrightarrow> token_spec headers tok"
    proof (cases tok)
      case (Some t)
      have "t = \<lparr>client = of_nat c, seq = of_nat q\<rparr> \<longleftrightarrow> client t = of_nat c \<and> seq t = of_nat q" for c q by (cases t) simp
      then have "(\<exists>c q. unsigned_text u c \<and> unsigned_text v q \<and> t = \<lparr>client = of_nat c, seq = of_nat q\<rparr>) \<longleftrightarrow>
          (\<exists>c. unsigned_text u c \<and> client t = of_nat c) \<and> (\<exists>q. unsigned_text v q \<and> seq t = of_nat q)" by auto
      then show ?thesis unfolding header_number token_spec_def h w Some by simp
    qed (simp add: token_spec_def h)
    finally show ?thesis .
  qed (auto simp: session_from_headers_def token_spec_def Let_def split: option.splits)
qed

lemma no_session: "(\<exists>e. session_from_headers headers = Inl e) \<longleftrightarrow> (\<nexists>tok. token_spec headers tok)"
  unfolding session_iff [symmetric] by (cases "session_from_headers headers") auto

text \<open>
  C25. Malformed requests: a write is answered 400 exactly if its token headers are not as documented, that is neither both
  absent nor both the text of an unsigned 64-bit number, or its body is not JSON. Such a request proposes nothing: the
  answer is the same whatever the KV service would do with a command. A well-formed one is the outcome of
  the very command it describes, with the numbers of the token intact.
\<close>

theorem bad_requests_are_rejected:
  shows "(code (put_key from_slice urls wr key headers bdy) = 400 \<longleftrightarrow> (\<nexists>tok. token_spec headers tok) \<or> from_slice bdy = None) \<and>
    (code (delete_key urls wr key headers :: 'v response) = 400 \<longleftrightarrow> (\<nexists>tok. token_spec headers tok)) \<and>
    ((\<nexists>tok. token_spec headers tok) \<or> from_slice bdy = None \<longrightarrow>
      (\<forall>wr'. put_key from_slice urls wr' key headers bdy = put_key from_slice urls wr key headers bdy)) \<and>
    ((\<nexists>tok. token_spec headers tok) \<longrightarrow>
      (\<forall>wr'. (delete_key urls wr' key headers :: 'v response) = delete_key urls wr key headers)) \<and>
    (token_spec headers tok \<and> from_slice bdy = Some v \<longrightarrow> put_key from_slice urls wr key headers bdy =
      (case wr (Put key v tok) of Inr _ \<Rightarrow> respond 201 Empty | Inl e \<Rightarrow> write_error_response urls key e)) \<and>
    (token_spec headers tok \<longrightarrow> (delete_key urls wr key headers :: 'v response) =
      (case wr (Delete key tok) of Inr _ \<Rightarrow> respond 204 Empty | Inl e \<Rightarrow> write_error_response urls key e))"
proof (cases "session_from_headers headers")
  case (Inl e)
  then have "\<nexists>tok. token_spec headers tok" using no_session by blast
  with Inl show ?thesis by (simp add: put_key_def delete_key_def)
next
  case (Inr tok')
  then have t: "token_spec headers tok'" and u: "\<And>x. token_spec headers x \<Longrightarrow> x = tok'" by (auto simp: session_iff [symmetric])
  then have "(\<nexists>tok. token_spec headers tok) \<longleftrightarrow> False" by blast
  moreover have "code (delete_key urls wr key headers :: 'v response) \<noteq> 400"
    using Inr by (auto simp: delete_key_def split: sum.splits)
  moreover have "code (put_key from_slice urls wr key headers bdy) = 400 \<longleftrightarrow> from_slice bdy = None"
    using Inr by (auto simp: put_key_def split: sum.splits option.splits)
  ultimately show ?thesis using Inr u by (auto simp: put_key_def delete_key_def)
qed

theorem bad_requests_are_rejected_witness:
  "(\<forall>wr. code (delete_key Map.empty wr ''k'' [''x-client-id'' \<mapsto> ''7''] :: nat response) = 400) \<and>
   (\<forall>wr. code (delete_key Map.empty wr ''k'' [''x-client-id'' \<mapsto> ''7'', ''x-client-seq'' \<mapsto> ''x''] :: nat response) = 400)"
proof -
  have "\<not> token_spec [''x-client-id'' \<mapsto> ''7''] tok" for tok by (cases tok) (simp_all add: token_spec_def)
  moreover have "\<not> token_spec [''x-client-id'' \<mapsto> ''7'', ''x-client-seq'' \<mapsto> ''x''] tok" for tok
    by (cases tok) (auto simp: token_spec_def unsigned_text_def is_digit_def)
  moreover note B = bad_requests_are_rejected [where 'v = nat, THEN conjunct2, THEN conjunct1]
  ultimately show ?thesis unfolding B by blast
qed

definition redirects :: "'v response \<Rightarrow> string \<Rightarrow> bool" where
  "redirects r u \<longleftrightarrow> code r = 307 \<and> location r = Some u"

lemma respond_fields [simp]: "location (respond c b) = None" "\<not> redirects (respond c b) u"
  by (simp_all add: respond_def redirects_def)

lemma write_error_fields:
  "redirects (write_error_response urls path e :: 'v response) u \<longleftrightarrow>
     (\<exists>l base. e = WNotLeader (Some l) \<and> urls l = Some base \<and> u = base @ ''/'' @ path)"
  "code (write_error_response urls path e :: 'v response) = 504 \<longleftrightarrow> e = WTimeout"
  "location (write_error_response urls path e :: 'v response) = None \<longleftrightarrow> code (write_error_response urls path e :: 'v response) \<noteq> 307"
  by (auto simp: write_error_response_def redirect_to_leader_def respond_def redirects_def
      split: write_error.splits option.splits bind_splits)

lemma read_error_fields:
  "redirects (read_error_response urls path e :: 'v response) u \<longleftrightarrow>
     (\<exists>l base. e = RNotLeader (Some l) \<and> urls l = Some base \<and> u = base @ ''/'' @ path)"
  "code (read_error_response urls path e :: 'v response) = 504 \<longleftrightarrow> e = RTimeout"
  "location (read_error_response urls path e :: 'v response) = None \<longleftrightarrow> code (read_error_response urls path e :: 'v response) \<noteq> 307"
  by (auto simp: read_error_response_def redirect_to_leader_def respond_def redirects_def
      split: read_error.splits option.splits bind_splits)

text \<open>The handlers, by what the KV service answered.\<close>

lemma handlers_redirect:
  "redirects (put_key from_slice urls wr key headers bdy) u \<longleftrightarrow>
     (\<exists>tok v l base. session_from_headers headers = Inr tok \<and> from_slice bdy = Some v \<and>
        wr (Put key v tok) = Inl (WNotLeader (Some l)) \<and> urls l = Some base \<and> u = base @ ''/'' @ key)"
  "redirects (delete_key urls wr key headers :: 'v response) u \<longleftrightarrow>
     (\<exists>tok l base. session_from_headers headers = Inr tok \<and>
        wr (Delete key tok) = Inl (WNotLeader (Some l)) \<and> urls l = Some base \<and> u = base @ ''/'' @ key)"
  "redirects (get_key urls local rd key stale) u \<longleftrightarrow>
     \<not> stale \<and> (\<exists>l base. rd key = Inl (RNotLeader (Some l)) \<and> urls l = Some base \<and> u = base @ ''/'' @ key)"
  "redirects (put_member parse urls membs wr i bdy :: 'v response) u \<longleftrightarrow>
     (\<exists>a l base. parse bdy = Some a \<and> \<not> bt_contains membs i \<and> wr (ConfigChange (fmupd i a membs)) = Inl (WNotLeader (Some l)) \<and>
        urls l = Some base \<and> u = base @ ''/cluster/members/'' @ show_nat i)"
  "redirects (delete_member urls membs wr i :: 'v response) u \<longleftrightarrow>
     (\<exists>l base. bt_contains membs i \<and> wr (ConfigChange (fmdrop i membs)) = Inl (WNotLeader (Some l)) \<and>
        urls l = Some base \<and> u = base @ ''/cluster/members/'' @ show_nat i)"
  by (auto simp: put_key_def delete_key_def get_key_def put_member_def delete_member_def write_error_fields read_error_fields
      simp del: bt_contains_iff split: sum.split option.split)

lemma handlers_locate:
  "location (put_key from_slice urls wr key headers bdy) = None \<longleftrightarrow> code (put_key from_slice urls wr key headers bdy) \<noteq> 307"
  "location (delete_key urls wr key headers :: 'v response) = None \<longleftrightarrow> code (delete_key urls wr key headers :: 'v response) \<noteq> 307"
  "location (get_key urls local rd key stale) = None \<longleftrightarrow> code (get_key urls local rd key stale) \<noteq> 307"
  "location (put_member parse urls membs wr i bdy :: 'v response) = None \<longleftrightarrow>
     code (put_member parse urls membs wr i bdy :: 'v response) \<noteq> 307"
  "location (delete_member urls membs wr i :: 'v response) = None \<longleftrightarrow> code (delete_member urls membs wr i :: 'v response) \<noteq> 307"
  by (simp_all add: put_key_def delete_key_def get_key_def put_member_def delete_member_def write_error_fields read_error_fields
      del: bt_contains_iff split: sum.split option.split)

lemma handlers_time_out:
  "code (put_key from_slice urls wr key headers bdy) = 504 \<longleftrightarrow>
     (\<exists>tok v. session_from_headers headers = Inr tok \<and> from_slice bdy = Some v \<and> wr (Put key v tok) = Inl WTimeout)"
  "code (get_key urls local rd key stale) = 504 \<longleftrightarrow> \<not> stale \<and> rd key = Inl RTimeout"
  by (auto simp: put_key_def get_key_def write_error_fields read_error_fields split: sum.split option.split)



lemma count_keys: "length (filter P (bt_keys m)) = card {j \<in> fset (fmdom m). P j}"
  using distinct_card [of "filter P (bt_keys m)"] by (simp add: Collect_conj_eq Int_commute)

lemma validate_delta:
  assumes "role n = Leader l" and "bt_len new \<noteq> 0"
    and "length (filter (\<lambda>j. \<not> bt_contains (members n) j) (bt_keys new)) +
      length (filter (\<lambda>j. \<not> bt_contains new j) (bt_keys (members n))) = 1"
  shows "validate_config_change now new n \<notin>
    {Inr (Some EmptyConfiguration), Inr (Some NotSingleServerDelta), Inl NotOnLeader}"
  using assms by (simp add: validate_config_change_def Let_def del: bt_contains_iff)

text \<open>Exactly one server is in one of two memberships and not in the other.\<close>

definition one_server :: "membership \<Rightarrow> membership \<Rightarrow> bool" where
  "one_server m new \<longleftrightarrow>
     (\<exists>j. j \<notin> fset (fmdom m) \<and> fset (fmdom new) = insert j (fset (fmdom m)) \<or>
        j \<in> fset (fmdom m) \<and> fset (fmdom new) = fset (fmdom m) - {j})"

lemma one_server_iff:
  "card {j \<in> fset (fmdom new). j \<notin> fset (fmdom m)} + card {j \<in> fset (fmdom m). j \<notin> fset (fmdom new)} = 1 \<longleftrightarrow> one_server m new"
proof -
  let ?A = "fset (fmdom m)" and ?B = "fset (fmdom new)"
  have f: "finite {j \<in> ?B. j \<notin> ?A}" "finite {j \<in> ?A. j \<notin> ?B}" by simp_all
  have c: "card X + card Y = 1 \<longleftrightarrow> (\<exists>j. X = {j} \<and> Y = {} \<or> X = {} \<and> Y = {j})" if "finite X" "finite Y" for X Y :: "node_id set"
    using that by (auto simp: add_is_1 card_Suc_eq)
  have "({j \<in> ?B. j \<notin> ?A} = {j} \<and> {j \<in> ?A. j \<notin> ?B} = {} \<or> {j \<in> ?B. j \<notin> ?A} = {} \<and> {j \<in> ?A. j \<notin> ?B} = {j}) \<longleftrightarrow>
      (j \<notin> ?A \<and> ?B = insert j ?A \<or> j \<in> ?A \<and> ?B = ?A - {j})" for j by blast
  then show ?thesis unfolding c [OF f] one_server_def by simp
qed

lemma accepted_is_single:
  assumes "validate_config_change now new n = Inr None"
  shows "one_server (members n) new \<and> fset (fmdom new) \<noteq> {}"
proof -
  from assms have "length (filter (\<lambda>j. \<not> bt_contains (members n) j) (bt_keys new)) +
      length (filter (\<lambda>j. \<not> bt_contains new j) (bt_keys (members n))) = 1" and "bt_len new \<noteq> 0"
    by (auto simp: validate_config_change_def Let_def simp del: bt_contains_iff split: role.splits if_splits)
  then show ?thesis unfolding count_keys bt_contains_iff one_server_iff by (auto simp: bt_len_card)
qed

lemma own_view_accepted:
  assumes "is_leader n"
  shows "i \<notin> fset (fmdom (members n)) \<Longrightarrow>
      validate_config_change now (fmupd i a (members n)) n \<notin>
        {Inr (Some EmptyConfiguration), Inr (Some NotSingleServerDelta), Inl NotOnLeader}"
    and "i \<in> fset (fmdom (members n)) \<Longrightarrow> 1 < bt_len (members n) \<Longrightarrow>
      validate_config_change now (fmdrop i (members n)) n \<notin>
        {Inr (Some EmptyConfiguration), Inr (Some NotSingleServerDelta), Inl NotOnLeader}"
proof -
  from assms obtain l where l: "role n = Leader l" by (auto simp: is_leader_def split: role.splits)
  show "validate_config_change now (fmupd i a (members n)) n \<notin>
      {Inr (Some EmptyConfiguration), Inr (Some NotSingleServerDelta), Inl NotOnLeader}"
    if "i \<notin> fset (fmdom (members n))"
  proof (rule validate_delta [OF l])
    have "one_server (members n) (fmupd i a (members n))" using that by (auto simp: one_server_def)
    then show "length (filter (\<lambda>j. \<not> bt_contains (members n) j) (bt_keys (fmupd i a (members n)))) +
        length (filter (\<lambda>j. \<not> bt_contains (fmupd i a (members n)) j) (bt_keys (members n))) = 1"
      unfolding count_keys bt_contains_iff one_server_iff .
  qed (simp add: bt_len_card)
  show "validate_config_change now (fmdrop i (members n)) n \<notin>
      {Inr (Some EmptyConfiguration), Inr (Some NotSingleServerDelta), Inl NotOnLeader}"
    if "i \<in> fset (fmdom (members n))" "1 < bt_len (members n)"
  proof (rule validate_delta [OF l])
    have "one_server (members n) (fmdrop i (members n))" using that by (auto simp: one_server_def)
    then show "length (filter (\<lambda>j. \<not> bt_contains (members n) j) (bt_keys (fmdrop i (members n)))) +
        length (filter (\<lambda>j. \<not> bt_contains (fmdrop i (members n)) j) (bt_keys (members n))) = 1"
      unfolding count_keys bt_contains_iff one_server_iff .
    show "bt_len (fmdrop i (members n)) \<noteq> 0"
      using that by (simp add: bt_len_card card_Diff_singleton)
  qed
qed

text \<open>A proposal of a configuration that is answered with a ticket was validated.\<close>

lemma propose_reply_append:
  "propose_reply ch (fx @ gx) = (case propose_reply ch fx of Some r \<Rightarrow> Some r | None \<Rightarrow> propose_reply ch gx)"
  by (induction ch fx rule: propose_reply.induct) auto

lemma ticket_is_valid:
  assumes "handle_propose now (ConfigChange new) ch n = Inr n'" and "propose_reply ch (effects n) = None"
    and "propose_reply ch (effects n' @ later) = Some (Inr p)"
  shows "validate_config_change now new n = Inr None"
proof (rule ccontr)
  assume v: "validate_config_change now new n \<noteq> Inr None"
  with assms(1) obtain e where "effects n' = effects n @ [ReplyPropose ch (Inl e)]"
    by (auto simp: handle_propose_def emit_def bind_r_Inr_iff split: if_splits option.splits)
  with assms(2,3) show False by (simp add: propose_reply_append)
qed


text \<open>A leader with two members, in its first term.\<close>

definition example_leader :: "(nat, nat kv_store) raft_node" where
  "example_leader =
     \<lparr>config = raft_config_new 1 [2], storage = empty_storage\<lparr>hard_state := \<lparr>hs_current_term = 1, voted_for = Some 1\<rparr>\<rparr>,
      state_machine = \<lparr>sm_data = kv_new, sm_apply_fn = apply_entry, sm_snapshot_fn = sm_snapshot (\<lambda>_. 0),
        sm_restore_fn = sm_restore (\<lambda>v. Some \<lparr>snap_map = [''k'' \<mapsto> v], snap_sessions = Map.empty\<rparr>)\<rparr>,
      role = Leader \<lparr>next_index = Map.empty, match_index = Map.empty, term_start_index = 1, heartbeat_seq = 0,
        acked_seq = Map.empty, last_contact = Map.empty, departing = fmempty, pending_reads = []\<rparr>,
      leader_id = Some 1, commit_index = 0, last_applied = 0, pending = [], staged_snapshot = None,
      members = fmupd 1 \<lparr>raft = ''a:90'', client_url = []\<rparr> (fmupd 2 \<lparr>raft = ''b:90'', client_url = []\<rparr> fmempty),
      members_index = 0,
      membership_tx = \<lparr>watch_value = \<lparr>view_members = fmempty, view_departing = fmempty\<rparr>, watch_version = 0\<rparr>,
      last_leader_contact = None, election_deadline = 0, next_heartbeat = 0, rng = rng_new 1,
      status_tx = \<lparr>watch_value = \<lparr>status_id = 1, status_term = 1, status_role = LeaderKind, status_leader_id = Some 1,
        status_commit_index = 0, status_last_log_index = 0\<rparr>, watch_version = 0\<rparr>,
      next_chan = 5, effects = []\<rparr>"


subsection \<open>An unknown outcome\<close>

lemma oneshot_append: "oneshot fx ch = Elapsed \<Longrightarrow> oneshot (fx @ gx) ch = oneshot gx ch"
  by (induction fx ch rule: oneshot.induct) (auto split: if_splits)

text \<open>Effects among which no outcome of a proposal is reported.\<close>

definition silent :: "'v effect list \<Rightarrow> bool" where
  "silent fx \<longleftrightarrow> (\<forall>p b. Committed p b \<notin> set fx)"

lemma oneshot_closed: "silent fx \<Longrightarrow> Closed ch \<in> set fx \<Longrightarrow> oneshot (fx @ gx) ch = Dropped"
  by (induction fx ch rule: oneshot.induct) (auto simp: silent_def)

lemma become_follower_pending:
  assumes "become_follower now t lid n = Inr n'"
  shows "pending n' = pending n \<and> commit_index n' = commit_index n \<and> state_machine n' = state_machine n \<and>
    (\<exists>fx. effects n' = effects n @ fx \<and> silent fx)"
  using assms by (auto simp: become_follower_def store_def reset_election_timer_def emit_def publish_membership_def
      dropped_reads_def silent_def Let_def bind_r_Inr_iff split: if_splits option.splits role.splits)

lemma rescan_pending [simp]:
  "pending (rescan_membership now n) = pending n" "effects (rescan_membership now n) = effects n"
  "state_machine (rescan_membership now n) = state_machine n" "last_applied (rescan_membership now n) = last_applied n"
  by (simp_all add: rescan_membership_def adopt_membership_def publish_membership_def Let_def split: prod.splits)

lemma installed_effects:
  assumes "handle_install_snapshot now (args :: 'v install_snapshot_args) n = Inr (n', r)" and "current_term n \<le> is_term args"
    and "commit_index n < last_included_index (is_snapshot args)"
    and "p \<in> set (pending n)" and "pp_index p \<le> last_included_index (is_snapshot args)"
  shows "\<exists>fx gx. effects n' = effects n @ fx @ gx \<and> silent fx \<and> Closed (pp_committed p) \<in> set fx"
    and "last_applied n' = last_included_index (is_snapshot args)"
    and "sm_restore_fn (state_machine n) (sm_data (state_machine n)) (state (is_snapshot args)) = Some (sm_data (state_machine n'))"
proof -
  let ?b = "last_included_index (is_snapshot args)"
  from assms(1,2) obtain m where m: "become_follower now (is_term args) (Some (is_leader_id args)) n = Inr m"
    by (auto simp: handle_install_snapshot_def bind_r_Inr_iff)
  from become_follower_pending [OF m] obtain fx where M: "pending m = pending n" "commit_index m = commit_index n"
    "state_machine m = state_machine n" "effects m = effects n @ fx" "silent fx" by blast
  define cl :: "'v effect list" where "cl = map (\<lambda>p. Closed (pp_committed p)) (filter (\<lambda>p. \<not> pp_index p > ?b) (pending n))"
  have cl: "silent cl" "Closed (pp_committed p) \<in> set cl" using assms(4,5) by (auto simp: cl_def silent_def)
  have "\<not> ?b \<le> commit_index m" using M assms(3) by simp
  then obtain st gx where e: "effects n' = effects m @ [Stored st] @ cl @ gx" and
    o: "last_applied n' = ?b"
      "sm_restore_fn (state_machine m) (sm_data (state_machine m)) (state (is_snapshot args)) = Some (sm_data (state_machine n'))"
    using assms(1,2) m M(1)
    by (auto simp: handle_install_snapshot_def bind_r_Inr_iff store_def Let_def resolve_pending_def emit_def cl_def
        split: option.splits)
  from o M(3) show "last_applied n' = ?b"
    "sm_restore_fn (state_machine n) (sm_data (state_machine n)) (state (is_snapshot args)) = Some (sm_data (state_machine n'))"
    by simp_all
  show "\<exists>fx gx. effects n' = effects n @ fx @ gx \<and> silent fx \<and> Closed (pp_committed p) \<in> set fx"
    by (rule exI [of _ "fx @ Stored st # cl"], rule exI [of _ gx]) (use e M(4,5) cl in \<open>auto simp: silent_def\<close>)
qed

text \<open>
  C38. Finding: a write that has taken effect is answered 503, which the API documents as always safe to retry. A node has
  answered a proposal with a ticket, its outcome is open, and it installs a snapshot that reaches the index of the
  proposal: the effects of the installation close the channel of the ticket, the KV service takes that for a
  shutdown, and the request is answered 503, whatever the node does later. At that moment the node has applied the index
  of the proposal: its store is the one of the snapshot, with everything committed up to there, the write among it if it was committed.
\<close>

theorem unknown_outcome_answered_as_retryable:
  assumes "handle_install_snapshot now (args :: 'v install_snapshot_args) n = Inr (n', r)" and "current_term n \<le> is_term args"
    and "commit_index n < last_included_index (is_snapshot args)"
    and "p \<in> set (pending n)" and "pp_index p \<le> last_included_index (is_snapshot args)"
    and "propose_reply ch (effects n) = Some (Inr \<lparr>proposal_term = pp_term p, proposal_index = pp_index p, proposal_committed = pp_committed p\<rparr>)"
    and "oneshot (effects n) (pp_committed p) = Elapsed"
    and "session_from_headers headers = Inr tok" and "from_slice bdy = Some v"
  shows "put_key from_slice urls (\<lambda>cmd. kv_write (call True (propose_reply ch (effects n' @ later))) (oneshot (effects n' @ later)))
      key headers bdy = respond 503 (Text (line ''node shutting down'')) \<and>
    pp_index p \<le> last_applied n' \<and>
    sm_restore_fn (state_machine n) (sm_data (state_machine n)) (state (is_snapshot args)) = Some (sm_data (state_machine n'))"
proof -
  note I = installed_effects [OF assms(1-5)]
  from I(1) obtain fx gx where e: "effects n' = effects n @ fx @ gx" "silent fx" "Closed (pp_committed p) \<in> set fx" by blast
  have "oneshot (effects n' @ later) (pp_committed p) = Dropped"
    using oneshot_append [OF assms(7)] oneshot_closed [OF e(2,3)] by (simp add: e(1))
  moreover have "propose_reply ch (effects n' @ later) = propose_reply ch (effects n)"
    using assms(6) by (simp add: e(1) propose_reply_append)
  ultimately show ?thesis using I(2,3) assms(5,6,8,9)
    by (simp add: put_key_def call_def kv_write_def write_error_response_def)
qed

text \<open>The leader proposes \<^verbatim>\<open>k = 5\<close>, and the next leader sends it a snapshot with that entry.\<close>

definition example_install :: "nat install_snapshot_args" where
  "example_install = \<lparr>is_term = 2, is_leader_id = 2,
     is_snapshot = \<lparr>last_included_index = 1, last_included_term = 1, membership = None, state = 5\<rparr>\<rparr>"

lemma example_proposed:
  "case handle_propose 0 (Put ''k'' 5 None) 9 example_leader of
     Inl _ \<Rightarrow> False
   | Inr n \<Rightarrow> current_term n \<le> is_term example_install \<and> commit_index n = 0 \<and>
       pending n = [\<lparr>pp_term = 1, pp_index = 1, pp_committed = 5\<rparr>] \<and>
       propose_reply 9 (effects n) = Some (Inr \<lparr>proposal_term = 1, proposal_index = 1, proposal_committed = 5\<rparr>) \<and>
       oneshot (effects n) 5 = Elapsed \<and> term_at (storage n) 1 = Some 1 \<and>
       (case handle_install_snapshot 0 example_install n of
          Inl _ \<Rightarrow> False | Inr (n', _) \<Rightarrow> kv_get (sm_data (state_machine n')) ''k'' = Some 5)"
  by code_simp

theorem unknown_outcome_answered_as_retryable_witness:
  "\<exists>n n' r. handle_propose 0 (Put ''k'' 5 None) 9 example_leader = Inr n \<and>
     handle_install_snapshot 0 example_install n = Inr (n', r) \<and>
     put_key (\<lambda>_. Some 5) Map.empty (\<lambda>cmd. kv_write (call True (propose_reply 9 (effects n'))) (oneshot (effects n')))
       ''k'' Map.empty ''5'' = respond 503 (Text (line ''node shutting down'')) \<and>
     kv_get (sm_data (state_machine n')) ''k'' = Some 5"
proof -
  let ?p = "\<lparr>pp_term = 1, pp_index = 1, pp_committed = 5\<rparr>"
  from example_proposed obtain n n' r where n: "handle_propose 0 (Put ''k'' 5 None) 9 example_leader = Inr n"
    "current_term n \<le> is_term example_install" "commit_index n = 0" "pending n = [?p]"
    "propose_reply 9 (effects n) = Some (Inr \<lparr>proposal_term = 1, proposal_index = 1, proposal_committed = 5\<rparr>)"
    "oneshot (effects n) 5 = Elapsed" "handle_install_snapshot 0 example_install n = Inr (n', r)"
    "kv_get (sm_data (state_machine n')) ''k'' = Some 5"
    by (auto split: sum.splits prod.splits)
  have t: "session_from_headers Map.empty = Inr None" by (simp add: session_from_headers_def)
  have "put_key (\<lambda>_. Some 5) Map.empty (\<lambda>cmd. kv_write (call True (propose_reply 9 (effects n' @ []))) (oneshot (effects n' @ [])))
      ''k'' Map.empty ''5'' = respond 503 (Text (line ''node shutting down''))"
    by (rule conjunct1 [OF unknown_outcome_answered_as_retryable [OF n(7,2), of ?p]])
      (use n t in \<open>simp_all add: example_install_def\<close>)
  with n show ?thesis by auto
qed

end
