(* ===== verification/Election.thy ===== *)
theory Election
  imports Cluster
begin

section \<open>A cluster can always elect a leader\<close>

text \<open>
  From every state that the simulation knows there is a continuation without crashes in which a node becomes leader
  with a term that no other node exceeds: leaders that hear nobody step down, a node whose log is at least as
  up to date as any other learns the highest term, collects pre-votes, campaigns and collects votes. Each lemma
  about a step gives the turn that is taken, at an instant of its choice.
\<close>

subsection \<open>Single steps\<close>

text \<open>A turn of one node that is no RPC, with what is known of its result.\<close>

lemma turn_made:
  assumes R: "related M sm C w" and i: "i \<in> M" and en: "turn_enabled C i t"
    and eq: "take_turn now t (drained (nodes C i)) = bind_r m (\<lambda>n. Inr (True, None, n))"
    and ok: "ok_run M sm w i (net w) m P"
  obtains C' w' n where "cstep_in {} M sm C C'" and "related M sm C' w'" and "nodes C' = (nodes C)(i := n)"
    and "wire C' = wire C \<union> posted i n" and "mail C' = mail C" and "P (lg_of w' i) n (net w')"
    and "\<forall>j. j \<noteq> i \<longrightarrow> lg_of w' j = lg_of w j" and "msgs (net w) \<subseteq> msgs (net w')" and "m = Inr n"
proof -
  from ok obtain n L s where n: "m = Inr n" "runs M sm w i L n s" "msgs (net w) \<subseteq> msgs s" "P L n s"
    by (auto simp: ok_run_def wp_empty_iff)
  let ?C = "C\<lparr>nodes := (nodes C)(i := n), wire := wire C \<union> posted i n\<rparr>"
  have "cstep_in {} M sm C ?C" by (rule c_turn [OF i en]) (use eq n(1) in simp)
  moreover have "related M sm ?C (put w i (absp L n) s)"
    by (rule related_step [OF R runs_at [OF n(2)] n(3)]) simp_all
  ultimately show thesis by (rule that) (use n in simp_all)
qed

text \<open>The delivery of a request.\<close>

lemma request_answered:
  assumes R: "related M sm C w" and i: "i \<in> M" and q: "(c, i, rq, x) \<in> wire C"
  obtains C' w' n a where "handle_inbound now rq (drained (nodes C i)) = Inr (n, a)" and "cstep_in {} M sm C C'"
    and "related M sm C' w'" and "nodes C' = (nodes C)(i := n)" and "wire C \<subseteq> wire C'"
    and "mail C' = insert (c, event_of x i (Inr a)) (mail C)" and "\<forall>j. j \<noteq> i \<longrightarrow> lg_of w' j = lg_of w j"
    and "msgs (net w) \<subseteq> msgs (net w')" and "event_ok (net w') c (event_of x i (Inr a))"
proof -
  from R q have "req_ok sm (net w) c rq x" by (auto simp: related_def)
  from handle_inbound_ok [OF runs_start [OF R i] this, of now] obtain n a L s where
    n: "handle_inbound now rq (drained (nodes C i)) = Inr (n, a)" "runs M sm w i L n s" "msgs (net w) \<subseteq> msgs s"
    "event_ok s c (event_of x i (Inr a))" by (auto simp: wp_empty_iff)
  let ?C = "C\<lparr>nodes := (nodes C)(i := n), wire := wire C \<union> posted i n, mail := insert (c, event_of x i (Inr a)) (mail C)\<rparr>"
  have "cstep_in {} M sm C ?C"
    by (rule c_rpc [OF i q, of now 0]) (use n(1) in \<open>simp add: take_turn_def\<close>)
  moreover have "related M sm ?C (put w i (absp L n) s)"
    by (rule related_step [OF R runs_at [OF n(2)] n(3)]) (use n(4) in simp_all)
  ultimately show thesis by (rule that [OF n(1)]) (use n(3,4) in auto)
qed

lemma event_made:
  assumes R: "related M sm C w" and i: "i \<in> M" and m: "(i, e) \<in> mail C"
    and ok: "ok_run M sm w i (net w) (handle_event now e (drained (nodes C i))) P"
  obtains C' w' n where "cstep_in {} M sm C C'" and "related M sm C' w'" and "nodes C' = (nodes C)(i := n)"
    and "wire C' = wire C \<union> posted i n" and "mail C' = mail C" and "P (lg_of w' i) n (net w')"
    and "\<forall>j. j \<noteq> i \<longrightarrow> lg_of w' j = lg_of w j" and "msgs (net w) \<subseteq> msgs (net w')"
  by (rule turn_made [OF R i, of "Ev e" now, OF _ _ ok])
    (use m that in \<open>auto simp: turn_enabled_def take_turn_def\<close>)

lemma drained_sel [simp]: "role (drained n) = role n" "storage (drained n) = storage n" "config (drained n) = config n"
  "members (drained n) = members n" "current_term (drained n) = current_term n" "is_leader (drained n) = is_leader n"
  "commit_index (drained n) = commit_index n" "last_applied (drained n) = last_applied n" "majority (drained n) = majority n"
  "last_leader_contact (drained n) = last_leader_contact n" "drained (drained n) = drained n"
  "vote_args t (drained n) = vote_args t n"
  by (simp_all add: drained_def current_term_def is_leader_def majority_def vote_args_def)

lemma related_node:
  assumes "related M sm C w" and "i \<in> M"
  shows "cfg_id (config (nodes C i)) = i" and "majority (nodes C i) = card M div 2 + 1"
    and "holds_log (lg_of w i) (storage (nodes C i))"
    and "trm w i = current_term (nodes C i)" and "state_machine (nodes C i) = replay sm (take (last_applied (nodes C i)) (lg_of w i))"
proof -
  note r = runs_start [OF assms]
  show "cfg_id (config (nodes C i)) = i" using runs_id [OF r] by simp
  show "majority (nodes C i) = card M div 2 + 1" using majority_card [OF r] by simp
  show "holds_log (lg_of w i) (storage (nodes C i))" using runsD(6) [OF r] by simp
  show "trm w i = current_term (nodes C i)" using arg_cong [OF relatedD(7) [OF assms], of p_term] unfolding absp_sel .
  show "state_machine (nodes C i) = replay sm (take (last_applied (nodes C i)) (lg_of w i))"
    using runsD(11) [OF r] by (simp add: drained_def)
qed

subsection \<open>Stepping down\<close>

lemma silence:
  fixes f :: "node_id \<Rightarrow> instant option"
  assumes "finite M"
  shows "\<exists>now. \<forall>p \<in> M. \<forall>at. f p = Some at \<longrightarrow> d \<le> now - at"
  using assms
proof (induction rule: finite_induct)
  case (insert p M)
  then obtain now where now: "\<forall>p \<in> M. \<forall>at. f p = Some at \<longrightarrow> d \<le> now - at" by blast
  let ?now = "max now (d + (case f p of Some at \<Rightarrow> at | None \<Rightarrow> 0))"
  have "d \<le> ?now - at" if "q \<in> insert p M" "f q = Some at" for q at
    using that now by (auto simp: max_def intro: le_trans)
  then show ?case by blast
qed simp

lemma step_down:
  assumes R: "related M sm C w" and i: "i \<in> M" and c: "2 \<le> card M"
  obtains C' w' where "(cstep_in {} M sm)\<^sup>*\<^sup>* C C'" and "related M sm C' w'" and "\<not> is_leader (nodes C' i)"
    and "\<And>j. j \<noteq> i \<Longrightarrow> nodes C' j = nodes C j"
proof (cases "role (nodes C i)")
  case (Leader l)
  let ?n = "drained (nodes C i)"
  note r = runs_start [OF R i]
  from silence [of M "last_contact l" "election_timeout_max (config ?n)"] R obtain now where
    now: "\<forall>p \<in> M. \<forall>at. last_contact l p = Some at \<longrightarrow> election_timeout_max (config ?n) \<le> now - at"
    by (auto simp: related_def)
  have "filter (\<lambda>i. case last_contact l i of Some at \<Rightarrow> now - at < election_timeout_max (config ?n) | None \<Rightarrow> False)
      (peer_ids ?n) = []"
    using now runsD(4) [OF r] by (auto simp: filter_empty_conv peer_ids_def not_less split: option.splits)
  then have "heard now ?n l < majority ?n"
    using c related_node(2) [OF R i] by (simp add: heard_def)
  then have ok: "ok_run M sm w i (net w) (on_heartbeat_tick now ?n) (\<lambda>L' n' s'. role n' = Follower)"
    using Leader by (intro ok_run_mono [OF on_heartbeat_tick_ok [OF r]]) auto
  have t: "turn_enabled C i HeartbeatTimer"
    "take_turn now HeartbeatTimer ?n = bind_r (on_heartbeat_tick now ?n) (\<lambda>n. Inr (True, None, n))"
    using Leader by (simp_all add: turn_enabled_def take_turn_def is_leader_def)
  obtain C' w' n where "cstep_in {} M sm C C'" "related M sm C' w'" "nodes C' = (nodes C)(i := n)" "role n = Follower"
    by (rule turn_made [OF R i t ok])
  then show thesis by (intro that [of C' w']) (auto simp: is_leader_def)
qed (rule that [OF rtranclp.rtrancl_refl R]; simp add: is_leader_def)+

lemma all_step_down:
  assumes R: "related M sm C w" and c: "2 \<le> card M"
  shows "\<exists>C' w'. (cstep_in {} M sm)\<^sup>*\<^sup>* C C' \<and> related M sm C' w' \<and> (\<forall>j \<in> M. \<not> is_leader (nodes C' j))"
proof -
  have "finite A \<Longrightarrow> A \<subseteq> M \<Longrightarrow>
      \<exists>C' w'. (cstep_in {} M sm)\<^sup>*\<^sup>* C C' \<and> related M sm C' w' \<and> (\<forall>j \<in> A. \<not> is_leader (nodes C' j))" for A
  proof (induction rule: finite_induct)
    case empty
    then show ?case using R by blast
  next
    case (insert i A)
    then obtain D v where D: "(cstep_in {} M sm)\<^sup>*\<^sup>* C D" "related M sm D v" "\<forall>j \<in> A. \<not> is_leader (nodes D j)" by auto
    have i: "i \<in> M" using insert.prems by simp
    obtain C' w' where "(cstep_in {} M sm)\<^sup>*\<^sup>* D C'" "related M sm C' w'" "\<not> is_leader (nodes C' i)"
      "\<And>j. j \<noteq> i \<Longrightarrow> nodes C' j = nodes D j" using step_down [OF D(2) i c] by blast
    with D(1,3) show ?case by (intro exI [of _ C'] exI [of _ w']) (metis insert_iff rtranclp_trans)
  qed
  then show ?thesis using R by (auto simp: related_def)
qed

subsection \<open>The most up-to-date log and the highest term\<close>

definition last_key :: "('v, 'sm) raft_node \<Rightarrow> term_no \<times> log_index" where
  "last_key n = (last_term (storage n), last_index (storage n))"

definition ahead :: "('v, 'sm) raft_node \<Rightarrow> ('v, 'sm) raft_node \<Rightarrow> bool" where
  "ahead n n' \<longleftrightarrow> log_up_to_date (vote_args 0 n) n'"

lemma ahead_args: "log_up_to_date (vote_args t n) n' = ahead n n'"
  by (simp add: ahead_def log_up_to_date_def vote_args_def)

lemma ahead_key: "last_key n = last_key m \<Longrightarrow> last_key n' = last_key m' \<Longrightarrow> ahead n n' = ahead m m'"
  by (simp add: ahead_def log_up_to_date_def vote_args_def last_key_def)

lemma last_key_drained [simp]: "last_key (drained n) = last_key n"
  by (simp add: last_key_def)

lemma ex_greatest:
  fixes f :: "'a \<Rightarrow> nat"
  assumes "finite A" and "A \<noteq> {}"
  shows "\<exists>i \<in> A. \<forall>j \<in> A. f j \<le> f i"
  using Max_in [of "f ` A"] Max_ge [of "f ` A"] assms by (metis (no_types, lifting) finite_imageI image_iff image_is_empty)

lemma ex_ahead:
  assumes "finite M" and "M \<noteq> {}"
  shows "\<exists>i \<in> M. \<forall>j \<in> M. ahead (f i) (f j)"
proof -
  let ?t = "\<lambda>i. last_term (storage (f i))" and ?k = "\<lambda>i. last_index (storage (f i))"
  from ex_greatest [OF assms, of ?t] obtain m where m: "m \<in> M" "\<forall>j \<in> M. ?t j \<le> ?t m" by blast
  let ?A = "{j \<in> M. ?t j = ?t m}"
  from ex_greatest [of ?A ?k] assms m(1) obtain i where "i \<in> ?A" "\<forall>j \<in> ?A. ?k j \<le> ?k i" by auto
  with m(2) have "\<forall>j \<in> M. ahead (f i) (f j)"
    by (fastforce simp: ahead_def log_up_to_date_def vote_args_def le_less)
  with \<open>i \<in> ?A\<close> show ?thesis by blast
qed

text \<open>A node that is not alone asks for pre-votes when its election timer fires.\<close>

lemma ask_pre_votes:
  assumes R: "related M sm C w" and i: "i \<in> M" and c: "2 \<le> card M" and nl: "\<not> is_leader (nodes C i)"
  obtains C' w' where "cstep_in {} M sm C C'" and "related M sm C' w'" and "\<And>j. j \<noteq> i \<Longrightarrow> nodes C' j = nodes C j"
    and "role (nodes C' i) = PreCandidate {i}" and "storage (nodes C' i) = storage (nodes C i)"
    and "\<And>p. p \<in> M \<Longrightarrow> p \<noteq> i \<Longrightarrow> (i, p, PreVote (vote_args (current_term (nodes C i) + 1) (nodes C i)),
      PreVoteCtx (current_term (nodes C i) + 1)) \<in> wire C'"
proof -
  let ?n = "drained (nodes C i)" and ?t = "current_term (nodes C i) + 1"
  have nl': "\<not> is_leader ?n" using nl by simp
  have m: "\<not> majority ?n \<le> 1" using c related_node(2) [OF R i] by simp
  have ok: "ok_run M sm w i (net w) (on_election_timeout 0 ?n) (\<lambda>L' n' s'. storage n' = storage ?n \<and>
      role n' = PreCandidate {i} \<and> (\<forall>p \<in> M - {i}. SendRpc p (PreVote (vote_args ?t (nodes C i))) (PreVoteCtx ?t) \<in> set (effects n')))"
    by (rule ok_run_mono [OF on_election_timeout_ok [OF runs_start [OF R i] nl']]) (use m in simp)
  have t: "turn_enabled C i ElectionTimer"
    "take_turn 0 ElectionTimer ?n = bind_r (on_election_timeout 0 ?n) (\<lambda>n. Inr (True, None, n))"
    using nl by (simp_all add: turn_enabled_def take_turn_def)
  obtain C' w' n where C': "cstep_in {} M sm C C'" "related M sm C' w'" "nodes C' = (nodes C)(i := n)"
    "wire C' = wire C \<union> posted i n" and n: "storage n = storage ?n \<and>
      role n = PreCandidate {i} \<and> (\<forall>p \<in> M - {i}. SendRpc p (PreVote (vote_args ?t (nodes C i))) (PreVoteCtx ?t) \<in> set (effects n))"
    by (rule turn_made [OF R i t ok])
  show thesis by (rule that [OF C'(1,2)]) (use C'(3,4) n in \<open>auto simp: posted_def\<close>)
qed

lemma answer_pre_vote:
  assumes R: "related M sm C w" and j: "j \<in> M" and q: "(i, j, PreVote a, PreVoteCtx t) \<in> wire C"
  obtains C' w' g where "cstep_in {} M sm C C'" and "related M sm C' w'"
    and "nodes C' = (nodes C)(j := drained (nodes C j))" and "wire C \<subseteq> wire C'"
    and "(i, PreVoteReply t j (Inr (PreVoteR \<lparr>rvr_term = current_term (nodes C j), vote_granted = g\<rparr>))) \<in> mail C'"
    and "\<not> is_leader (nodes C j) \<Longrightarrow> current_term (nodes C j) < rv_term a \<Longrightarrow> log_up_to_date a (nodes C j) \<Longrightarrow> g"
proof -
  let ?n = "drained (nodes C j)"
  define now where "now = (case last_leader_contact ?n of Some at \<Rightarrow> at | None \<Rightarrow> 0) + election_timeout_min (config ?n)"
  have live: "leader_is_live now ?n = is_leader ?n"
    by (auto simp: leader_is_live_def now_def split: option.splits)
  obtain C' w' n b where C': "handle_inbound now (PreVote a) ?n = Inr (n, b)" "cstep_in {} M sm C C'"
    "related M sm C' w'" "nodes C' = (nodes C)(j := n)" "wire C \<subseteq> wire C'"
    "mail C' = insert (i, event_of (PreVoteCtx t) j (Inr b)) (mail C)" by (rule request_answered [OF R j q])
  let ?g = "rv_term a > current_term ?n \<and> log_up_to_date a ?n \<and> \<not> leader_is_live now ?n"
  have b: "n = ?n" "b = PreVoteR \<lparr>rvr_term = current_term ?n, vote_granted = ?g\<rparr>"
    using C'(1) by (auto simp: handle_inbound_def handle_pre_vote_def)
  have u: "log_up_to_date a ?n = log_up_to_date a (nodes C j)" by (simp add: log_up_to_date_def)
  show thesis by (rule that [OF C'(2,3), of ?g]) (use C'(4-) b live u in auto)
qed

lemma learn_term:
  assumes R: "related M sm C w" and c: "2 \<le> card M" and i: "i \<in> M" and nl: "\<forall>j \<in> M. \<not> is_leader (nodes C j)"
  shows "\<exists>C' w'. (cstep_in {} M sm)\<^sup>*\<^sup>* C C' \<and> related M sm C' w' \<and> (\<forall>j \<in> M. \<not> is_leader (nodes C' j)) \<and>
    (\<forall>j \<in> M. current_term (nodes C' j) \<le> current_term (nodes C' i)) \<and> (\<forall>j \<in> M. last_key (nodes C' j) = last_key (nodes C j))"
proof -
  have "finite M" using R by (simp add: related_def)
  from ex_greatest [OF this, of "\<lambda>j. current_term (nodes C j)"] i obtain j where
    j: "j \<in> M" "\<forall>k \<in> M. current_term (nodes C k) \<le> current_term (nodes C j)" by blast
  show ?thesis
  proof (cases "current_term (nodes C j) \<le> current_term (nodes C i)")
    case True
    with j R nl show ?thesis by (intro exI [of _ C] exI [of _ w]) (auto intro: le_trans)
  next
    case False
    then have ne: "j \<noteq> i" by auto
    let ?t = "current_term (nodes C i) + 1"
    obtain D v where D: "cstep_in {} M sm C D" "related M sm D v" "\<And>k. k \<noteq> i \<Longrightarrow> nodes D k = nodes C k"
      "role (nodes D i) = PreCandidate {i}" "storage (nodes D i) = storage (nodes C i)"
      "\<And>p. p \<in> M \<Longrightarrow> p \<noteq> i \<Longrightarrow> (i, p, PreVote (vote_args ?t (nodes C i)), PreVoteCtx ?t) \<in> wire D"
      using ask_pre_votes [OF R i c] nl i by metis
    obtain E u g where E: "cstep_in {} M sm D E" "related M sm E u" "nodes E = (nodes D)(j := drained (nodes D j))"
      "(i, PreVoteReply ?t j (Inr (PreVoteR \<lparr>rvr_term = current_term (nodes D j), vote_granted = g\<rparr>))) \<in> mail E"
      using answer_pre_vote [OF D(2) j(1) D(6) [OF j(1) ne]] by metis
    let ?T = "current_term (nodes C j)"
    have Ei: "nodes E i = nodes D i" using E(3) ne by simp
    have ti: "current_term (nodes E i) < ?T" using False D(5) Ei by (simp add: current_term_def)
    have Dj: "nodes D j = nodes C j" using D(3) ne by blast
    have ok: "ok_run M sm u i (net u) (handle_event 0 (PreVoteReply ?t j (Inr (PreVoteR \<lparr>rvr_term = current_term (nodes D j),
        vote_granted = g\<rparr>))) (drained (nodes E i)))
        (\<lambda>L' n' s'. L' = lg_of u i \<and> role n' = Follower \<and> current_term n' = ?T)"
      using ok_run_mono [OF on_pre_vote_reply_ok [OF runs_start [OF E(2) i], of 0 ?t j
          "\<lparr>rvr_term = current_term (nodes D j), vote_granted = g\<rparr>"]] ti Dj by (simp add: handle_event_def)
    obtain F x n where F: "cstep_in {} M sm E F" "related M sm F x" "nodes F = (nodes E)(i := n)"
      "lg_of x i = lg_of u i \<and> role n = Follower \<and> current_term n = ?T"
      by (rule event_made [OF E(2) i E(4) ok])
    have "last_key n = last_key (nodes E i)"
      using holds_logD(2,3) [OF related_node(3) [OF F(2) i]] holds_logD(2,3) [OF related_node(3) [OF E(2) i]] F(3,4)
      by (simp add: last_key_def)
    then have k: "\<forall>k \<in> M. last_key (nodes F k) = last_key (nodes C k)"
      using F(3) E(3) D(3,5) by (auto simp: last_key_def)
    have l: "\<forall>k \<in> M. \<not> is_leader (nodes F k)"
      using F(3,4) E(3) D(3) nl ne by (auto simp: is_leader_def)
    have t: "\<forall>k \<in> M. current_term (nodes F k) \<le> current_term (nodes F i)"
      using F(3,4) E(3) D(3) j(2) ne by auto
    have "(cstep_in {} M sm)\<^sup>*\<^sup>* C F" using D(1) E(1) F(1) by (meson rtranclp.rtrancl_into_rtrancl rtranclp.rtrancl_refl)
    with F(2) k l t show ?thesis by blast
  qed
qed

subsection \<open>Collecting pre-votes and votes\<close>

lemma more_voters: "finite M \<Longrightarrow> V \<subseteq> M \<Longrightarrow> card V < card M div 2 + 1 \<Longrightarrow> 2 \<le> card M \<Longrightarrow> \<exists>j. j \<in> M - V"
  by (rule ccontr, cases "V = M") auto

lemma collect_pre_votes:
  assumes "related M sm C w" and "i \<in> M" and "2 \<le> card M" and "role (nodes C i) = PreCandidate V" and "i \<in> V" and "V \<subseteq> M"
    and "card V < card M div 2 + 1" and "current_term (nodes C i) = T"
    and "\<forall>p \<in> M - {i}. (i, p, PreVote (vote_args (T + 1) (nodes C i)), PreVoteCtx (T + 1)) \<in> wire C"
    and "\<forall>p \<in> M - {i}. \<not> is_leader (nodes C p) \<and> current_term (nodes C p) \<le> T \<and> ahead (nodes C i) (nodes C p)"
  shows "\<exists>C' w' a. (cstep_in {} M sm)\<^sup>*\<^sup>* C C' \<and> related M sm C' w' \<and> current_term (nodes C' i) = T + 1 \<and>
    role (nodes C' i) = Candidate {i} \<and> rv_term a = T + 1 \<and> candidate_id a = i \<and>
    (\<forall>p \<in> M - {i}. (i, p, RequestVote a, VoteCtx (T + 1)) \<in> wire C' \<and> log_up_to_date a (nodes C' p) \<and>
       current_term (nodes C' p) \<le> T)"
  using assms
proof (induction "card (M - V)" arbitrary: C w V rule: less_induct)
  case less
  note R = less.prems(1) and i = less.prems(2) and c = less.prems(3)
  have fin: "finite M" using R by (simp add: related_def)
  from more_voters [OF fin less.prems(6,7,3)] obtain j where j: "j \<in> M" "j \<notin> V" by blast
  then have ne: "j \<noteq> i" using less.prems(5) by blast
  obtain D v g where D: "cstep_in {} M sm C D" "related M sm D v" "nodes D = (nodes C)(j := drained (nodes C j))" "wire C \<subseteq> wire D"
    and m: "(i, PreVoteReply (T + 1) j (Inr (PreVoteR \<lparr>rvr_term = current_term (nodes C j), vote_granted = g\<rparr>))) \<in> mail D"
    and g: "\<not> is_leader (nodes C j) \<Longrightarrow> current_term (nodes C j) < rv_term (vote_args (T + 1) (nodes C i)) \<Longrightarrow>
      log_up_to_date (vote_args (T + 1) (nodes C i)) (nodes C j) \<Longrightarrow> g"
    using answer_pre_vote [OF R j(1), of i] less.prems(9) j(1) ne by (metis Diff_iff singletonD)
  let ?rep = "\<lparr>rvr_term = current_term (nodes C j), vote_granted = g\<rparr>"
  have "\<not> is_leader (nodes C j)" "current_term (nodes C j) \<le> T" "ahead (nodes C i) (nodes C j)"
    using less.prems(10) j(1) ne by auto
  then have gr: "vote_granted ?rep" using g by (simp add: ahead_args) (simp add: vote_args_def)
  have Di: "nodes D i = nodes C i" using D(3) ne by simp
  have s: "\<not> rvr_term ?rep > current_term (drained (nodes D i))" "T + 1 = current_term (drained (nodes D i)) + 1"
    "role (drained (nodes D i)) = PreCandidate V"
    using less.prems(4,8,10) j(1) ne Di by (auto simp: not_less)
  have VM: "insert j V \<inter> M = insert j V" using less.prems(6) j(1) by auto
  let ?P = "\<lambda>n'. if card (insert j V) \<ge> card M div 2 + 1 then campaigns M (drained (nodes C i)) n'
    else n' = (drained (nodes C i))\<lparr>role := PreCandidate (insert j V)\<rparr>"
  have ok: "ok_run M sm v i (net v) (handle_event 0 (PreVoteReply (T + 1) j (Inr (PreVoteR ?rep))) (drained (nodes D i)))
      (\<lambda>L' n' s'. ?P n')"
    using pre_vote_counts [OF runs_start [OF D(2) i] s(1,2) gr s(3), of 0 j, unfolded Di] related_node(2) [OF R i] Di VM
    by (simp add: handle_event_def)
  obtain E u n where E: "cstep_in {} M sm D E" "related M sm E u" "nodes E = (nodes D)(i := n)" "wire E = wire D \<union> posted i n" "?P n"
    by (rule event_made [OF D(2) i m ok])
  have CE: "(cstep_in {} M sm)\<^sup>*\<^sup>* C E" using D(1) E(1) by (meson rtranclp.rtrancl_into_rtrancl rtranclp.rtrancl_refl)
  have Ep: "drained (nodes E p) = drained (nodes C p)" if "p \<noteq> i" for p using that E(3) D(3) by auto
  show ?case
  proof (cases "card (insert j V) \<ge> card M div 2 + 1")
    case True
    let ?a = "vote_args (T + 1) (nodes C i)"
    have n: "current_term n = T + 1" "role n = Candidate {i}"
      "\<forall>p \<in> M - {i}. SendRpc p (RequestVote ?a) (VoteCtx (T + 1)) \<in> set (effects n)"
      using True E(5) less.prems(8) related_node(1,2) [OF R i] c by (auto simp: campaigns_def split: if_splits)
    have "log_up_to_date ?a (nodes E p) \<and> current_term (nodes E p) \<le> T" if "p \<in> M - {i}" for p
    proof -
      have "last_key (nodes E p) = last_key (nodes C p)" "current_term (nodes E p) = current_term (nodes C p)"
        using Ep [of p] that by (metis DiffD2 singletonI last_key_drained, metis DiffD2 singletonI drained_sel(5))
      then show ?thesis using less.prems(10) that ahead_key [of "nodes C i" "nodes C i" "nodes E p" "nodes C p"]
        by (simp add: ahead_args)
    qed
    then show ?thesis using CE E(2-4) n related_node(1) [OF R i]
      by (intro exI [of _ E] exI [of _ u] exI [of _ ?a]) (auto simp: posted_def vote_args_def)
  next
    case False
    then have n: "n = (drained (nodes C i))\<lparr>role := PreCandidate (insert j V)\<rparr>" using E(5) by simp
    have Ei: "nodes E i = n" using E(3) by simp
    have t: "current_term n = T" "vote_args (T + 1) n = vote_args (T + 1) (nodes C i)" "last_key n = last_key (nodes C i)"
      using n less.prems(8) by (simp_all add: current_term_def vote_args_def last_key_def drained_def)
    have others: "\<forall>p \<in> M - {i}. \<not> is_leader (nodes E p) \<and> current_term (nodes E p) \<le> T \<and> ahead (nodes E i) (nodes E p)"
    proof
      fix p assume p: "p \<in> M - {i}"
      then have d: "drained (nodes E p) = drained (nodes C p)" using Ep by blast
      then have "last_key (nodes E p) = last_key (nodes C p)" by (metis last_key_drained)
      then have "ahead (nodes E i) (nodes E p) = ahead (nodes C i) (nodes C p)" using t(3) Ei by (intro ahead_key) simp_all
      moreover have "is_leader (nodes E p) = is_leader (nodes C p)" "current_term (nodes E p) = current_term (nodes C p)"
        using d by (metis drained_sel(6), metis drained_sel(5))
      ultimately show "\<not> is_leader (nodes E p) \<and> current_term (nodes E p) \<le> T \<and> ahead (nodes E i) (nodes E p)"
        using less.prems(10) p by simp
    qed
    have lt: "card (M - insert j V) < card (M - V)"
      using j fin by (intro psubset_card_mono) auto
    have "\<exists>C' w' a. (cstep_in {} M sm)\<^sup>*\<^sup>* E C' \<and> related M sm C' w' \<and> current_term (nodes C' i) = T + 1 \<and>
      role (nodes C' i) = Candidate {i} \<and> rv_term a = T + 1 \<and> candidate_id a = i \<and>
      (\<forall>p \<in> M - {i}. (i, p, RequestVote a, VoteCtx (T + 1)) \<in> wire C' \<and> log_up_to_date a (nodes C' p) \<and>
         current_term (nodes C' p) \<le> T)"
      by (rule less.hyps [OF lt E(2) i c]) (use Ei n t False less.prems(5,6,9) j(1) E(4) D(4) others in auto)
    then show ?thesis using rtranclp_trans [OF CE] by blast
  qed
qed

lemma grant_vote:
  assumes c: "static_config M i (config n)" and t: "current_term n < rv_term a" and u: "log_up_to_date a n"
  shows "\<exists>n'. handle_request_vote now a n = Inr (n', \<lparr>rvr_term = rv_term a, vote_granted = True\<rparr>) \<and> current_term n' = rv_term a"
proof -
  let ?h = "\<lparr>hs_current_term = rv_term a, voted_for = None\<rparr>"
  from become_follower_eq [OF c less_imp_le [OF t], of now None] t obtain n1 where
    n1: "become_follower now (rv_term a) None n = Inr n1" "core n1 = core ((emit [Stored ((storage n)\<lparr>hard_state := ?h\<rparr>)]
      (n\<lparr>storage := (storage n)\<lparr>hard_state := ?h\<rparr>\<rparr>))\<lparr>role := Follower\<rparr>)" by auto
  then have s1: "storage n1 = (storage n)\<lparr>hard_state := ?h\<rparr>" "config n1 = config n" by (simp_all add: core_def)
  have u1: "log_up_to_date a n1" using u s1 by (simp add: log_up_to_date_def)
  let ?st = "(storage n1)\<lparr>hard_state := \<lparr>hs_current_term = rv_term a, voted_for = Some (candidate_id a)\<rparr>\<rparr>"
  let ?n = "emit [Stored ?st] (n1\<lparr>storage := ?st\<rparr>)"
  have "static_config M i (config ?n)" using c s1(2) by simp
  from reset_election_timer_ok [OF this, of now] obtain g d where
    "reset_election_timer now ?n = Inr (?n\<lparr>rng := g, election_deadline := d\<rparr>)" by blast
  with n1(1) s1 t u1 show ?thesis
    by (simp add: handle_request_vote_def Let_def store_def save_hard_state_def current_term_def)
qed

lemma collect_votes:
  assumes "related M sm C w" and "i \<in> M" and "2 \<le> card M" and "role (nodes C i) = Candidate V" and "i \<in> V" and "V \<subseteq> M"
    and "card V < card M div 2 + 1" and "current_term (nodes C i) = t" and "rv_term a = t"
    and "\<forall>p \<in> M - {i}. (i, p, RequestVote a, VoteCtx t) \<in> wire C \<and> current_term (nodes C p) \<le> t"
    and "\<forall>p \<in> M - V. log_up_to_date a (nodes C p) \<and> current_term (nodes C p) < t"
  shows "\<exists>C' w'. (cstep_in {} M sm)\<^sup>*\<^sup>* C C' \<and> related M sm C' w' \<and> is_leader (nodes C' i) \<and>
    (\<forall>p \<in> M. current_term (nodes C' p) \<le> current_term (nodes C' i))"
  using assms
proof (induction "card (M - V)" arbitrary: C w V rule: less_induct)
  case less
  note R = less.prems(1) and i = less.prems(2) and c = less.prems(3)
  have fin: "finite M" using R by (simp add: related_def)
  from more_voters [OF fin less.prems(6,7,3)] obtain j where j: "j \<in> M" "j \<notin> V" by blast
  then have ne: "j \<noteq> i" using less.prems(5) by blast
  have q: "(i, j, RequestVote a, VoteCtx t) \<in> wire C" using less.prems(10) j(1) ne by blast
  let ?rep = "\<lparr>rvr_term = t, vote_granted = True\<rparr>"
  have up: "log_up_to_date a (nodes C j)" "current_term (nodes C j) < t" using less.prems(11) j by auto
  have "log_up_to_date a (drained (nodes C j))" using up(1) by (simp add: log_up_to_date_def)
  with grant_vote [OF runsD(3) [OF runs_start [OF R j(1)]], of a 0] up(2) less.prems(9) obtain m where
    m: "handle_request_vote 0 a (drained (nodes C j)) = Inr (m, ?rep)" "current_term m = t" by auto
  obtain D v n b where D: "handle_inbound 0 (RequestVote a) (drained (nodes C j)) = Inr (n, b)" "cstep_in {} M sm C D"
    "related M sm D v" "nodes D = (nodes C)(j := n)" "wire C \<subseteq> wire D"
    "mail D = insert (i, event_of (VoteCtx t) j (Inr b)) (mail C)" and
    ev: "event_ok (net v) i (event_of (VoteCtx t) j (Inr b))" by (rule request_answered [OF R j(1) q])
  have n: "n = m" "b = RequestVoteR ?rep" using D(1) m(1) by (auto simp: handle_inbound_def)
  have Di: "nodes D i = nodes C i" using D(4) ne by simp
  have s: "\<not> rvr_term ?rep > current_term (drained (nodes D i))" "t = current_term (drained (nodes D i))"
    "vote_granted ?rep" "role (drained (nodes D i)) = Candidate V"
    using less.prems(4,8) Di by simp_all
  have ev': "event_ok (net v) i (VoteReply t j (Inr (RequestVoteR ?rep)))" using ev n(2) by simp
  have VM: "insert j V \<inter> M = insert j V" using less.prems(6) j(1) by auto
  let ?P = "\<lambda>n'. current_term n' = t \<and> (if card (insert j V) < card M div 2 + 1
    then n' = (drained (nodes C i))\<lparr>role := Candidate (insert j V)\<rparr> else is_leader n')"
  have ok: "ok_run M sm v i (net v) (handle_event 0 (VoteReply t j (Inr (RequestVoteR ?rep))) (drained (nodes D i)))
      (\<lambda>L' n' s'. ?P n')"
    using vote_counts [OF runs_start [OF D(3) i] ev' s, of 0, unfolded Di] related_node(2) [OF R i] Di VM less.prems(8)
    by (simp add: handle_event_def)
  have mail: "(i, VoteReply t j (Inr (RequestVoteR ?rep))) \<in> mail D" using D(6) n(2) by simp
  obtain E u n' where E: "cstep_in {} M sm D E" "related M sm E u" "nodes E = (nodes D)(i := n')"
    "wire E = wire D \<union> posted i n'" "?P n'"
    by (rule event_made [OF D(3) i mail ok])
  have CE: "(cstep_in {} M sm)\<^sup>*\<^sup>* C E" using D(2) E(1) by (meson rtranclp.rtrancl_into_rtrancl rtranclp.rtrancl_refl)
  have Ep: "nodes E p = nodes C p" if "p \<noteq> i" "p \<noteq> j" for p using that E(3) D(4) by simp
  have Ej: "current_term (nodes E j) = t" using E(3) D(4) ne n(1) m(2) by simp
  have terms: "current_term (nodes E p) \<le> t" if "p \<in> M" for p
    using that Ep [of p] Ej E(3,5) less.prems(10) by (cases "p = i"; cases "p = j") auto
  show ?case
  proof (cases "card (insert j V) < card M div 2 + 1")
    case False
    then have "is_leader (nodes E i)" "current_term (nodes E i) = t" using E(3,5) by simp_all
    with CE E(2) terms show ?thesis by blast
  next
    case True
    then have n': "n' = (drained (nodes C i))\<lparr>role := Candidate (insert j V)\<rparr>" using E(5) by simp
    have lt: "card (M - insert j V) < card (M - V)"
      using j fin by (intro psubset_card_mono) auto
    have rest: "\<forall>p \<in> M - insert j V. log_up_to_date a (nodes E p) \<and> current_term (nodes E p) < t"
      using less.prems(5,11) Ep by (metis Diff_iff insertCI)
    have "\<exists>C' w'. (cstep_in {} M sm)\<^sup>*\<^sup>* E C' \<and> related M sm C' w' \<and> is_leader (nodes C' i) \<and>
      (\<forall>p \<in> M. current_term (nodes C' p) \<le> current_term (nodes C' i))"
    proof (rule less.hyps [OF lt E(2) i c _ _ _ True _ less.prems(9) _ rest])
      show "role (nodes E i) = Candidate (insert j V)" using E(3) n' by simp
      show "current_term (nodes E i) = t" using E(3,5) by simp
      show "\<forall>p \<in> M - {i}. (i, p, RequestVote a, VoteCtx t) \<in> wire E \<and> current_term (nodes E p) \<le> t"
        using E(4) D(5) terms less.prems(10) by auto
    qed (use less.prems(5,6) j(1) in auto)
    then show ?thesis using rtranclp_trans [OF CE] by blast
  qed
qed

text \<open>Every state has a continuation in which some node leads with the highest term.\<close>

lemma elect:
  assumes R: "related M sm C w" and ne: "M \<noteq> {}"
  shows "\<exists>C' w' i. (cstep_in {} M sm)\<^sup>*\<^sup>* C C' \<and> related M sm C' w' \<and> i \<in> M \<and> is_leader (nodes C' i) \<and>
    (\<forall>p \<in> M. current_term (nodes C' p) \<le> current_term (nodes C' i))"
proof (cases "2 \<le> card M")
  case True
  have fin: "finite M" using R by (simp add: related_def)
  from all_step_down [OF R True] obtain D v where
    D: "(cstep_in {} M sm)\<^sup>*\<^sup>* C D" "related M sm D v" "\<forall>j \<in> M. \<not> is_leader (nodes D j)" by blast
  from ex_ahead [OF fin ne, of "nodes D"] obtain i where i: "i \<in> M" "\<forall>j \<in> M. ahead (nodes D i) (nodes D j)" by blast
  from learn_term [OF D(2) True i(1) D(3)] obtain E u where
    E: "(cstep_in {} M sm)\<^sup>*\<^sup>* D E" "related M sm E u" "\<forall>j \<in> M. \<not> is_leader (nodes E j)"
    "\<forall>j \<in> M. current_term (nodes E j) \<le> current_term (nodes E i)" "\<forall>j \<in> M. last_key (nodes E j) = last_key (nodes D j)" by blast
  let ?T = "current_term (nodes E i)"
  obtain F x where F: "cstep_in {} M sm E F" "related M sm F x" "\<And>j. j \<noteq> i \<Longrightarrow> nodes F j = nodes E j"
    "role (nodes F i) = PreCandidate {i}" "storage (nodes F i) = storage (nodes E i)"
    "\<And>p. p \<in> M \<Longrightarrow> p \<noteq> i \<Longrightarrow> (i, p, PreVote (vote_args (?T + 1) (nodes E i)), PreVoteCtx (?T + 1)) \<in> wire F"
    using ask_pre_votes [OF E(2) i(1) True] E(3) i(1) by metis
  have T: "current_term (nodes F i) = ?T" using F(5) by (simp add: current_term_def)
  have va: "vote_args (?T + 1) (nodes F i) = vote_args (?T + 1) (nodes E i)"
    using F(5) related_node(1) [OF F(2) i(1)] related_node(1) [OF E(2) i(1)] by (simp add: vote_args_def)
  have "ahead (nodes F i) (nodes F p)" if "p \<in> M - {i}" for p
    using that i F(3,5) E(5) ahead_key [of "nodes F i" "nodes D i" "nodes F p" "nodes D p"] by (simp add: last_key_def)
  then have A: "\<forall>p \<in> M - {i}. \<not> is_leader (nodes F p) \<and> current_term (nodes F p) \<le> ?T \<and> ahead (nodes F i) (nodes F p)"
    using F(3) E(3,4) by auto
  have W: "\<forall>p \<in> M - {i}. (i, p, PreVote (vote_args (?T + 1) (nodes F i)), PreVoteCtx (?T + 1)) \<in> wire F"
    using F(6) unfolding va by blast
  have one: "i \<in> {i}" "{i} \<subseteq> M" "card {i} < card M div 2 + 1" using i(1) True by auto
  from collect_pre_votes [OF F(2) i(1) True F(4) one T W A] obtain G y a where
    G: "(cstep_in {} M sm)\<^sup>*\<^sup>* F G" "related M sm G y" "current_term (nodes G i) = ?T + 1" "role (nodes G i) = Candidate {i}"
    "rv_term a = ?T + 1" "\<forall>p \<in> M - {i}. (i, p, RequestVote a, VoteCtx (?T + 1)) \<in> wire G \<and> log_up_to_date a (nodes G p) \<and>
      current_term (nodes G p) \<le> ?T" by blast
  have "\<forall>p \<in> M - {i}. (i, p, RequestVote a, VoteCtx (?T + 1)) \<in> wire G \<and> current_term (nodes G p) \<le> ?T + 1"
    "\<forall>p \<in> M - {i}. log_up_to_date a (nodes G p) \<and> current_term (nodes G p) < ?T + 1"
    using G(6) by (simp_all add: le_SucI less_Suc_eq_le)
  from collect_votes [OF G(2) i(1) True G(4) one G(3,5) this] obtain H z where
    "(cstep_in {} M sm)\<^sup>*\<^sup>* G H" "related M sm H z" "is_leader (nodes H i)"
    "\<forall>p \<in> M. current_term (nodes H p) \<le> current_term (nodes H i)" by blast
  moreover have "(cstep_in {} M sm)\<^sup>*\<^sup>* C F" by (rule rtranclp.rtrancl_into_rtrancl [OF rtranclp_trans [OF D(1) E(1)] F(1)])
  ultimately show ?thesis using i(1) rtranclp_trans [OF _ rtranclp_trans [OF G(1)]] by blast
next
  case False
  have "finite M" using R by (simp add: related_def)
  with False ne have "card M = 1" using card_gt_0_iff [of M] by linarith
  then obtain i where M: "M = {i}" by (auto simp: card_1_singleton_iff)
  show ?thesis
  proof (cases "is_leader (nodes C i)")
    case True
    with R M show ?thesis by (intro exI [of _ C] exI [of _ w] exI [of _ i]) simp
  next
    case nl: False
    let ?n = "drained (nodes C i)"
    have i: "i \<in> M" using M by simp
    have m: "majority ?n \<le> 1" using related_node(2) [OF R i] M by simp
    have ok: "ok_run M sm w i (net w) (on_election_timeout 0 ?n) (\<lambda>L' n' s'. is_leader n')"
      by (rule ok_run_mono [OF on_election_timeout_ok [OF runs_start [OF R i]]]) (use m nl in \<open>simp_all add: campaigns_def\<close>)
    have t: "turn_enabled C i ElectionTimer"
      "take_turn 0 ElectionTimer ?n = bind_r (on_election_timeout 0 ?n) (\<lambda>n. Inr (True, None, n))"
      using nl by (simp_all add: turn_enabled_def take_turn_def)
    obtain C' w' n where C': "cstep_in {} M sm C C'" "related M sm C' w'" "nodes C' = (nodes C)(i := n)" "is_leader n"
      by (rule turn_made [OF R i t ok])
    then show ?thesis using M by (intro exI [of _ C'] exI [of _ w'] exI [of _ i]) auto
  qed
qed

end
