(* ===== verification/Progress.thy ===== *)
theory Progress
  imports Election Cluster_Example
begin

section \<open>A cluster can always make progress\<close>

text \<open>
  A leader with the highest term brings every member up to date: it asks a peer from the next index it believes
  in, backs up while the peer rejects, ships its snapshot when the entries before it are gone, and continues after
  the snapshot. Each exchange is one request and its reply. The measure is the next index while the leader backs
  up, and the distance from the snapshot's boundary to the end of the log afterwards. So, whatever was
  lost, delayed or crashed before, a cluster whose members run and whose messages arrive commits and applies the next command.
\<close>

declare cluster_simps [simp del]

subsection \<open>What one exchange keeps\<close>

definition leading where
  "leading M i t L C w \<longleftrightarrow> i \<in> M \<and> holding M (nodes C i) L \<and> lg_of w i = L \<and> current_term (nodes C i) = t \<and>
     (\<forall>p \<in> M. current_term (nodes C p) \<le> t)"

definition awaits where
  "awaits i t k C p nxt \<longleftrightarrow> (\<exists>l rq x. role (nodes C i) = Leader l \<and> nxt = nxt_of l p k \<and> (i, p, rq, x) \<in> wire C \<and> asked t k nxt x)"

definition kept where
  "kept i j C C' \<longleftrightarrow> wire C \<subseteq> wire C' \<and> (\<exists>l l'. role (nodes C i) = Leader l \<and> role (nodes C' i) = Leader l' \<and>
     (\<forall>q. q \<noteq> j \<longrightarrow> next_index l' q = next_index l q) \<and>
     (\<forall>q. entry_or (match_index l) q 0 \<le> entry_or (match_index l') q 0))"

lemma kept_refl: "is_leader (nodes C i) \<Longrightarrow> kept i j C C"
  by (auto simp: kept_def is_leader_def split: role.splits)

lemma kept_trans: "kept i j C D \<Longrightarrow> kept i j D E \<Longrightarrow> kept i j C E"
  unfolding kept_def by (fastforce intro: le_trans)

lemma kept_awaits: "kept i j C D \<Longrightarrow> q \<noteq> j \<Longrightarrow> awaits i t k C q nxt \<Longrightarrow> awaits i t k D q nxt"
  by (fastforce simp: kept_def awaits_def nxt_of_def)

lemma kept_matched: "kept i j C D \<Longrightarrow> matched (nodes C i) q m \<Longrightarrow> matched (nodes D i) q m"
  by (fastforce simp: kept_def matched_def intro: le_trans)

text \<open>Steps without crashes in which the leader \<open>i\<close> is busy with the peer \<open>j\<close>: its waiters wait on, or are told in a state
  on the way that their entry is committed.\<close>

definition goes where
  "goes M sm L i j C C' \<longleftrightarrow> (cstep_in {} M sm)\<^sup>*\<^sup>* C C' \<and> kept i j C C' \<and>
     (\<forall>p. awaiting L (nodes C i) p \<longrightarrow> awaiting L (nodes C' i) p \<or>
       (\<exists>E. (cstep_in {} M sm)\<^sup>*\<^sup>* C E \<and> (cstep_in {} M sm)\<^sup>*\<^sup>* E C' \<and> Committed p True \<in> set (effects (nodes E i))))"

lemma goes_trans:
  assumes "goes M sm L i j C D" and "goes M sm L i j D E"
  shows "goes M sm L i j C E"
proof -
  let ?st = "(cstep_in {} M sm)\<^sup>*\<^sup>*"
  have s: "?st C D" "?st D E" "kept i j C E" using assms kept_trans by (auto simp: goes_def)
  have "awaiting L (nodes E i) p \<or> (\<exists>F. ?st C F \<and> ?st F E \<and> Committed p True \<in> set (effects (nodes F i)))"
    if "awaiting L (nodes C i) p" for p
    using assms that rtranclp_trans [OF s(1)] rtranclp_trans [OF _ s(2)] unfolding goes_def by meson
  with s(3) rtranclp_trans [OF s(1,2)] show ?thesis by (simp add: goes_def)
qed

lemma holding_drained [simp]: "holding M (drained n) L = holding M n L"
  by (simp add: holding_def caught_up_def known_match_def)

lemma leading_leader: "leading M i t L C w \<Longrightarrow> is_leader (nodes C i)"
  by (simp add: leading_def holding_def)

text \<open>The peer takes a request.\<close>

lemma delivered:
  assumes "leading M i t L C w" and "j \<noteq> i" and "nodes D = (nodes C)(j := n)" and "current_term n = t"
    and "\<forall>k. k \<noteq> j \<longrightarrow> lg_of v k = lg_of w k" and "wire C \<subseteq> wire D"
    and "cstep_in {} M sm C D"
  shows "leading M i t L D v" and "goes M sm L i j C D"
  using assms kept_refl [OF leading_leader [OF assms(1)], of j] by (auto simp: leading_def kept_def goes_def)

lemma append_accepted:
  assumes R: "related M sm C w" and j: "j \<in> M" and a: "MAppend t p kt es c \<in> msgs (net w)"
    and p: "p = 0 \<or> MAck t j p \<in> msgs (net w) \<and> current_term (nodes C j) = t"
    and args: "prev_log_index a = p" "prev_log_term a = kt"
  shows "prev_matches (storage (nodes C j)) a"
proof -
  let ?L = "lg_of w j"
  note H = holds_logD [OF related_node(3) [OF R j]]
  have I: "inv_appends w" using R by (simp add: related_def inv_def)
  from inv_appendsD(1) [OF I a] obtain d Lt where Lt: "ld w t = Some (d, Lt)" "p \<le> length Lt" "kt = lterm Lt p" by auto
  have "p \<le> length ?L \<and> lterm ?L p = kt"
  proof (cases "p = 0")
    case True
    with Lt(3) show ?thesis by (simp add: lterm_def)
  next
    case False
    with p have "MAck t j p \<in> msgs (net w)" "trm w j = t" using related_node(4) [OF R j] by auto
    with inv_appendsD(3) [OF I, of t j p] Lt(1) have "p \<le> length ?L" "take p ?L = take p Lt" by auto
    with lterm_take [of p p ?L Lt] Lt(2,3) show ?thesis by simp
  qed
  then show ?thesis
    using H(4,6) [of p] args by (cases "p < snapshot_index (storage (nodes C j))") (auto simp: prev_matches_def)
qed

lemma answer_append:
  assumes R: "related M sm C w" and le: "leading M i t L C w" and j: "j \<in> M" "j \<noteq> i"
    and q: "(i, j, rq, AppendCtx t p k x) \<in> wire C"
  obtains D v rep where "related M sm D v" and "leading M i t L D v" and "goes M sm L i j C D"
    and "nodes D i = nodes C i" and "(i, AppendReply t j p k x (Inr (AppendEntriesR rep))) \<in> mail D" and "aer_term rep = t"
    and "p = 0 \<or> MAck t j p \<in> msgs (net w) \<and> current_term (nodes C j) = t \<Longrightarrow> success rep"
proof -
  from R q have "req_ok sm (net w) i rq (AppendCtx t p k x)" by (auto simp: related_def)
  then obtain a where a: "rq = AppendEntries a" "req_ok sm (net w) i (AppendEntries a) (AppendCtx t p k x)" by (cases rq) auto
  let ?n = "drained (nodes C j)"
  obtain D v n b where D: "handle_inbound 0 rq ?n = Inr (n, b)" "cstep_in {} M sm C D" "related M sm D v"
    "nodes D = (nodes C)(j := n)" "wire C \<subseteq> wire D" "mail D = insert (i, event_of (AppendCtx t p k x) j (Inr b)) (mail C)"
    "\<forall>k. k \<noteq> j \<longrightarrow> lg_of v k = lg_of w k"
    by (rule request_answered [OF R j(1) q, of 0]) blast
  from D(1) a(1) obtain rep where rep: "handle_append_entries 0 a ?n = Inr (n, rep)" "b = AppendEntriesR rep"
    by (auto simp: handle_inbound_def bind_r_Inr_iff)
  have "current_term ?n \<le> t" using le j(1) by (simp add: leading_def)
  with handle_append_entries_ok [OF runs_start [OF R j(1)] a(2), of 0, unfolded rep(1) wp_Inr prod.case]
  have n: "current_term n = t" "aer_term rep = t" "success rep = prev_matches (storage ?n) a" by blast+
  from a(2) have q': "MAppend t p (prev_log_term a) (entries a) (leader_commit a) \<in> msgs (net w)" "prev_log_index a = p"
    by auto
  have acc: "success rep" if "p = 0 \<or> MAck t j p \<in> msgs (net w) \<and> current_term (nodes C j) = t"
    unfolding n(3) drained_sel by (rule append_accepted [OF R j(1) q'(1) that q'(2) refl])
  show thesis
    by (rule that [OF D(3) delivered [OF le j(2) D(4) n(1) D(7,5,2)] _ _ n(2) acc]) (use D(4,6) j(2) rep(2) in auto)
qed

lemma answer_install:
  assumes R: "related M sm C w" and le: "leading M i t L C w" and j: "j \<in> M" "j \<noteq> i"
    and q: "(i, j, rq, InstallCtx t b) \<in> wire C"
  obtains D v rep where "related M sm D v" and "leading M i t L D v" and "goes M sm L i j C D"
    and "nodes D i = nodes C i" and "(i, InstallSnapshotReply t j b (Inr (InstallSnapshotR rep))) \<in> mail D" and "isr_term rep = t"
    and "current_term (nodes D j) = t"
proof -
  from R q have "req_ok sm (net w) i rq (InstallCtx t b)" by (auto simp: related_def)
  then obtain a where a: "rq = InstallSnapshot a" "req_ok sm (net w) i (InstallSnapshot a) (InstallCtx t b)" by (cases rq) auto
  let ?n = "drained (nodes C j)"
  obtain D v n c where D: "handle_inbound 0 rq ?n = Inr (n, c)" "cstep_in {} M sm C D" "related M sm D v"
    "nodes D = (nodes C)(j := n)" "wire C \<subseteq> wire D" "mail D = insert (i, event_of (InstallCtx t b) j (Inr c)) (mail C)"
    "\<forall>k. k \<noteq> j \<longrightarrow> lg_of v k = lg_of w k"
    by (rule request_answered [OF R j(1) q, of 0]) blast
  from D(1) a(1) obtain rep where rep: "handle_install_snapshot 0 a ?n = Inr (n, rep)" "c = InstallSnapshotR rep"
    by (auto simp: handle_inbound_def bind_r_Inr_iff)
  have "current_term ?n \<le> t" using le j(1) by (simp add: leading_def)
  with handle_install_snapshot_ok [OF runs_start [OF R j(1)] a(2), of 0, unfolded rep(1) wp_Inr prod.case]
  have n: "current_term n = t" "isr_term rep = t" by blast+
  show thesis
    by (rule that [OF D(3) delivered [OF le j(2) D(4) n(1) D(7,5,2)] _ _ n(2)]) (use D(4,6) j(2) rep(2) n(1) in auto)
qed

text \<open>The leader takes the reply.\<close>

lemma reply_taken:
  assumes le: "leading M i t L D v" and E: "nodes E = (nodes D)(i := n)" "wire E = wire D \<union> posted i n"
    and r: "replied M L j (drained (nodes D i)) n" and u: "lg_of u i = L" and st: "cstep_in {} M sm D E"
  shows "leading M i t L E u" and "goes M sm L i j D E"
    and "requested n L j nxt \<Longrightarrow> awaits i t (length L) E j nxt"
proof -
  from r obtain l l' where l: "current_term n = t" "holding M n L" "role (nodes D i) = Leader l" "role n = Leader l'"
    "\<forall>q. q \<noteq> j \<longrightarrow> next_index l' q = next_index l q" "\<forall>q. entry_or (match_index l) q 0 \<le> entry_or (match_index l') q 0"
    using le by (auto simp: replied_def leading_def)
  then show "leading M i t L E u" using le E(1) u by (simp add: leading_def)
  have "kept i j D E" using l E by (auto simp: kept_def)
  moreover have "awaiting L n p \<or> Committed p True \<in> set (effects n)" if "awaiting L (nodes D i) p" for p
    using r that by (auto simp: replied_def answers_def awaiting_def drained_def)
  moreover have "(cstep_in {} M sm)\<^sup>*\<^sup>* D E" using st by blast
  ultimately show "goes M sm L i j D E" unfolding goes_def E(1) fun_upd_same by (metis E(1) fun_upd_same rtranclp.rtrancl_refl)
  show "awaits i t (length L) E j nxt" if "requested n L j nxt"
    using that E l(1) unfolding requested_def awaits_def posted_def by auto
qed

lemma take_append_reply:
  assumes R: "related M sm D v" and le: "leading M i t L D v" and j: "j \<in> M" and l: "role (nodes D i) = Leader l"
    and m: "(i, AppendReply t j p k x (Inr (AppendEntriesR rep))) \<in> mail D" and rep: "aer_term rep = t"
  obtains E u where "related M sm E u" and "leading M i t L E u" and "goes M sm L i j D E"
    and "success rep \<Longrightarrow> matched (nodes E i) j (p + k)"
    and "\<not> success rep \<Longrightarrow> awaits i t (length L) E j (min (entry_or (next_index l) j 1) (max p 1))"
proof -
  let ?n = "drained (nodes D i)"
  have i: "i \<in> M" and t: "current_term ?n = t" and L: "lg_of v i = L" using le by (simp_all add: leading_def)
  have e: "event_ok (net v) i (AppendReply t j p k x (Inr (AppendEntriesR rep)))" using R m unfolding related_def by blast
  have "\<not> aer_term rep > current_term ?n" "role ?n = Leader l" using rep t l by simp_all
  note ok = append_reply_counts [OF runs_start [OF R i, unfolded L] e this(1) t [symmetric] this(2), of 0]
  have h: "handle_event 0 (AppendReply t j p k x (Inr (AppendEntriesR rep))) ?n = on_append_reply 0 t j p k x rep ?n"
    by (simp add: handle_event_def)
  obtain E u n where E: "cstep_in {} M sm D E" "related M sm E u" "nodes E = (nodes D)(i := n)" "wire E = wire D \<union> posted i n"
    and n: "lg_of u i = L \<and> replied M L j ?n n \<and> (if success rep then matched n j (p + k)
      else j \<in> M \<longrightarrow> requested n L j (min (entry_or (next_index l) j 1) (max p 1)))"
    by (rule event_made [OF R i m ok [folded h]])
  from n have "replied M L j ?n n" "lg_of u i = L" by blast+
  note K = reply_taken [OF le E(3,4) this E(1)]
  show thesis by (rule that [OF E(2) K(1,2)]) (use n j E(3) K(3) in auto)
qed

lemma take_install_reply:
  assumes R: "related M sm D v" and le: "leading M i t L D v" and j: "j \<in> M" and l: "role (nodes D i) = Leader l"
    and m: "(i, InstallSnapshotReply t j b (Inr (InstallSnapshotR rep))) \<in> mail D" and rep: "isr_term rep = t"
  obtains E u where "related M sm E u" and "leading M i t L E u" and "goes M sm L i j D E"
    and "matched (nodes E i) j b" and "MAck t j b \<in> msgs (net u)" and "\<And>q. q \<noteq> i \<Longrightarrow> nodes E q = nodes D q"
    and "b < length L \<Longrightarrow> awaits i t (length L) E j (max (entry_or (next_index l) j 1) (b + 1))"
proof -
  let ?n = "drained (nodes D i)"
  have i: "i \<in> M" and t: "current_term ?n = t" and L: "lg_of v i = L" using le by (simp_all add: leading_def)
  have e: "event_ok (net v) i (InstallSnapshotReply t j b (Inr (InstallSnapshotR rep)))" using R m unfolding related_def by blast
  have "\<not> isr_term rep > current_term ?n" "role ?n = Leader l" using rep t l by simp_all
  note ok = install_reply_counts [OF runs_start [OF R i, unfolded L] e this(1) t [symmetric] this(2), of 0]
  have h: "handle_event 0 (InstallSnapshotReply t j b (Inr (InstallSnapshotR rep))) ?n = on_install_snapshot_reply 0 t j b rep ?n"
    by (simp add: handle_event_def)
  obtain E u n where E: "cstep_in {} M sm D E" "related M sm E u" "nodes E = (nodes D)(i := n)" "wire E = wire D \<union> posted i n"
    and n: "lg_of u i = L \<and> replied M L j ?n n \<and> matched n j b \<and>
      (b < length L \<longrightarrow> j \<in> M \<longrightarrow> requested n L j (max (entry_or (next_index l) j 1) (b + 1)))"
    and s: "msgs (net v) \<subseteq> msgs (net u)"
    by (rule event_made [OF R i m ok [folded h]])
  from n have "replied M L j ?n n" "lg_of u i = L" by blast+
  note K = reply_taken [OF le E(3,4) this E(1)]
  have "MAck t j b \<in> msgs (net u)" using e rep s by auto
  then show thesis using that [OF E(2) K(1,2)] n j E(3) K(3) by auto
qed

subsection \<open>One peer\<close>

text \<open>A peer that acknowledged up to the boundary of a snapshot accepts what follows it.\<close>

lemma sync_install:
  assumes "related M sm C w" and "leading M i t L C w" and "j \<in> M" and "j \<noteq> i" and "role (nodes C i) = Leader l"
    and "(i, j, rq, InstallCtx t b) \<in> wire C" and "nxt_of l j (length L) \<le> b" and "b \<le> length L"
  shows "\<exists>C' w'. related M sm C' w' \<and> leading M i t L C' w' \<and> goes M sm L i j C C' \<and>
    matched (nodes C' i) j (length L)"
  using assms
proof (induction "length L - b" arbitrary: C w l rq b rule: less_induct)
  case less
  note j = less.prems(3,4)
  obtain D v rep where D: "related M sm D v" "leading M i t L D v" "goes M sm L i j C D"
    "nodes D i = nodes C i" "(i, InstallSnapshotReply t j b (Inr (InstallSnapshotR rep))) \<in> mail D" "isr_term rep = t"
    "current_term (nodes D j) = t" by (rule answer_install [OF less.prems(1,2) j less.prems(6)])
  have l: "role (nodes D i) = Leader l" using D(4) less.prems(5) by simp
  obtain E u where E: "related M sm E u" "leading M i t L E u" "goes M sm L i j D E" "matched (nodes E i) j b"
    "MAck t j b \<in> msgs (net u)" "\<And>q. q \<noteq> i \<Longrightarrow> nodes E q = nodes D q"
    "b < length L \<Longrightarrow> awaits i t (length L) E j (max (entry_or (next_index l) j 1) (b + 1))"
    by (rule take_install_reply [OF D(1,2) j(1) l D(5,6)]) blast
  note CE = goes_trans [OF D(3) E(3)]
  show ?case
  proof (cases "b < length L")
    case False
    with less.prems(8) E(4) have "matched (nodes E i) j (length L)" by simp
    with CE E(1,2) show ?thesis by blast
  next
    case True
    have "entry_or (next_index l) j 1 \<le> b + 1"
      using less.prems(7,8) by (auto simp: entry_or_def nxt_of_def split: option.splits)
    with E(7) [OF True] have "awaits i t (length L) E j (b + 1)" by (simp add: max_def)
    then obtain l' rq' x where l': "role (nodes E i) = Leader l'" "nxt_of l' j (length L) = b + 1" "(i, j, rq', x) \<in> wire E"
      "asked t (length L) (b + 1) x" unfolding awaits_def by metis
    from l'(4) consider p k q where "x = AppendCtx t p k q" "p + k = length L" "p = b"
      | b' where "x = InstallCtx t b'" "b + 1 \<le> b'" "b' \<le> length L" unfolding asked_def by auto
    then show ?thesis
    proof cases
      case 1
      have tj: "current_term (nodes E j) = t" using E(6) [OF j(2)] D(7) by simp
      obtain F y rep' where F: "related M sm F y" "leading M i t L F y" "goes M sm L i j E F"
        "nodes F i = nodes E i" "(i, AppendReply t j p k q (Inr (AppendEntriesR rep'))) \<in> mail F" "aer_term rep' = t"
        "p = 0 \<or> MAck t j p \<in> msgs (net u) \<and> current_term (nodes E j) = t \<Longrightarrow> success rep'"
        using answer_append [OF E(1,2) j l'(3) [unfolded 1(1)]] by metis
      have s: "success rep'" using F(7) E(5) tj 1(3) by simp
      have "role (nodes F i) = Leader l'" using F(4) l'(1) by simp
      from take_append_reply [OF F(1,2) j(1) this F(5,6)] s obtain G z where
        G: "related M sm G z" "leading M i t L G z" "goes M sm L i j F G" "matched (nodes G i) j (p + k)" by metis
      then show ?thesis using 1(2) goes_trans [OF CE goes_trans [OF F(3) G(3)]] by auto
    next
      case 2
      have "length L - b' < length L - b" using 2(2,3) by simp
      from less.hyps [OF this E(1,2) j l'(1) l'(3) [unfolded 2(1)] _ 2(3)] l'(2) 2(2) obtain C' w' where
        "related M sm C' w'" "leading M i t L C' w'" "goes M sm L i j E C'" "matched (nodes C' i) j (length L)" by auto
      then show ?thesis using goes_trans [OF CE] by blast
    qed
  qed
qed

lemma sync_peer:
  assumes "related M sm C w" and "leading M i t L C w" and "j \<in> M" and "j \<noteq> i" and "awaits i t (length L) C j nxt"
  shows "\<exists>C' w'. related M sm C' w' \<and> leading M i t L C' w' \<and> goes M sm L i j C C' \<and>
    matched (nodes C' i) j (length L)"
  using assms
proof (induction nxt arbitrary: C w rule: less_induct)
  case (less nxt)
  note j = less.prems(3,4)
  from less.prems(5) obtain l rq x where l: "role (nodes C i) = Leader l" "nxt = nxt_of l j (length L)" "(i, j, rq, x) \<in> wire C"
    "asked t (length L) nxt x" unfolding awaits_def by metis
  from l(4) consider p k q where "x = AppendCtx t p k q" "p + k = length L" "nxt = Suc p"
    | b where "x = InstallCtx t b" "nxt \<le> b" "b \<le> length L" unfolding asked_def by auto
  then show ?case
  proof cases
    case 1
    obtain D v rep where D: "related M sm D v" "leading M i t L D v" "goes M sm L i j C D"
      "nodes D i = nodes C i" "(i, AppendReply t j p k q (Inr (AppendEntriesR rep))) \<in> mail D" "aer_term rep = t"
      "p = 0 \<Longrightarrow> success rep"
      using answer_append [OF less.prems(1,2) j l(3) [unfolded 1(1)]] by metis
    have "role (nodes D i) = Leader l" using D(4) l(1) by simp
    from take_append_reply [OF D(1,2) j(1) this D(5,6)] obtain E u where
      E: "related M sm E u" "leading M i t L E u" "goes M sm L i j D E"
      "success rep \<Longrightarrow> matched (nodes E i) j (p + k)"
      "\<not> success rep \<Longrightarrow> awaits i t (length L) E j (min (entry_or (next_index l) j 1) (max p 1))" by metis
    note CE = goes_trans [OF D(3) E(3)]
    show ?thesis
    proof (cases "success rep")
      case True
      with E(4) 1(2) CE E(1,2) show ?thesis by auto
    next
      case False
      then have "min (entry_or (next_index l) j 1) (max p 1) < nxt" using 1(3) D(7) by (cases "p = 0") auto
      from less.IH [OF this E(1,2) j E(5) [OF False]] obtain C' w' where
        "related M sm C' w'" "leading M i t L C' w'" "goes M sm L i j E C'" "matched (nodes C' i) j (length L)" by blast
      then show ?thesis using goes_trans [OF CE] by blast
    qed
  next
    case 2
    from sync_install [OF less.prems(1,2) j l(1) l(3) [unfolded 2(1)] _ 2(3)] l(2) 2(2) show ?thesis by simp
  qed
qed

subsection \<open>All peers\<close>

definition told_on where
  "told_on M sm i p C C' \<longleftrightarrow> (\<exists>E. (cstep_in {} M sm)\<^sup>*\<^sup>* C E \<and> (cstep_in {} M sm)\<^sup>*\<^sup>* E C' \<and>
     Committed (waiter_of p) True \<in> set (effects (nodes E i)))"

lemma told_goes:
  assumes "(cstep_in {} M sm)\<^sup>*\<^sup>* B C" and "awaiting L (nodes C i) (waiter_of p) \<or> told_on M sm i p B C" and "goes M sm L i j C D"
  shows "(cstep_in {} M sm)\<^sup>*\<^sup>* B D" and "awaiting L (nodes D i) (waiter_of p) \<or> told_on M sm i p B D"
proof -
  have CD: "(cstep_in {} M sm)\<^sup>*\<^sup>* C D" using assms(3) by (simp add: goes_def)
  show "(cstep_in {} M sm)\<^sup>*\<^sup>* B D" by (rule rtranclp_trans [OF assms(1) CD])
  from assms(2) show "awaiting L (nodes D i) (waiter_of p) \<or> told_on M sm i p B D"
  proof
    assume "awaiting L (nodes C i) (waiter_of p)"
    with assms(3) rtranclp_trans [OF assms(1)] show ?thesis unfolding goes_def told_on_def by meson
  next
    assume "told_on M sm i p B C"
    with rtranclp_trans [OF _ CD] show ?thesis unfolding told_on_def by blast
  qed
qed

lemma sync_all:
  assumes "related M sm C w" and "leading M i t L C w"
    and "\<forall>q \<in> M - {i}. matched (nodes C i) q (length L) \<or> (\<exists>nxt. awaits i t (length L) C q nxt)"
    and "(cstep_in {} M sm)\<^sup>*\<^sup>* B C" and "awaiting L (nodes C i) (waiter_of p) \<or> told_on M sm i p B C"
  shows "\<exists>C' w'. related M sm C' w' \<and> leading M i t L C' w' \<and> (\<forall>q \<in> M - {i}. matched (nodes C' i) q (length L)) \<and>
    (cstep_in {} M sm)\<^sup>*\<^sup>* B C' \<and> (awaiting L (nodes C' i) (waiter_of p) \<or> told_on M sm i p B C')"
  using assms
proof (induction "card {q \<in> M - {i}. \<not> matched (nodes C i) q (length L)}" arbitrary: C w rule: less_induct)
  case less
  let ?un = "\<lambda>C. {q \<in> M - {i}. \<not> matched (nodes C i) q (length L)}"
  show ?case
  proof (cases "?un C = {}")
    case True
    then have "\<forall>q \<in> M - {i}. matched (nodes C i) q (length L)" by blast
    with less.prems show ?thesis by blast
  next
    case False
    then obtain j where j: "j \<in> M" "j \<noteq> i" "\<not> matched (nodes C i) j (length L)" by blast
    with less.prems(3) obtain nxt where "awaits i t (length L) C j nxt" by blast
    from sync_peer [OF less.prems(1,2) j(1,2) this] obtain D v where
      D: "related M sm D v" "leading M i t L D v" "goes M sm L i j C D" "matched (nodes D i) j (length L)" by blast
    have k: "kept i j C D" using D(3) by (simp add: goes_def)
    have "?un D \<subset> ?un C" using kept_matched [OF k] D(4) j by blast
    moreover have "finite (?un C)" using less.prems(1) by (simp add: related_def)
    ultimately have lt: "card (?un D) < card (?un C)" by (rule psubset_card_mono [rotated])
    have "\<forall>q \<in> M - {i}. matched (nodes D i) q (length L) \<or> (\<exists>nxt. awaits i t (length L) D q nxt)"
      using less.prems(3) kept_matched [OF k] kept_awaits [OF k] D(4) by metis
    from less.hyps [OF lt D(1,2) this told_goes [OF less.prems(4,5) D(3)]] show ?thesis .
  qed
qed

lemma all_matched:
  assumes R: "related M sm C w" and le: "leading M i t L C w" and m: "\<forall>q \<in> M - {i}. matched (nodes C i) q (length L)"
  shows "length L \<le> last_applied (nodes C i)" and "\<not> awaiting L (nodes C i) q"
proof -
  have i: "i \<in> M" and h: "holding M (nodes C i) L" and L: "lg_of w i = L" using le by (simp_all add: leading_def)
  note r = runs_start [OF R i, unfolded L]
  from h obtain l where l: "role (nodes C i) = Leader l" by (auto simp: holding_def is_leader_def split: role.splits)
  have "length L \<le> known_match (nodes C i) l q" if "q \<in> M" for q
    using that m l holds_logD(2) [OF runsD(6) [OF r]] related_node(1) [OF R i]
    by (auto simp: known_match_def matched_def entry_or_def)
  then have c: "length L \<le> commit_index (nodes C i)" using h l by (simp add: holding_def caught_up_def)
  with h show "length L \<le> last_applied (nodes C i)" by (auto simp: holding_def)
  show "\<not> awaiting L (nodes C i) q" using c by (auto simp: awaiting_def)
qed

subsection \<open>A command of a client\<close>

text \<open>The turn in which the node \<open>i\<close> takes the command of a client and answers it with the proposal \<open>p\<close>.\<close>

definition accepts where
  "accepts M sm i cmd p C C' \<longleftrightarrow> i \<in> M \<and> cstep_in {} M sm C C' \<and>
     (\<exists>now n. take_turn now (Ctl (Propose cmd 0)) (drained (nodes C i)) = Inr (True, None, n) \<and>
        nodes C' = (nodes C)(i := n) \<and> ReplyPropose 0 (Inr p) \<in> set (effects n))"

lemma leader_accepts:
  assumes R: "related M sm C w" and i: "i \<in> M" and l: "is_leader (nodes C i)"
    and t: "\<forall>p \<in> M. current_term (nodes C p) \<le> current_term (nodes C i)" and c: "plain_command cmd"
  obtains D v L p where "accepts M sm i cmd p C D" and "related M sm D v" and "leading M i (current_term (nodes C i)) L D v"
    and "\<forall>q \<in> M - {i}. \<exists>nxt. awaits i (current_term (nodes C i)) (length L) D q nxt" and "proposal_index p = length L"
    and "awaiting L (nodes D i) (waiter_of p) \<or> told_on M sm i p D D" and "L \<noteq> []" and "command (last L) = cmd"
proof -
  let ?n = "drained (nodes C i)" and ?t = "current_term (nodes C i)" and ?L = "lg_of w i"
  let ?e = "\<lparr>entry_term = ?t, index = last_index (storage (nodes C i)) + 1, command = cmd\<rparr>"
  from l obtain ls where ls: "role ?n = Leader ls" by (auto simp: is_leader_def split: role.splits)
  note ok = accept_proposal_ok [OF runs_start [OF R i] ls c, of 0 0]
  have e: "turn_enabled C i (Ctl (Propose cmd 0))"
    "take_turn 0 (Ctl (Propose cmd 0)) ?n = bind_r (accept_proposal 0 cmd 0 ?n) (\<lambda>n. Inr (True, None, n))"
    using c propose_accepts [OF ls c] by (simp_all add: turn_enabled_def take_turn_def)
  obtain D v n where D: "cstep_in {} M sm C D" "related M sm D v" "nodes D = (nodes C)(i := n)" "wire D = wire C \<union> posted i n"
    and n: "lg_of v i = ?L @ [\<lparr>entry_term = current_term ?n, index = last_index (storage ?n) + 1, command = cmd\<rparr>] \<and>
      current_term n = current_term ?n \<and> holding M n (lg_of v i) \<and> (\<forall>q \<in> M - {i}. \<exists>nxt. requested n (lg_of v i) q nxt) \<and>
      (\<exists>p. ReplyPropose 0 (Inr p) \<in> set (effects n) \<and> proposal_index p = length (lg_of v i) \<and> told (lg_of v i) p n)"
    and m: "accept_proposal 0 cmd 0 ?n = Inr n"
    by (rule turn_made [OF R i e ok])
  let ?M = "lg_of v i"
  from n obtain p where p: "ReplyPropose 0 (Inr p) \<in> set (effects n)" "proposal_index p = length ?M" "told ?M p n" by blast
  have le: "leading M i ?t ?M D v" using i n t D(3) by (auto simp: leading_def)
  have tn: "current_term n = ?t" using n by simp
  have rq: "\<forall>q \<in> M - {i}. \<exists>nxt. requested n ?M q nxt" using n by blast
  have aw: "\<forall>q \<in> M - {i}. \<exists>nxt. awaits i ?t (length ?M) D q nxt"
  proof
    fix q assume "q \<in> M - {i}"
    with rq obtain nxt where "requested n ?M q nxt" by blast
    with D(3,4) tn have "awaits i ?t (length ?M) D q nxt" unfolding requested_def awaits_def posted_def by auto
    then show "\<exists>nxt. awaits i ?t (length ?M) D q nxt" by blast
  qed
  have acc: "accepts M sm i cmd p C D"
    unfolding accepts_def using i D(1,3) e(2) m p(1) by (intro conjI exI [of _ 0] exI [of _ n]) simp_all
  have "awaiting ?M (nodes D i) (waiter_of p) \<or> told_on M sm i p D D"
    using p(3) D(3) unfolding told_def told_on_def by auto
  moreover have "?M \<noteq> []" "command (last ?M) = cmd" using n by (metis snoc_eq_iff_butlast, metis last_snoc log_entry.select_convs(3))
  ultimately show thesis by (rule that [OF acc D(2) le aw p(2)])
qed

text \<open>
  C11. Progress. From every reachable state of a cluster, whatever was lost, delayed, duplicated or crashed on the way there,
  there is a continuation without crashes in which some member accepts the next command of a client, tells the client that
  the command is committed, and has applied it to its state machine. So no reachable state is a dead end: no combination
  of terms, votes, logs, snapshots and messages in flight keeps the members from electing a leader and committing once
  their turns are taken and their messages arrive.
\<close>

theorem cluster_makes_progress:
  assumes "reachable M sm C" and "M \<noteq> {}" and "plain_command cmd"
  shows "\<exists>i p D D' E C' H. (cstep_in {} M sm)\<^sup>*\<^sup>* C D \<and> accepts M sm i cmd p D D' \<and> (cstep_in {} M sm)\<^sup>*\<^sup>* D' E \<and>
    Committed (waiter_of p) True \<in> set (effects (nodes E i)) \<and> (cstep_in {} M sm)\<^sup>*\<^sup>* E C' \<and>
    holds_log H (storage (nodes C' i)) \<and> proposal_index p = length H \<and> H \<noteq> [] \<and> command (last H) = cmd \<and>
    last_applied (nodes C' i) = length H \<and> state_machine (nodes C' i) = replay sm H"
proof -
  from reachable_related [OF assms(1)] obtain w where R: "related M sm C w" by blast
  from elect [OF R assms(2)] obtain D v i where D: "(cstep_in {} M sm)\<^sup>*\<^sup>* C D" "related M sm D v" "i \<in> M"
    "is_leader (nodes D i)" "\<forall>p \<in> M. current_term (nodes D p) \<le> current_term (nodes D i)" by blast
  obtain D' v' L p where D': "accepts M sm i cmd p D D'" "related M sm D' v'" "leading M i (current_term (nodes D i)) L D' v'"
    "\<forall>q \<in> M - {i}. \<exists>nxt. awaits i (current_term (nodes D i)) (length L) D' q nxt" "proposal_index p = length L"
    "awaiting L (nodes D' i) (waiter_of p) \<or> told_on M sm i p D' D'" "L \<noteq> []" "command (last L) = cmd"
    by (rule leader_accepts [OF D(2-5) assms(3)])
  from sync_all [OF D'(2,3) _ rtranclp.rtrancl_refl D'(6)] D'(4) obtain C' w' where
    C': "related M sm C' w'" "leading M i (current_term (nodes D i)) L C' w'" "\<forall>q \<in> M - {i}. matched (nodes C' i) q (length L)"
    "awaiting L (nodes C' i) (waiter_of p) \<or> told_on M sm i p D' C'" by blast
  note A = all_matched [OF C'(1-3)]
  from C'(4) A(2) obtain E where E: "(cstep_in {} M sm)\<^sup>*\<^sup>* D' E" "(cstep_in {} M sm)\<^sup>*\<^sup>* E C'"
    "Committed (waiter_of p) True \<in> set (effects (nodes E i))" by (auto simp: told_on_def)
  have L: "lg_of w' i = L" using C'(2) by (simp add: leading_def)
  note N = related_node(3,5) [OF C'(1) D(3), unfolded L]
  have "last_applied (nodes C' i) = length L"
    using A(1) runsD(9,10) [OF runs_start [OF C'(1) D(3), unfolded L]] by simp
  with N D D'(1,5,7,8) E show ?thesis by (intro exI [of _ i] exI [of _ p] exI [of _ D] exI [of _ D'] exI [of _ E] exI [of _ C'] exI [of _ L]) simp
qed

theorem cluster_makes_progress_witness:
  "reachable {1, 2, 3} example_machine cluster3 \<and>
   (\<exists>i p D D' E C' H. (cstep_in {} {1, 2, 3} example_machine)\<^sup>*\<^sup>* cluster3 D \<and> accepts {1, 2, 3} example_machine i put_cmd p D D' \<and>
    (cstep_in {} {1, 2, 3} example_machine)\<^sup>*\<^sup>* D' E \<and> Committed (waiter_of p) True \<in> set (effects (nodes E i)) \<and>
    (cstep_in {} {1, 2, 3} example_machine)\<^sup>*\<^sup>* E C' \<and>
    holds_log H (storage (nodes C' i)) \<and> proposal_index p = length H \<and> H \<noteq> [] \<and> command (last H) = put_cmd \<and>
    last_applied (nodes C' i) = length H \<and> state_machine (nodes C' i) = replay example_machine H)"
  using reachable3 cluster_makes_progress [OF reachable3, of put_cmd] by (simp add: plain_command_def put_cmd_def)

end
