(* ===== verification/Spec2Isabelle.thy ===== *)
theory Spec2Isabelle
  imports Boot Sim Api Progress
begin

text \<open>
  A verification library for \<^verbatim>\<open>rustKV\<close>, a key-value store that a small cluster replicates with Raft.

  \<^bold>\<open>The program.\<close> A process (\<^verbatim>\<open>src/main.rs\<close>) reads its configuration from the environment (\<^verbatim>\<open>config.rs\<close>), opens
  its data directory (\<^verbatim>\<open>raft/storage.rs\<close>), and starts one Raft node (\<^verbatim>\<open>raft/node.rs\<close>): a single task that takes turns on
  client commands, timers, inbound RPCs and replies to its own RPCs. The node persists its term, vote, log and
  snapshot through the storage before it answers, sends RPCs (\<^verbatim>\<open>raft/rpc.rs\<close>) through a transport
  (\<^verbatim>\<open>raft/transport/http.rs\<close>, or \<^verbatim>\<open>sim.rs\<close> in tests), and applies committed entries to the store (\<^verbatim>\<open>store.rs\<close>), which
  suppresses duplicate writes by client tokens. Clients talk HTTP to the handlers of \<^verbatim>\<open>api.rs\<close>, which go through
  the facade of \<^verbatim>\<open>kv.rs\<close>. Line numbers of each definition are in the manifest; definitions keep the names
  of the functions they model.

  \<^bold>\<open>The model of one node.\<close>
  \<^item> \<^verbatim>\<open>Prelude\<close>: results and panics as sums, a weakest-precondition calculus for them, lists, majorities.
  \<^item> \<^verbatim>\<open>Raft_Types\<close>: \<^verbatim>\<open>raft/types.rs\<close>, \<^verbatim>\<open>raft/rpc.rs\<close> and the error type of \<^verbatim>\<open>raft/transport/mod.rs\<close>, as records and datatypes.
    A JSON value is a type parameter.
  \<^item> \<^verbatim>\<open>Rng\<close>: the SplitMix64 generator of \<^verbatim>\<open>rng.rs\<close> on 64-bit words.
  \<^item> \<^verbatim>\<open>Storage\<close>: the in-memory mirror of \<^verbatim>\<open>raft/storage.rs\<close> with its mutations and queries, its invariant \<open>storage_ok\<close>,
    and the interface \<open>log_store\<close> the handlers rely on.
  \<^item> \<^verbatim>\<open>Log_Merge\<close>: the walk of \<^verbatim>\<open>handle_append_entries\<close> over the received entries, proved against \<open>log_store\<close>.
  \<^item> \<^verbatim>\<open>Node\<close>, \<^verbatim>\<open>Node_Handlers\<close>: \<^verbatim>\<open>raft/node.rs\<close>. The struct \<^verbatim>\<open>RaftNode\<close> is the record \<open>raft_node\<close>; every method is a function of
    it, \<open>Inl\<close> where the source panics, and what it sends and stores goes to \<open>effects\<close>, in order; \<open>left_by\<close> says what a
    crash between two effects, or inside a mutation of the storage, leaves on the disk. \<open>take_turn\<close> is one branch of the event
    loop, \<open>select_turn\<close> the biased \<^verbatim>\<open>select!\<close>, \<open>run_iteration\<close> one iteration, \<open>spawn\<close> the start from a storage.
  \<^item> \<^verbatim>\<open>Store\<close>: \<^verbatim>\<open>store.rs\<close> with the 64-bit window of each client at its width.

  \<^bold>\<open>The cluster.\<close>
  \<^item> \<^verbatim>\<open>Raft_Spec\<close>, \<^verbatim>\<open>Raft_Safety\<close>: the replication protocol without timers, channels and retransmission, and its
    inductive invariant, for any quorum system (locale \<open>raft_quorums\<close>).
  \<^item> \<^verbatim>\<open>Node_Refine\<close>, \<^verbatim>\<open>Turn_Refine\<close>: every handler of the node takes steps of one process of the protocol and does not panic.
    The log of the process includes what the node has compacted. Whatever a crash in the middle of a turn leaves is again a
    state of the process, with what had been sent by then: nothing is sent before what it rests on is stored.
  \<^item> \<^verbatim>\<open>Cluster\<close>: nodes, a network that loses, delays, duplicates and reorders, crashes between turns and in the middle of one,
    restarts; the simulation. A crash may leave any \<open>left_by\<close> but one: a new snapshot over an old log that disagrees with it,
    which the protocol has no counterpart for (\<open>left_whole\<close>). A node starts from that one too, without a panic.
  \<^item> \<^verbatim>\<open>Cluster_Example\<close>: a run of three nodes through an election, a write and a read, evaluated.
  \<^item> \<^verbatim>\<open>Cluster_Safety\<close>: election safety, log matching, leader completeness, agreement and durability of committed entries,
    one history for all replicas, refinement of the store that remembers every token, no panic, refinement of the protocol.
  \<^item> \<^verbatim>\<open>Steady\<close>, \<^verbatim>\<open>Clients\<close>: what a node keeps of its clients' waiters and of heartbeat rounds, and from it the promises to
    clients: granted reads are linearizable, acknowledged writes survive.
  \<^item> \<^verbatim>\<open>Election\<close>, \<^verbatim>\<open>Progress\<close>: from every reachable state, steps without crashes in which leaders that hear nobody step down, the
    node with the most up-to-date log is elected, a client's command is replicated to every member, over rejections
    and snapshots, and the client is told. Termination is by the number of missing votes, the next index of a
    peer while the leader backs up, and the distance to the end of the log after a snapshot.

  \<^bold>\<open>The disk.\<close> \<^verbatim>\<open>Disk\<close> is a file system with torn writes and unsynced directories, and \<^verbatim>\<open>write_atomic\<close> on it (interface
  \<open>crash_store\<close>); \<^verbatim>\<open>Storage_Disk\<close> has the mutations of \<^verbatim>\<open>raft/storage.rs\<close> as the
  system calls they make, and \<^verbatim>\<open>Storage::open\<close> with replay and repair; \<^verbatim>\<open>Storage_Crash\<close> shows that what was acknowledged is found
  again after any crash, that a crash inside any mutation leaves a directory that opens, to one of the states it lists, and that
  damage is reported, with three exceptions that it proves as findings: an append before the log is linked into the directory can be
  lost, and a crash inside the installation of a snapshot leaves the old log, which may disagree with the snapshot or end
  below it. \<open>opened\<close> is the invariant of a directory in use. \<^verbatim>\<open>Serde_Example\<close> is a concrete encoding, so the hypotheses on
  encodings can hold.

  \<^bold>\<open>The edges.\<close>
  \<^item> \<^verbatim>\<open>Text\<close>: trimming, splitting and parsing numbers, as the standard library does it.
  \<^item> \<^verbatim>\<open>Sim\<close>: the simulated network of \<^verbatim>\<open>raft/transport/sim.rs\<close>: the fault plan, the fate of one RPC, and the safety observer,
    which is shown exact and silent on every reachable cluster.
  \<^item> \<^verbatim>\<open>Http\<close>: \<^verbatim>\<open>raft/transport/http.rs\<close>: address book, connection pool, the hand-written HTTP/1.1 client byte by byte.
  \<^item> \<^verbatim>\<open>Kv\<close>, \<^verbatim>\<open>Api\<close>: \<^verbatim>\<open>kv.rs\<close> and the handlers of \<^verbatim>\<open>api.rs\<close>: what status a client gets and what it may conclude from it.
  \<^item> \<^verbatim>\<open>Config\<close>: \<^verbatim>\<open>config.rs\<close> and the parts of \<^verbatim>\<open>main.rs\<close> that compute: the Raft configuration and the address books.
  \<^item> \<^verbatim>\<open>Boot\<close>: \<^verbatim>\<open>main.rs\<close>. \<open>main_start\<close> reads the environment, opens the data directory, builds the transport and spawns the node;
    \<open>fold_membership\<close> is the task that follows the membership. Processes with consistent environments and empty
    directories form a cluster. A process that died anywhere in a turn, also inside a mutation of its first turns or of an
    installation, comes up again, and is that node of the cluster but for the one state that \<^verbatim>\<open>Cluster\<close> leaves out. A node
    has no entry before its first term, so it never appends to a log that is not linked yet. After a round of the task the
    transport knows every peer the node replicates to.

  \<^bold>\<open>Numbers, time, loops.\<close> Terms, indexes and sequence numbers are natural numbers: \<^verbatim>\<open>u64\<close> counters that start at
  zero and grow by one do not wrap in the life of a cluster; every subtraction and every slice of \<^verbatim>\<open>node.rs\<close> that could
  go out of range is a panic of the model, and the dedup window and the generator are on words, where shifts and wrap-around matter.
  An \<^verbatim>\<open>Instant\<close> and a \<^verbatim>\<open>Duration\<close> are natural numbers; a turn happens at one instant, which the cluster chooses freely, so the
  theorems about the cluster assume nothing about clocks. Progress is existential for the same reason: the schedule,
  and the instants at which timers fire, are chosen; that the scheduler and the clocks do so is not assumed. There is no fuel: every loop is structural or has a termination
  proof. A turn runs to completion before the next one: the source awaits nothing inside a turn.

  \<^bold>\<open>Parameters.\<close> The encodings of serde, the outcome of a connection attempt and of the operating system's calls, the
  replies a client's wait sees, and the methods of the state machine are arguments. The theorems name what they
  rely on: that an encoding round-trips and stays on one line, that a state machine restores its own snapshot.

  \<^bold>\<open>Not modelled.\<close>
  \<^item> Timing: that election timeouts are spread enough for elections to end under every schedule is a question of
    probability and clocks; \<^verbatim>\<open>Progress\<close> shows that no state is a dead end.
  \<^item> Crashes that leave a new snapshot over an old log that disagrees with it, in the theorems about the cluster; and that a
    directory with a log that ends below its snapshot goes on to open: it does not, after the next append, as
    \<^verbatim>\<open>Storage_Crash\<close> shows.
  \<^item> Configuration changes in the theorems about the cluster: the handlers model them in full (validation, adoption, departing
    members, rollback), but \<^verbatim>\<open>Cluster\<close> starts with one membership and proposes no change.
  \<^item> Log messages, the texts of errors, metrics; task handles and their abortion; graceful shutdown and binding of listeners
    in \<^verbatim>\<open>main.rs\<close>, which is I/O.
  \<^item> The axum router, its extractors and its server, serde, tokio and the operating system: not part of the sources.
  \<^item> Poisoned locks: a lock is poisoned only after a panic elsewhere.
  \<^item> \<^verbatim>\<open>lib.rs\<close> and \<^verbatim>\<open>raft/mod.rs\<close>, which only declare modules.
\<close>

end
